(* ===== verification/Velarix_Prelude.thy ===== *)
theory Velarix_Prelude
  imports Main "HOL-Library.Word" "HOL-Library.List_Lexorder"
begin

text \<open>
  What the components share: the machine types, Rust's \<^verbatim>\<open>Result\<close> with a third outcome for
  a panic, little-endian integer encodings (\<^verbatim>\<open>to_le_bytes\<close>, \<^verbatim>\<open>from_le_bytes\<close> of the standard
  library), and the ordered map that stands for the contents of a skip map.

  \<^item> \<open>fixed_codec\<close> is the interface of a fixed-width field encoding; it is interpreted by the
    encodings of \<^verbatim>\<open>u8\<close>, \<^verbatim>\<open>u32\<close> and \<^verbatim>\<open>u64\<close>.
  \<^item> \<open>ordered_map\<close> is the interface of a map with ordered iteration (what the code relies on of
    \<^verbatim>\<open>crossbeam_skiplist::SkipMap\<close>); it is interpreted by the sorted association list.
\<close>

section \<open>Machine types\<close>

type_synonym byte = "8 word"
type_synonym bytes = "byte list"
type_synonym u32 = "32 word"
type_synonym u64 = "64 word"

text \<open>A path is its list of components, \<^verbatim>\<open>Path::join\<close> appends one.\<close>

type_synonym path = "string list"

named_theorems codec \<open>facts that read an encoded field back\<close>
named_theorems skipmap \<open>facts about the ordered map\<close>

section \<open>Results\<close>

text \<open>
  \<open>Ok\<close> and \<open>Err\<close> are the two constructors of \<^verbatim>\<open>Result\<close>; \<open>Panic\<close> is the outcome of a failed
  \<^verbatim>\<open>assert!\<close>, of \<^verbatim>\<open>unwrap\<close> on nothing, of a remainder by zero.
\<close>

datatype ('a, 'e) result = Ok 'a | Err 'e | Panic

fun and_then :: "('a, 'e) result \<Rightarrow> ('a \<Rightarrow> ('b, 'e) result) \<Rightarrow> ('b, 'e) result" where
  "and_then (Ok x) f = f x"
| "and_then (Err e) f = Err e"
| "and_then Panic f = Panic"

fun map_err :: "('e \<Rightarrow> 'f) \<Rightarrow> ('a, 'e) result \<Rightarrow> ('a, 'f) result" where
  "map_err f (Ok x) = Ok x"
| "map_err f (Err e) = Err (f e)"
| "map_err f Panic = Panic"

fun is_ok :: "('a, 'e) result \<Rightarrow> bool" where
  "is_ok (Ok x) = True"
| "is_ok (Err e) = False"
| "is_ok Panic = False"

text \<open>\<^verbatim>\<open>Option::unwrap\<close> panics on \<^verbatim>\<open>None\<close>.\<close>

fun unwrap :: "'a option \<Rightarrow> ('a, 'e) result" where
  "unwrap None = Panic"
| "unwrap (Some x) = Ok x"

text \<open>One turn of a \<^verbatim>\<open>loop\<close>: go round again, or \<^verbatim>\<open>return\<close>.\<close>

datatype ('s, 'r) flow = Continue 's | Return 'r

text \<open>A loop over a list whose body may fail: \<^verbatim>\<open>for x in xs { body(x)?; }\<close>.\<close>

fun fold_res :: "('a \<Rightarrow> 's \<Rightarrow> ('s, 'e) result) \<Rightarrow> 'a list \<Rightarrow> 's \<Rightarrow> ('s, 'e) result" where
  "fold_res f [] s = Ok s"
| "fold_res f (x # xs) s = and_then (f x s) (fold_res f xs)"

text \<open>The loop over a list of records, with the length of each record on disk.\<close>

fun run_steps ::
  "('e \<Rightarrow> nat \<Rightarrow> 's \<Rightarrow> (('s, 'r) flow, 'x) result) \<Rightarrow> ('s \<Rightarrow> 'r) \<Rightarrow> ('e \<Rightarrow> nat) \<Rightarrow> 's \<Rightarrow> 'e list
     \<Rightarrow> ('r, 'x) result" where
  "run_steps step fin len s [] = Ok (fin s)"
| "run_steps step fin len s (e # es) =
     and_then (step e (len e) s)
       (\<lambda>fl. case fl of Continue s' \<Rightarrow> run_steps step fin len s' es | Return r \<Rightarrow> Ok r)"

text \<open>A loop that never leaves early folds; a loop that leaves at its first hit finds.\<close>

lemma run_steps_fold:
  assumes "\<forall>e \<in> set es. \<forall>s. step e (len e) s = Ok (Continue (f e s))"
  shows "run_steps step fin len s es = Ok (fin (fold f es s))"
  using assms by (induction es arbitrary: s) auto

lemma run_steps_find:
  assumes "\<forall>e \<in> set es. step e (len e) s = Ok (if Q e then Return (r e) else Continue s)"
  shows "run_steps step fin len s es = Ok (case find Q es of None \<Rightarrow> fin s | Some e \<Rightarrow> r e)"
  using assms by (induction es) auto

lemma and_then_cong [fundef_cong]:
  assumes "r = r'" and "\<And>x. r' = Ok x \<Longrightarrow> f x = g x"
  shows "and_then r f = and_then r' g"
  using assms by (cases r') auto

lemma fold_res_cong [fundef_cong]:
  assumes "xs = ys" and "s = t" and "\<And>x s. x \<in> set ys \<Longrightarrow> f x s = g x s"
  shows "fold_res f xs s = fold_res g ys t"
  using assms by (induction ys arbitrary: xs s t) (auto intro!: and_then_cong)

lemma fold_res_map: "fold_res f (map g xs) s = fold_res (\<lambda>x. f (g x)) xs s"
  by (induction xs arbitrary: s) (auto intro: and_then_cong)

lemma fold_res_append: "fold_res f (xs @ ys) s = and_then (fold_res f xs s) (fold_res f ys)"
proof (induction xs arbitrary: s)
  case (Cons x xs)
  then show ?case by (cases "f x s") simp_all
qed simp

lemma and_then_eq_Ok [simp]:
  "and_then r f = Ok y \<longleftrightarrow> (\<exists>x. r = Ok x \<and> f x = Ok y)"
  by (cases r) auto

lemma and_then_eq_Panic:
  "and_then r f = Panic \<longleftrightarrow> r = Panic \<or> (\<exists>x. r = Ok x \<and> f x = Panic)"
  by (cases r) auto

lemma and_then_eq_Err:
  "and_then r f = Err e \<longleftrightarrow> r = Err e \<or> (\<exists>x. r = Ok x \<and> f x = Err e)"
  by (cases r) auto

lemma and_then_Ok [simp]: "and_then r Ok = r"
  by (cases r) auto

lemma fold_res_mono:
  fixes size :: "'s \<Rightarrow> nat"
  assumes "\<And>x s s'. f x s = Ok s' \<Longrightarrow> size s \<le> size s'"
  shows "fold_res f xs s = Ok s' \<Longrightarrow> size s \<le> size s'"
  by (induction xs arbitrary: s) (auto dest!: assms intro: le_trans)

lemma map_err_eq_Ok [simp]: "map_err f r = Ok x \<longleftrightarrow> r = Ok x"
  by (cases r) auto

lemma unwrap_eq_Ok [simp]: "unwrap m = Ok x \<longleftrightarrow> m = Some x"
  by (cases m) auto

lemma is_ok_iff: "is_ok r \<longleftrightarrow> (\<exists>x. r = Ok x)"
  by (cases r) auto

section \<open>Little-endian integers\<close>

fun le_bytes :: "nat \<Rightarrow> nat \<Rightarrow> bytes" where
  "le_bytes 0 x = []"
| "le_bytes (Suc n) x = word_of_nat x # le_bytes n (x div 256)"

fun le_val :: "bytes \<Rightarrow> nat" where
  "le_val [] = 0"
| "le_val (b # bs) = unat b + 256 * le_val bs"

lemma length_le_bytes [simp]: "length (le_bytes n x) = n"
  by (induction n arbitrary: x) auto

lemma le_val_le_bytes: "le_val (le_bytes n x) = x mod 256 ^ n"
proof (induction n arbitrary: x)
  case 0
  then show ?case by simp
next
  case (Suc n)
  have "unat (word_of_nat x :: byte) = x mod 256"
    by (simp add: unat_of_nat)
  with Suc show ?case
    by (simp add: mod_mult2_eq mult.commute)
qed

lemma unat_byte_less: "unat (b :: byte) < 256"
proof -
  have "unat b < 2 ^ LENGTH(8)" by (rule unsigned_less)
  then show ?thesis by simp
qed

lemma le_val_bound: "le_val bs < 256 ^ length bs"
proof (induction bs)
  case Nil
  then show ?case by simp
next
  case (Cons b bs)
  have "unat b \<le> 255" using unat_byte_less [of b] by simp
  with Cons show ?case by simp
qed

lemma le_bytes_le_val: "length bs = n \<Longrightarrow> le_bytes n (le_val bs) = bs"
proof (induction bs arbitrary: n)
  case Nil
  then show ?case by simp
next
  case (Cons b bs)
  then obtain m where m: "n = Suc m" "length bs = m" by auto
  have b: "unat b < 256" by (rule unat_byte_less)
  have "(256 :: byte) * w = 0" for w
  proof -
    have "(256 :: byte) = 0" by simp
    then show ?thesis by (metis mult_zero_left)
  qed
  then have "word_of_nat (unat b + 256 * le_val bs) = b" by simp
  moreover have "(unat b + 256 * le_val bs) div 256 = le_val bs"
    using b by simp
  ultimately show ?case
    using Cons.IH [OF m(2)] m(1) by simp
qed

definition u32_to_le_bytes :: "u32 \<Rightarrow> bytes" where
  "u32_to_le_bytes w = le_bytes 4 (unat w)"

definition u32_from_le_bytes :: "bytes \<Rightarrow> u32" where
  "u32_from_le_bytes bs = word_of_nat (le_val bs)"

definition u64_to_le_bytes :: "u64 \<Rightarrow> bytes" where
  "u64_to_le_bytes w = le_bytes 8 (unat w)"

definition u64_from_le_bytes :: "bytes \<Rightarrow> u64" where
  "u64_from_le_bytes bs = word_of_nat (le_val bs)"

text \<open>A \<^verbatim>\<open>bool\<close> is written as one byte (\<^verbatim>\<open>b as u8\<close>) and read back with \<^verbatim>\<open>byte == 1\<close>.\<close>

definition bool_to_byte :: "bool \<Rightarrow> bytes" where
  "bool_to_byte b = [if b then 1 else 0]"

definition bool_from_byte :: "bytes \<Rightarrow> bool" where
  "bool_from_byte bs = (case bs of [] \<Rightarrow> False | b # _ \<Rightarrow> b = 1)"

text \<open>
  The interface of a fixed-width field: its width, and that decoding undoes encoding. The client
  lemmas say what a reader finds at the front of a byte sequence that starts with the field.
\<close>

locale fixed_codec =
  fixes enc :: "'a \<Rightarrow> bytes" and dec :: "bytes \<Rightarrow> 'a" and width :: nat
  assumes length_enc: "length (enc x) = width"
    and dec_enc: "dec (enc x) = x"
    and width_pos: "0 < width"
begin

lemma enc_inject: "enc x = enc y \<longleftrightarrow> x = y"
  using dec_enc by metis

lemma enc_neq_Nil: "enc x \<noteq> []"
  using length_enc [of x] width_pos by auto

lemma take_enc: "take width (enc x @ rest) = enc x"
  by (simp add: length_enc)

lemma drop_enc: "drop width (enc x @ rest) = rest"
  by (simp add: length_enc)

lemma enc_append_inject: "enc x @ xs = enc y @ ys \<longleftrightarrow> x = y \<and> xs = ys"
  by (simp add: length_enc enc_inject)

end

interpretation u32: fixed_codec u32_to_le_bytes u32_from_le_bytes 4
proof
  fix x :: u32
  have "unat x < 2 ^ LENGTH(32)" by (rule unsigned_less)
  then have "unat x < 256 ^ 4" by simp
  then show "u32_from_le_bytes (u32_to_le_bytes x) = x"
    by (simp add: u32_from_le_bytes_def u32_to_le_bytes_def le_val_le_bytes)
qed (simp_all add: u32_to_le_bytes_def)

interpretation u64: fixed_codec u64_to_le_bytes u64_from_le_bytes 8
proof
  fix x :: u64
  have "unat x < 2 ^ LENGTH(64)" by (rule unsigned_less)
  then have "unat x < 256 ^ 8" by simp
  then show "u64_from_le_bytes (u64_to_le_bytes x) = x"
    by (simp add: u64_from_le_bytes_def u64_to_le_bytes_def le_val_le_bytes)
qed (simp_all add: u64_to_le_bytes_def)

interpretation u8: fixed_codec bool_to_byte bool_from_byte 1
  by unfold_locales (simp_all add: bool_to_byte_def bool_from_byte_def)

lemmas [codec] =
  u32.length_enc u32.dec_enc u32.take_enc u32.drop_enc u32.enc_neq_Nil
  u64.length_enc u64.dec_enc u64.take_enc u64.drop_enc u64.enc_neq_Nil
  u8.length_enc u8.dec_enc u8.take_enc u8.drop_enc u8.enc_neq_Nil

lemma unat_u32_of_nat [codec]: "n < 2 ^ 32 \<Longrightarrow> unat (word_of_nat n :: u32) = n"
  by (simp add: unat_of_nat)

section \<open>Ordered maps\<close>

text \<open>
  The contents of a skip map, in key order: an association list with strictly increasing keys.
\<close>

type_synonym ('k, 'v) skipmap = "('k \<times> 'v) list"

fun sm_insert :: "'k::linorder \<Rightarrow> 'v \<Rightarrow> ('k, 'v) skipmap \<Rightarrow> ('k, 'v) skipmap" where
  "sm_insert k v [] = [(k, v)]"
| "sm_insert k v (p # m) =
     (if k < fst p then (k, v) # p # m
      else if fst p < k then p # sm_insert k v m
      else (k, v) # m)"

definition sm_get :: "('k, 'v) skipmap \<Rightarrow> 'k \<Rightarrow> 'v option" where
  "sm_get m k = map_of m k"

definition sm_remove :: "'k \<Rightarrow> ('k, 'v) skipmap \<Rightarrow> ('k, 'v) skipmap" where
  "sm_remove k m = filter (\<lambda>p. fst p \<noteq> k) m"

definition sm_sorted :: "('k::linorder, 'v) skipmap \<Rightarrow> bool" where
  "sm_sorted m \<longleftrightarrow> sorted_wrt (<) (map fst m)"

text \<open>
  What a client relies on of the map type: insertion overwrites, iteration is in key order and
  lists exactly the bindings that a lookup finds.
\<close>

locale ordered_map =
  fixes empty :: "'m"
    and ins :: "'k::linorder \<Rightarrow> 'v \<Rightarrow> 'm \<Rightarrow> 'm"
    and get :: "'m \<Rightarrow> 'k \<Rightarrow> 'v option"
    and remove :: "'k \<Rightarrow> 'm \<Rightarrow> 'm"
    and iter :: "'m \<Rightarrow> ('k \<times> 'v) list"
    and inv :: "'m \<Rightarrow> bool"
  assumes inv_empty: "inv empty"
    and iter_empty: "iter empty = []"
    and inv_ins: "inv m \<Longrightarrow> inv (ins k v m)"
    and inv_remove: "inv m \<Longrightarrow> inv (remove k m)"
    and get_ins: "inv m \<Longrightarrow> get (ins k v m) = (get m)(k \<mapsto> v)"
    and get_remove: "inv m \<Longrightarrow> get (remove k m) = (get m)(k := None)"
    and get_iter: "inv m \<Longrightarrow> get m = map_of (iter m)"
    and iter_sorted: "inv m \<Longrightarrow> sorted_wrt (<) (map fst (iter m))"
begin

lemma iter_distinct: "inv m \<Longrightarrow> distinct (map fst (iter m))"
  using iter_sorted strict_sorted_iff by blast

lemma in_iter_iff: "inv m \<Longrightarrow> (k, v) \<in> set (iter m) \<longleftrightarrow> get m k = Some v"
  by (simp add: get_iter iter_distinct)

lemma inv_fold: "inv m \<Longrightarrow> inv (fold (\<lambda>(k, v). ins k v) ps m)"
  by (induction ps arbitrary: m) (auto simp: inv_ins)

lemma get_fold:
  "inv m \<Longrightarrow> get (fold (\<lambda>(k, v). ins k v) ps m) = get m ++ map_of (rev ps)"
proof (induction ps arbitrary: m)
  case Nil
  then show ?case by simp
next
  case (Cons p ps)
  then show ?case
    by (cases p) (auto simp: inv_ins get_ins map_add_def fun_eq_iff split: option.splits)
qed

text \<open>Two maps with the same bindings iterate alike, so a map is rebuilt from its iteration.\<close>

lemma iter_unique:
  assumes "inv m" "inv n" "get m = get n"
  shows "iter m = iter n"
proof -
  have "set (iter m) = set (iter n)"
    using assms in_iter_iff by (metis set_eqI surj_pair)
  then show ?thesis
    using assms iter_sorted [of m] iter_sorted [of n]
    by (intro map_sorted_distinct_set_unique [where f = fst])
      (auto simp: strict_sorted_iff distinct_map)
qed

end

lemma sm_insert_keys: "set (map fst (sm_insert k v m)) = insert k (set (map fst m))"
  by (induction m) auto

lemma sm_insert_sorted: "sm_sorted m \<Longrightarrow> sm_sorted (sm_insert k v m)"
proof (induction m)
  case Nil
  then show ?case by (simp add: sm_sorted_def)
next
  case (Cons p m)
  have "set (map fst (sm_insert k v m)) = insert k (set (map fst m))"
    by (rule sm_insert_keys)
  with Cons show ?case
    by (auto simp: sm_sorted_def)
qed

lemma sm_insert_get: "sm_sorted m \<Longrightarrow> sm_get (sm_insert k v m) = (sm_get m)(k \<mapsto> v)"
  by (induction m) (auto simp: sm_get_def sm_sorted_def fun_eq_iff)

lemma sm_remove_sorted: "sm_sorted m \<Longrightarrow> sm_sorted (sm_remove k m)"
  by (induction m) (auto simp: sm_sorted_def sm_remove_def)

lemma sm_remove_get: "sm_get (sm_remove k m) = (sm_get m)(k := None)"
  by (induction m) (auto simp: sm_get_def sm_remove_def fun_eq_iff)

interpretation sm: ordered_map "[]" sm_insert sm_get sm_remove "\<lambda>m. m" sm_sorted
  by unfold_locales
    (auto simp: sm_insert_sorted sm_remove_sorted sm_insert_get sm_remove_get,
      simp_all add: sm_sorted_def sm_get_def fun_eq_iff)

lemmas [skipmap] = sm.inv_empty sm.inv_ins sm.inv_remove sm.get_ins sm.get_remove
  sm.inv_fold sm.get_fold

text \<open>Inserting the bindings of a map in iteration order into an empty map rebuilds it.\<close>

lemma sm_rebuild:
  assumes "sm_sorted m"
  shows "fold (\<lambda>(k, v). sm_insert k v) m [] = m"
proof (rule sm.iter_unique)
  show "sm_sorted (fold (\<lambda>(k, v). sm_insert k v) m [])"
    by (rule sm.inv_fold [OF sm.inv_empty])
  have "map_of (rev m) = map_of m"
    using sm.iter_distinct [OF assms] by (subst map_of_inject_set) (simp_all flip: rev_map)
  then show "sm_get (fold (\<lambda>(k, v). sm_insert k v) m []) = sm_get m"
    by (simp add: sm.get_fold [OF sm.inv_empty] sm_get_def map_add_def fun_eq_iff split: option.split)
qed (rule assms)

lemma sm_get_Nil [simp]: "sm_get [] k = None"
  by (simp add: sm_get_def)

lemma sm_get_in_set: "sm_get m k = Some v \<Longrightarrow> (k, v) \<in> set m"
  by (simp add: sm_get_def map_of_SomeD)

end
