(* ===== verification/Velarix_Base.thy ===== *)
theory Velarix_Base
  imports Velarix_Prelude
begin

text \<open>
  The modules every component uses: the error type (\<^verbatim>\<open>src/err/mod.rs\<close>), the constants
  (\<^verbatim>\<open>src/consts/mod.rs\<close>), the size units of \<^verbatim>\<open>src/db/store.rs\<close>, the time and float helpers
  (\<^verbatim>\<open>src/util/mod.rs\<close>), the \<^verbatim>\<open>load_buffer!\<close> macro (\<^verbatim>\<open>src/macro/mod.rs\<close>) and the file
  operations \<^verbatim>\<open>FileAsync\<close> of \<^verbatim>\<open>src/fs/mod.rs\<close> over a file system.

  What the code takes from outside the repository is the record \<open>platform\<close>: the hash function,
  the largest number of bytes one \<^verbatim>\<open>File::read\<close> returns, the largest second \<^verbatim>\<open>chrono\<close> represents,
  and the \<^verbatim>\<open>f64\<close> operations. Every definition that depends on one of them takes it as an argument.
\<close>

section \<open>Errors\<close>

type_synonym io_error = string

datatype (plugins only: code) error =
    FileSync io_error
  | FileCreation path io_error
  | FileSeek io_error
  | DirDelete io_error
  | FilterFilePathNotProvided
  | FilterFileOpen path
  | FileDelete io_error
  | FileOpen path io_error
  | GetFileMetaData io_error
  | TryFilePathExist io_error
  | DirCreation path io_error
  | FileClear path io_error
  | FileRead path io_error
  | FileWrite path io_error
  | DirOpen path io_error
  | UnexpectedEOF io_error
  | GCErrorAttemptToRemoveUnsyncedEntries
  | ConditionsToInsertToBucketNotMet
  | FlushToDisk error
  | InsertToMemTableFailed string nat
  | MemTableRecovery error
  | InvaidUUIDParseString string string
  | InvalidSSTableDirectory string
  | CompactionFailed error
  | CompactionPartiallyFailed error
  | KeyNotFoundInAnySSTable
  | KeyFoundAsTombstoneInSSTable
  | KeyFoundAsTombstoneInMemtable
  | KeyFoundAsTombstoneInValueLog
  | KeyNotFoundInMemTable
  | KeyNotFoundInValueLog
  | KeyNotFound error
  | NotFoundInDB
  | TombStoneCheckFailed string
  | BlockIsFull
  | FilterNotProvidedForFlush
  | KeyMaxSizeExceeded
  | KeySizeNone
  | ValueSizeNone
  | ValMaxSizeExceeded
  | FilterNotFound
  | BiggestKeyIndex
  | LowestKeyIndex
  | TableSummaryIsNone
  | KeyNotFoundByAnyBloomFilter
  | FailedToInsertToBucket string
  | GCErrorFailedToPunchHoleInVlogFile io_error
  | GCErrorUnsupportedPlatform string
  | RangeScan error
  | FlushSignalChannelOverflow
  | GCUpdateChannelOverflow
  | FlushSignalChannelClosed
  | Serialization string
  | CompactionCleanupPartial
  | CompactionCleanup error
  | CannotRemoveObsoleteSST
  | MergeSSTContainsZeroEntries
  | TokioJoin
  | EntriesCannotBeEmptyDuringFlush

type_synonym 'a res = "('a, error) result"

section \<open>Constants and type aliases\<close>

type_synonym Key = bytes
type_synonym Value = bytes
type_synonym ValOffset = nat

named_theorems constants \<open>the constants of the source\<close>

definition KB :: nat where [constants]: "KB = 1024"
definition MAX_KEY_SIZE :: nat where [constants]: "MAX_KEY_SIZE = 65536"
definition MAX_KEY_SPACE_SIZE :: nat where [constants]: "MAX_KEY_SPACE_SIZE = 255"
definition MAX_VALUE_SIZE :: nat where [constants]: "MAX_VALUE_SIZE = 2 ^ 32"
definition DEFAULT_MAX_WRITE_BUFFER_NUMBER :: nat where
  [constants]: "DEFAULT_MAX_WRITE_BUFFER_NUMBER = 2"
definition MIN_TRESHOLD :: nat where [constants]: "MIN_TRESHOLD = 4"
definition MAX_TRESHOLD :: nat where [constants]: "MAX_TRESHOLD = 32"
definition HEAD_KEY_SIZE :: nat where [constants]: "HEAD_KEY_SIZE = 4"
definition SIZE_OF_USIZE :: nat where [constants]: "SIZE_OF_USIZE = 8"
definition SIZE_OF_U32 :: nat where [constants]: "SIZE_OF_U32 = 4"
definition SIZE_OF_U64 :: nat where [constants]: "SIZE_OF_U64 = 8"
definition SIZE_OF_U8 :: nat where [constants]: "SIZE_OF_U8 = 1"
definition BLOCK_SIZE :: nat where [constants]: "BLOCK_SIZE = 4 * 1024"
definition VLOG_START_OFFSET :: nat where [constants]: "VLOG_START_OFFSET = 0"

definition TOMB_STONE_MARKER :: bytes where
  [constants]: "TOMB_STONE_MARKER = [42]" \<comment> \<open>\<^verbatim>\<open>"*"\<close>\<close>
definition HEAD_ENTRY_KEY :: bytes where
  [constants]: "HEAD_ENTRY_KEY = [104, 101, 97, 100]" \<comment> \<open>\<^verbatim>\<open>b"head"\<close>\<close>
definition TAIL_ENTRY_KEY :: bytes where
  [constants]: "TAIL_ENTRY_KEY = [116, 97, 105, 108]" \<comment> \<open>\<^verbatim>\<open>b"tail"\<close>\<close>
definition HEAD_ENTRY_VALUE :: bytes where
  [constants]: "HEAD_ENTRY_VALUE = [104, 101, 97, 100]"
definition TAIL_ENTRY_VALUE :: bytes where
  [constants]: "TAIL_ENTRY_VALUE = [116, 97, 105, 108]"

definition VALUE_LOG_DIRECTORY_NAME :: string where "VALUE_LOG_DIRECTORY_NAME = ''v_log''"
definition BUCKETS_DIRECTORY_NAME :: string where "BUCKETS_DIRECTORY_NAME = ''buckets''"
definition BUCKET_DIRECTORY_PREFIX :: string where "BUCKET_DIRECTORY_PREFIX = ''bucket''"
definition META_DIRECTORY_NAME :: string where "META_DIRECTORY_NAME = ''meta''"
definition VLOG_FILE_NAME :: string where "VLOG_FILE_NAME = ''val_log.bin''"
definition FILTER_FILE :: string where "FILTER_FILE = ''filter.db''"
definition DATA_FILE :: string where "DATA_FILE = ''data.db''"
definition SUMMARY_FILE :: string where "SUMMARY_FILE = ''summary.db''"
definition INDEX_FILE :: string where "INDEX_FILE = ''index.db''"
definition META_FILE :: string where "META_FILE = ''meta.bin''"
definition EOF :: string where "EOF = ''EOF''"

datatype SizeUnit = Bytes | Kilobytes | Megabytes | Gigabytes

fun as_bytes :: "SizeUnit \<Rightarrow> nat \<Rightarrow> nat" where
  "as_bytes Bytes v = v"
| "as_bytes Kilobytes v = v * KB"
| "as_bytes Megabytes v = v * KB * KB"
| "as_bytes Gigabytes v = v * KB * KB * KB"

definition GC_CHUNK_SIZE :: nat where [constants]: "GC_CHUNK_SIZE = as_bytes Kilobytes 1"
definition WRITE_BUFFER_SIZE :: nat where [constants]: "WRITE_BUFFER_SIZE = as_bytes Kilobytes 50"
definition MIN_SSTABLE_SIZE :: nat where [constants]: "MIN_SSTABLE_SIZE = as_bytes Kilobytes 4"

section \<open>The platform\<close>

text \<open>An \<^verbatim>\<open>f64\<close> is its bit pattern.\<close>

type_synonym f64 = u64

record platform =
  hash_of :: "bytes \<Rightarrow> nat \<Rightarrow> u64" \<comment> \<open>\<^verbatim>\<open>DefaultHasher\<close> on a key followed by a seed\<close>
  max_read :: nat \<comment> \<open>most bytes one \<^verbatim>\<open>tokio::fs::File::read\<close> returns\<close>
  max_secs :: int \<comment> \<open>last second \<^verbatim>\<open>chrono\<close> represents\<close>
  f64_of_nat :: "nat \<Rightarrow> f64"
  f64_mul :: "f64 \<Rightarrow> f64 \<Rightarrow> f64"
  f64_div :: "f64 \<Rightarrow> f64 \<Rightarrow> f64"
  f64_neg :: "f64 \<Rightarrow> f64"
  f64_ln :: "f64 \<Rightarrow> f64"
  f64_powi :: "f64 \<Rightarrow> int \<Rightarrow> f64"
  f64_ceil :: "f64 \<Rightarrow> f64"
  f64_to_u32 :: "f64 \<Rightarrow> u32" \<comment> \<open>\<^verbatim>\<open>as u32\<close>, saturating\<close>
  f64_ge :: "f64 \<Rightarrow> f64 \<Rightarrow> bool"

section \<open>Times and floats\<close>

text \<open>A \<^verbatim>\<open>DateTime<Utc>\<close> is its number of nanoseconds since the epoch.\<close>

type_synonym datetime = int

definition timestamp_millis :: "datetime \<Rightarrow> int" where
  "timestamp_millis t = t div 1000000"

definition milliseconds_to_datetime :: "platform \<Rightarrow> u64 \<Rightarrow> datetime res" where
  "milliseconds_to_datetime P milliseconds =
     (let seconds = int (unat milliseconds div 1000);
          nanoseconds = int ((unat milliseconds mod 1000) * 1000000)
      in if seconds \<le> max_secs P then Ok (seconds * 1000000000 + nanoseconds) else Panic)"

definition default_datetime :: datetime where
  "default_datetime = 0"

definition float_to_le_bytes :: "f64 \<Rightarrow> bytes" where
  "float_to_le_bytes f = u64_to_le_bytes f"

definition float_from_le_bytes :: "bytes \<Rightarrow> f64 option" where
  "float_from_le_bytes bs = (if length bs \<noteq> 8 then None else Some (u64_from_le_bytes bs))"

text \<open>A time \<open>t\<close> that both the 64-bit millisecond field and \<^verbatim>\<open>chrono\<close> represent.\<close>

definition wf_time :: "platform \<Rightarrow> datetime \<Rightarrow> bool" where
  "wf_time P t \<longleftrightarrow> 0 \<le> t \<and> timestamp_millis t < 2 ^ 63 \<and> t div 1000000000 \<le> max_secs P"

text \<open>What is left of a time after it went through a file.\<close>

definition truncate_millis :: "datetime \<Rightarrow> datetime" where
  "truncate_millis t = timestamp_millis t * 1000000"

text \<open>\<^verbatim>\<open>created_at.timestamp_millis().to_le_bytes()\<close>, an \<^verbatim>\<open>i64\<close>.\<close>

definition millis_to_le_bytes :: "datetime \<Rightarrow> bytes" where
  "millis_to_le_bytes t = u64_to_le_bytes (word_of_int (timestamp_millis t))"

lemma length_millis_to_le_bytes [simp]: "length (millis_to_le_bytes t) = 8"
  by (simp add: millis_to_le_bytes_def u64.length_enc)

lemma milliseconds_to_datetime_millis [codec]:
  assumes "wf_time P t"
  shows "milliseconds_to_datetime P (word_of_int (timestamp_millis t)) = Ok (truncate_millis t)"
proof -
  let ?m = "timestamp_millis t"
  have m: "0 \<le> ?m" "?m < 2 ^ 63" "t div 1000000000 \<le> max_secs P"
    using assms by (auto simp: wf_time_def timestamp_millis_def)
  have "?m < 2 ^ LENGTH(64)" using m(2) by simp
  then have n: "unat (word_of_int ?m :: u64) = nat ?m"
    using m(1) by (simp add: unat_eq_nat_uint uint_word_of_int_eq take_bit_int_eq_self)
  have s: "int (nat ?m div 1000) = t div 1000000000"
    using m(1) by (simp add: timestamp_millis_def zdiv_int flip: zdiv_zmult2_eq)
  have r: "int (nat ?m mod 1000) = ?m mod 1000"
    using m(1) by (simp add: zmod_int)
  have "t div 1000000000 = ?m div 1000"
    by (simp add: timestamp_millis_def flip: zdiv_zmult2_eq)
  then have "t div 1000000000 * 1000000000 + ?m mod 1000 * 1000000 = ?m * 1000000"
    using div_mult_mod_eq [of ?m 1000] by linarith
  then show ?thesis
    using m(3)
    by (simp only: milliseconds_to_datetime_def n truncate_millis_def Let_def s if_True
        of_nat_mult r of_nat_numeral)
qed

lemma timestamp_truncate [simp]: "timestamp_millis (truncate_millis t) = timestamp_millis t"
  by (simp add: timestamp_millis_def truncate_millis_def)

lemma truncate_le: "truncate_millis t \<le> t"
  unfolding truncate_millis_def timestamp_millis_def
  by (simp add: minus_mod_eq_div_mult [symmetric])

lemma truncate_mono: "s \<le> t \<Longrightarrow> truncate_millis s \<le> truncate_millis t"
  by (simp add: truncate_millis_def timestamp_millis_def zdiv_mono1)

lemma float_roundtrip: "float_from_le_bytes (float_to_le_bytes f) = Some f"
  by (simp add: float_from_le_bytes_def float_to_le_bytes_def codec)

section \<open>Reading\<close>

text \<open>
  \<^verbatim>\<open>load_buffer!(file, &mut buf, path)\<close> with a zeroed buffer of \<open>n\<close> bytes: one \<^verbatim>\<open>read\<close>, which may
  return fewer bytes than the buffer holds. \<open>rest\<close> is the file from its cursor on; the result is
  the buffer, the number of bytes read and the file from the new cursor on.
\<close>

definition load_buffer :: "platform \<Rightarrow> nat \<Rightarrow> bytes \<Rightarrow> bytes \<times> nat \<times> bytes" where
  "load_buffer P n rest =
     (let k = min n (min (max_read P) (length rest))
      in (take k rest @ replicate (n - k) 0, k, drop k rest))"

definition unexpected_eof :: error where
  "unexpected_eof = UnexpectedEOF EOF"

text \<open>
  The step that follows all but the first read of a record:
  \<^verbatim>\<open>if bytes_read == 0 { return Err(FileNode::unexpected_eof()) }\<close>.
\<close>

definition load_field :: "platform \<Rightarrow> nat \<Rightarrow> bytes \<Rightarrow> (bytes \<times> nat \<times> bytes) res" where
  "load_field P n rest =
     (let (buf, bytes_read, rest') = load_buffer P n rest
      in if bytes_read = 0 then Err unexpected_eof else Ok (buf, bytes_read, rest'))"

lemma load_buffer_append [codec]:
  "length xs = n \<Longrightarrow> n \<le> max_read P \<Longrightarrow> load_buffer P n (xs @ rest) = (xs, n, rest)"
  by (simp add: load_buffer_def)

lemma load_buffer_Nil [simp]: "load_buffer P n [] = (replicate n 0, 0, [])"
  by (simp add: load_buffer_def)

lemma load_field_append [codec]:
  "length xs = n \<Longrightarrow> n \<le> max_read P \<Longrightarrow> 0 < n \<Longrightarrow> load_field P n (xs @ rest) = Ok (xs, n, rest)"
  by (simp add: load_field_def load_buffer_append)

lemma load_field_empty: "load_field P 0 rest = Err unexpected_eof"
  by (simp add: load_field_def load_buffer_def)

lemma load_buffer_shrinks:
  "load_buffer P n rest = (buf, k, rest') \<Longrightarrow> length rest' = length rest - k \<and> k \<le> length rest
     \<and> length buf = n"
  by (auto simp: load_buffer_def Let_def)

lemma load_field_shrinks:
  "load_field P n rest = Ok (buf, k, rest') \<Longrightarrow>
     length rest' = length rest - k \<and> 0 < k \<and> k \<le> length rest \<and> length buf = n"
  using load_buffer_shrinks [of P n rest]
  by (auto simp: load_field_def split: prod.splits if_splits)

section \<open>The file system\<close>

text \<open>
  Regular files with their contents, and the directories. Every open handle is in append mode
  (\<^verbatim>\<open>OpenOptions::new().read(true).append(true).create(true)\<close>), so a write goes to the end.
\<close>

record filesys =
  files :: "path \<Rightarrow> bytes option"
  dirs :: "path \<Rightarrow> bool"

definition file_create :: "filesys \<Rightarrow> path \<Rightarrow> filesys res" where
  "file_create fs p =
     (if \<not> dirs fs (butlast p) then Err (FileCreation p ''NotFound'')
      else Ok (if files fs p = None then fs\<lparr>files := (files fs)(p \<mapsto> [])\<rparr> else fs))"

definition create_dir_all :: "filesys \<Rightarrow> path \<Rightarrow> filesys" where
  "create_dir_all fs d =
     (if dirs fs d then fs
      else fs\<lparr>dirs := (\<lambda>p. dirs fs p \<or> (\<exists>n \<in> {0..length d}. p = take n d))\<rparr>)"

definition file_open :: "filesys \<Rightarrow> path \<Rightarrow> bytes res" where
  "file_open fs p =
     (case files fs p of None \<Rightarrow> Err (FileOpen p ''NotFound'') | Some bs \<Rightarrow> Ok bs)"

definition file_write_all :: "filesys \<Rightarrow> path \<Rightarrow> bytes \<Rightarrow> filesys res" where
  "file_write_all fs p buf =
     (case files fs p of None \<Rightarrow> Err (FileWrite p ''NotFound'')
      | Some bs \<Rightarrow> Ok (fs\<lparr>files := (files fs)(p \<mapsto> bs @ buf)\<rparr>))"

definition file_clear :: "filesys \<Rightarrow> path \<Rightarrow> filesys res" where
  "file_clear fs p =
     (case files fs p of None \<Rightarrow> Err (FileClear p ''NotFound'')
      | Some bs \<Rightarrow> Ok (fs\<lparr>files := (files fs)(p \<mapsto> [])\<rparr>))"

text \<open>\<^verbatim>\<open>self.metadata().await.unwrap().len()\<close>.\<close>

definition file_size :: "filesys \<Rightarrow> path \<Rightarrow> nat res" where
  "file_size fs p = and_then (unwrap (files fs p)) (\<lambda>bs. Ok (length bs))"

definition under :: "path \<Rightarrow> path \<Rightarrow> bool" where
  "under d p \<longleftrightarrow> take (length d) p = d"

definition remove_dir_all :: "filesys \<Rightarrow> path \<Rightarrow> filesys res" where
  "remove_dir_all fs d =
     (if \<not> dirs fs d then Err (DirDelete ''NotFound'')
      else Ok (fs\<lparr>files := (\<lambda>p. if under d p then None else files fs p),
                  dirs := (\<lambda>p. dirs fs p \<and> \<not> under d p)\<rparr>))"

lemma file_write_all_files:
  "file_write_all fs p buf = Ok fs' \<Longrightarrow> files fs' q =
     (if q = p then map_option (\<lambda>bs. bs @ buf) (files fs p) else files fs q)"
  by (auto simp: file_write_all_def split: option.splits)

lemma file_write_all_dirs: "file_write_all fs p buf = Ok fs' \<Longrightarrow> dirs fs' = dirs fs"
  by (auto simp: file_write_all_def split: option.splits)

lemma file_create_files:
  "file_create fs p = Ok fs' \<Longrightarrow> files fs' q =
     (if q = p \<and> files fs p = None then Some [] else files fs q)"
  by (auto simp: file_create_def split: if_splits)

lemma file_create_dirs: "file_create fs p = Ok fs' \<Longrightarrow> dirs fs' = dirs fs"
  by (auto simp: file_create_def split: if_splits)

lemma create_dir_all_files [simp]: "files (create_dir_all fs d) = files fs"
  by (simp add: create_dir_all_def)

lemma create_dir_all_dir [simp]: "dirs (create_dir_all fs d) d"
  by (auto simp: create_dir_all_def intro: bexI [of _ "length d"])

text \<open>The file system with one file's contents set.\<close>

definition with_file :: "filesys \<Rightarrow> path \<Rightarrow> bytes \<Rightarrow> filesys" where
  "with_file fs p bs = fs\<lparr>files := (files fs)(p \<mapsto> bs)\<rparr>"

lemma with_file_simps [simp]:
  "files (with_file fs p bs) = (files fs)(p \<mapsto> bs)"
  "dirs (with_file fs p bs) = dirs fs"
  "with_file (with_file fs p bs) p bs' = with_file fs p bs'"
  by (simp_all add: with_file_def)

lemma with_file_same: "files fs p = Some bs \<Longrightarrow> with_file fs p bs = fs"
  by (simp add: with_file_def fun_upd_idem)

lemma file_write_all_with: "files fs p = Some bs \<Longrightarrow> file_write_all fs p buf = Ok (with_file fs p (bs @ buf))"
  by (simp add: file_write_all_def with_file_def)

lemma file_create_new:
  "files fs p = None \<Longrightarrow> dirs fs (butlast p) \<Longrightarrow> file_create fs p = Ok (with_file fs p [])"
  by (simp add: file_create_def with_file_def)

lemma file_create_old: "files fs p = Some bs \<Longrightarrow> dirs fs (butlast p) \<Longrightarrow> file_create fs p = Ok fs"
  by (simp add: file_create_def)

section \<open>A sample platform and file system\<close>

text \<open>
  A platform whose floating point numbers are the naturals of their bit patterns, and a file
  system with the directories \<^verbatim>\<open>t\<close> and the root, for examples.
\<close>

definition sample_platform :: platform where
  "sample_platform =
     \<lparr>hash_of = (\<lambda>key seed. word_of_nat (sum_list (map unat key) + 3 * seed)),
      max_read = 65536, max_secs = 8210266876799, f64_of_nat = word_of_nat,
      f64_mul = (*), f64_div = (\<lambda>a b. word_of_nat (unat a div unat b)), f64_neg = (\<lambda>a. a),
      f64_ln = (\<lambda>a. a), f64_powi = (\<lambda>a n. a), f64_ceil = (\<lambda>a. a),
      f64_to_u32 = (\<lambda>a. word_of_nat (unat a)), f64_ge = (\<lambda>a b. b \<le> a)\<rparr>"

definition sample_fs :: filesys where
  "sample_fs = \<lparr>files = (\<lambda>_. None), dirs = (\<lambda>d. d = [] \<or> d = [''t''])\<rparr>"

end
