(* ===== verification/File_Nodes.thy ===== *)
theory File_Nodes
  imports Velarix_Base
begin

text \<open>
  The file formats of \<^verbatim>\<open>src/fs/mod.rs\<close>: the readers \<^verbatim>\<open>DataFs\<close>, \<^verbatim>\<open>VLogFs\<close>, \<^verbatim>\<open>IndexFs\<close>,
  \<^verbatim>\<open>FilterFs\<close>, \<^verbatim>\<open>MetaFs\<close> and \<^verbatim>\<open>SummaryFs\<close>, each over the bytes of its file. A reader that loops is
  written over the loop of its file type (\<open>data_loop\<close>, \<open>vlog_loop\<close>, \<open>index_loop\<close>), which reads one
  record per turn and hands it to the body of the loop.

  The locale \<open>record_stream\<close> is the contract of a record format with its loop: reading back what
  was written gives the record, so the loop over a written file is the loop over its records. It
  is interpreted by the three record formats.
\<close>

section \<open>The values the readers build\<close>

text \<open>\<^verbatim>\<open>SkipMapValue<ValOffset>\<close> and \<^verbatim>\<open>Entry<Key, ValOffset>\<close> of \<^verbatim>\<open>src/memtable/mem.rs\<close>.\<close>

record SkipMapValue =
  sv_offset :: ValOffset
  sv_created_at :: datetime
  sv_is_tombstone :: bool

record Entry =
  e_key :: Key
  e_offset :: ValOffset
  e_created_at :: datetime
  e_is_tombstone :: bool

definition sample_value :: "nat \<Rightarrow> SkipMapValue" where
  "sample_value n = \<lparr>sv_offset = n, sv_created_at = 1000000 * int n, sv_is_tombstone = False\<rparr>"

type_synonym entries = "(Key, SkipMapValue) skipmap"

text \<open>\<^verbatim>\<open>ValueLogEntry\<close> of \<^verbatim>\<open>src/vlog/v_log.rs\<close>.\<close>

record ValueLogEntry =
  vle_ksize :: nat
  vle_vsize :: nat
  vle_key :: Key
  vle_value :: Value
  vle_created_at :: datetime
  vle_is_tombstone :: bool

text \<open>\<^verbatim>\<open>RangeOffset\<close> of \<^verbatim>\<open>src/index/indexer.rs\<close>.\<close>

record RangeOffset =
  start_offset :: u32
  end_offset :: u32

section \<open>Data files\<close>

lemma load_buffer_less:
  "load_buffer P n rest = (buf, k, rest') \<Longrightarrow> 0 < k \<longrightarrow> length rest' < length rest"
  by (auto dest!: load_buffer_shrinks)

lemma load_field_less: "load_field P n rest = Ok (buf, k, rest') \<Longrightarrow> length rest' < length rest"
  by (auto dest!: load_field_shrinks)

text \<open>One record: key, value offset, creation time in milliseconds, tombstone flag.\<close>

type_synonym data_record = "Key \<times> u32 \<times> u64 \<times> bool"

definition read_data_record :: "platform \<Rightarrow> bytes \<Rightarrow> (data_record \<times> nat \<times> bytes) option res" where
  "read_data_record P rest =
     (let (key_len_bytes, n0, r0) = load_buffer P SIZE_OF_U32 rest
      in if n0 = 0 then Ok None
         else and_then (load_field P (unat (u32_from_le_bytes key_len_bytes)) r0) (\<lambda>(key, n1, r1).
              and_then (load_field P SIZE_OF_U32 r1) (\<lambda>(val_offset_bytes, n2, r2).
              and_then (load_field P SIZE_OF_U64 r2) (\<lambda>(created_at_bytes, n3, r3).
              and_then (load_field P SIZE_OF_U8 r3) (\<lambda>(is_tombstone_byte, n4, r4).
                Ok (Some ((key, u32_from_le_bytes val_offset_bytes,
                           u64_from_le_bytes created_at_bytes, bool_from_byte is_tombstone_byte),
                          n0 + n1 + n2 + n3 + n4, r4)))))))"

lemma read_data_record_shrinks:
  "read_data_record P rest = Ok (Some (e, n, rest')) \<Longrightarrow> length rest' < length rest"
  by (auto simp: read_data_record_def split: prod.splits if_splits dest!: load_buffer_less load_field_less)

function (sequential) data_loop ::
  "platform \<Rightarrow> (data_record \<Rightarrow> nat \<Rightarrow> 's \<Rightarrow> ('s, 'r) flow res) \<Rightarrow> ('s \<Rightarrow> 'r) \<Rightarrow> 's \<Rightarrow> bytes \<Rightarrow> 'r res"
where
  "data_loop P step fin s rest =
     and_then (read_data_record P rest) (\<lambda>m. case m of
         None \<Rightarrow> Ok (fin s)
       | Some (e, n, rest') \<Rightarrow> and_then (step e n s) (\<lambda>fl. case fl of
           Continue s' \<Rightarrow> data_loop P step fin s' rest'
         | Return r \<Rightarrow> Ok r))"
  by pat_completeness auto
termination
  by (relation "measure (\<lambda>(P, step, fin, s, rest). length rest)")
    (auto dest: read_data_record_shrinks)

declare data_loop.simps [simp del]

definition load_entries :: "platform \<Rightarrow> bytes \<Rightarrow> (entries \<times> nat) res" where
  "load_entries P file =
     data_loop P
       (\<lambda>(key, value_offset, created_at, is_tombstone) bytes_read (entries, total_bytes_read).
          and_then (milliseconds_to_datetime P created_at) (\<lambda>t.
            Ok (Continue
              (sm_insert key
                 \<lparr>sv_offset = unat value_offset, sv_created_at = t, sv_is_tombstone = is_tombstone\<rparr>
                 entries,
               total_bytes_read + bytes_read))))
       (\<lambda>s. s) ([], 0) file"

definition find_entry ::
  "platform \<Rightarrow> bytes \<Rightarrow> u32 \<Rightarrow> Key \<Rightarrow> (ValOffset \<times> datetime \<times> bool) option res" where
  "find_entry P file offset searched_key =
     data_loop P
       (\<lambda>(key, value_offset, created_at, is_tombstone) bytes_read s.
          if key = searched_key
          then and_then (milliseconds_to_datetime P created_at) (\<lambda>t.
                 Ok (Return (Some (unat value_offset, t, is_tombstone))))
          else Ok (Continue s))
       (\<lambda>s. None) () (drop (unat offset) file)"

definition load_entries_within_range :: "platform \<Rightarrow> bytes \<Rightarrow> RangeOffset \<Rightarrow> Entry list res" where
  "load_entries_within_range P file range_offset =
     data_loop P
       (\<lambda>(key, value_offset, created_at, is_tombstone) bytes_read (entries, total_bytes_read).
          and_then (milliseconds_to_datetime P created_at) (\<lambda>t.
            let entries' = entries @ [\<lparr>e_key = key, e_offset = unat value_offset,
                  e_created_at = t, e_is_tombstone = is_tombstone\<rparr>];
                total = total_bytes_read + bytes_read
            in Ok (if end_offset range_offset \<le> (word_of_nat total :: u32)
                   then Return entries' else Continue (entries', total))))
       (\<lambda>(entries, total). entries) ([], 0) (drop (unat (start_offset range_offset)) file)"

section \<open>Value log files\<close>

text \<open>One record: key, value, creation time in milliseconds, tombstone flag.\<close>

type_synonym vlog_record = "Key \<times> Value \<times> u64 \<times> bool"

definition read_vlog_record :: "platform \<Rightarrow> bytes \<Rightarrow> (vlog_record \<times> nat \<times> bytes) option res" where
  "read_vlog_record P rest =
     (let (key_len_bytes, n0, r0) = load_buffer P SIZE_OF_U32 rest
      in if n0 = 0 then Ok None
         else and_then (load_field P SIZE_OF_U32 r0) (\<lambda>(val_len_bytes, n1, r1).
              and_then (load_field P SIZE_OF_U64 r1) (\<lambda>(creation_date_bytes, n2, r2).
              and_then (load_field P SIZE_OF_U8 r2) (\<lambda>(istombstone_bytes, n3, r3).
              and_then (load_field P (unat (u32_from_le_bytes key_len_bytes)) r3) (\<lambda>(key, n4, r4).
              and_then (load_field P (unat (u32_from_le_bytes val_len_bytes)) r4) (\<lambda>(value, n5, r5).
                Ok (Some ((key, value, u64_from_le_bytes creation_date_bytes,
                           bool_from_byte istombstone_bytes),
                          n0 + n1 + n2 + n3 + n4 + n5, r5))))))))"

lemma read_vlog_record_shrinks:
  "read_vlog_record P rest = Ok (Some (e, n, rest')) \<Longrightarrow> length rest' < length rest"
  by (auto simp: read_vlog_record_def split: prod.splits if_splits dest!: load_buffer_less load_field_less)

function (sequential) vlog_loop ::
  "platform \<Rightarrow> (vlog_record \<Rightarrow> nat \<Rightarrow> 's \<Rightarrow> ('s, 'r) flow res) \<Rightarrow> ('s \<Rightarrow> 'r) \<Rightarrow> 's \<Rightarrow> bytes \<Rightarrow> 'r res"
where
  "vlog_loop P step fin s rest =
     and_then (read_vlog_record P rest) (\<lambda>m. case m of
         None \<Rightarrow> Ok (fin s)
       | Some (e, n, rest') \<Rightarrow> and_then (step e n s) (\<lambda>fl. case fl of
           Continue s' \<Rightarrow> vlog_loop P step fin s' rest'
         | Return r \<Rightarrow> Ok r))"
  by pat_completeness auto
termination
  by (relation "measure (\<lambda>(P, step, fin, s, rest). length rest)")
    (auto dest: read_vlog_record_shrinks)

declare vlog_loop.simps [simp del]

definition vlog_file_get :: "platform \<Rightarrow> bytes \<Rightarrow> nat \<Rightarrow> (Value \<times> bool) option res" where
  "vlog_file_get P file start =
     and_then (read_vlog_record P (drop start file)) (\<lambda>m. case m of
         None \<Rightarrow> Ok None
       | Some ((key, value, created_at, is_tombstone), n, rest) \<Rightarrow> Ok (Some (value, is_tombstone)))"

definition vlog_entry_of_record :: "platform \<Rightarrow> vlog_record \<Rightarrow> ValueLogEntry res" where
  "vlog_entry_of_record P r =
     (case r of (key, value, created_at, is_tombstone) \<Rightarrow>
        and_then (milliseconds_to_datetime P created_at) (\<lambda>t.
          Ok \<lparr>vle_ksize = length key, vle_vsize = length value, vle_key = key, vle_value = value,
              vle_created_at = t, vle_is_tombstone = is_tombstone\<rparr>))"

definition vlog_file_recover :: "platform \<Rightarrow> bytes \<Rightarrow> nat \<Rightarrow> ValueLogEntry list res" where
  "vlog_file_recover P file start =
     vlog_loop P
       (\<lambda>r n entries. and_then (vlog_entry_of_record P r) (\<lambda>e. Ok (Continue (entries @ [e]))))
       (\<lambda>entries. entries) [] (drop start file)"

definition vlog_file_read_chunk ::
  "platform \<Rightarrow> bytes \<Rightarrow> nat \<Rightarrow> nat \<Rightarrow> (ValueLogEntry list \<times> nat) res" where
  "vlog_file_read_chunk P file bytes_to_collect offset =
     vlog_loop P
       (\<lambda>r n (entries, total_bytes_read). and_then (vlog_entry_of_record P r) (\<lambda>e.
          let entries' = entries @ [e]; total = total_bytes_read + n
          in Ok (if bytes_to_collect \<le> total then Return (entries', total)
                 else Continue (entries', total))))
       (\<lambda>s. s) ([], 0) (drop offset file)"

section \<open>Index files\<close>

text \<open>One record: the last key of a block and the block's offset in the data file.\<close>

type_synonym index_record = "Key \<times> u32"

definition read_index_record :: "platform \<Rightarrow> bytes \<Rightarrow> (index_record \<times> nat \<times> bytes) option res" where
  "read_index_record P rest =
     (let (key_len_bytes, n0, r0) = load_buffer P SIZE_OF_U32 rest
      in if n0 = 0 then Ok None
         else and_then (load_field P (unat (u32_from_le_bytes key_len_bytes)) r0) (\<lambda>(key, n1, r1).
              and_then (load_field P SIZE_OF_U32 r1) (\<lambda>(key_offset_bytes, n2, r2).
                Ok (Some ((key, u32_from_le_bytes key_offset_bytes), n0 + n1 + n2, r2)))))"

lemma read_index_record_shrinks:
  "read_index_record P rest = Ok (Some (e, n, rest')) \<Longrightarrow> length rest' < length rest"
  by (auto simp: read_index_record_def split: prod.splits if_splits dest!: load_buffer_less load_field_less)

function (sequential) index_loop ::
  "platform \<Rightarrow> (index_record \<Rightarrow> nat \<Rightarrow> 's \<Rightarrow> ('s, 'r) flow res) \<Rightarrow> ('s \<Rightarrow> 'r) \<Rightarrow> 's \<Rightarrow> bytes \<Rightarrow> 'r res"
where
  "index_loop P step fin s rest =
     and_then (read_index_record P rest) (\<lambda>m. case m of
         None \<Rightarrow> Ok (fin s)
       | Some (e, n, rest') \<Rightarrow> and_then (step e n s) (\<lambda>fl. case fl of
           Continue s' \<Rightarrow> index_loop P step fin s' rest'
         | Return r \<Rightarrow> Ok r))"
  by pat_completeness auto
termination
  by (relation "measure (\<lambda>(P, step, fin, s, rest). length rest)")
    (auto dest: read_index_record_shrinks)

declare index_loop.simps [simp del]

definition get_from_index :: "platform \<Rightarrow> bytes \<Rightarrow> Key \<Rightarrow> u32 option res" where
  "get_from_index P file searched_key =
     index_loop P
       (\<lambda>(key, offset) n s.
          if key < searched_key then Ok (Continue s) else Ok (Return (Some offset)))
       (\<lambda>s. None) () file"

definition get_block_range :: "platform \<Rightarrow> bytes \<Rightarrow> Key \<Rightarrow> Key \<Rightarrow> RangeOffset res" where
  "get_block_range P file start_key end_key =
     index_loop P
       (\<lambda>(key, offset) n range_offset.
          if start_key < key
          then (if end_key < key then Ok (Return (range_offset\<lparr>end_offset := offset\<rparr>))
                else Ok (Continue (range_offset\<lparr>end_offset := offset\<rparr>)))
          else Ok (Continue (range_offset\<lparr>start_offset := offset\<rparr>)))
       (\<lambda>s. s) \<lparr>start_offset = 0, end_offset = 0\<rparr> file"

section \<open>Filter, meta and summary files\<close>

text \<open>\<^verbatim>\<open>FileNode::open(path).map_err(|_| FilterFileOpen(path))\<close>, used by all three.\<close>

definition open_small_file :: "filesys \<Rightarrow> path \<Rightarrow> bytes res" where
  "open_small_file fs p = map_err (\<lambda>_. FilterFileOpen p) (file_open fs p)"

definition filter_file_recover :: "platform \<Rightarrow> filesys \<Rightarrow> path \<Rightarrow> (f64 \<times> u32 \<times> u32) res" where
  "filter_file_recover P fs p =
     and_then (open_small_file fs p) (\<lambda>r0.
     and_then (load_field P SIZE_OF_U32 r0) (\<lambda>(no_hash_func_bytes, n1, r1).
     and_then (load_field P SIZE_OF_U32 r1) (\<lambda>(no_of_elements_bytes, n2, r2).
     and_then (load_field P SIZE_OF_U64 r2) (\<lambda>(false_positive_rate_bytes, n3, r3).
       case float_from_le_bytes false_positive_rate_bytes of
         None \<Rightarrow> Err unexpected_eof
       | Some rate \<Rightarrow> Ok (rate, u32_from_le_bytes no_hash_func_bytes,
                          u32_from_le_bytes no_of_elements_bytes)))))"

definition meta_file_recover ::
  "platform \<Rightarrow> filesys \<Rightarrow> path \<Rightarrow> (nat \<times> nat \<times> datetime \<times> datetime) res" where
  "meta_file_recover P fs p =
     and_then (open_small_file fs p) (\<lambda>r0.
     and_then (load_field P SIZE_OF_U32 r0) (\<lambda>(head_offset_bytes, n1, r1).
     and_then (load_field P SIZE_OF_U32 r1) (\<lambda>(tail_offset_bytes, n2, r2).
     and_then (load_field P SIZE_OF_U64 r2) (\<lambda>(creation_date_bytes, n3, r3).
     and_then (load_field P SIZE_OF_U64 r3) (\<lambda>(last_modified_date_bytes, n4, r4).
     and_then (milliseconds_to_datetime P (u64_from_le_bytes creation_date_bytes)) (\<lambda>created.
     and_then (milliseconds_to_datetime P (u64_from_le_bytes last_modified_date_bytes)) (\<lambda>modified.
       Ok (unat (u32_from_le_bytes head_offset_bytes), unat (u32_from_le_bytes tail_offset_bytes),
           created, modified))))))))"

definition summary_file_recover :: "platform \<Rightarrow> filesys \<Rightarrow> path \<Rightarrow> (Key \<times> Key) res" where
  "summary_file_recover P fs p =
     and_then (open_small_file fs p) (\<lambda>r0.
     and_then (load_field P SIZE_OF_U32 r0) (\<lambda>(smallest_key_len_bytes, n1, r1).
     and_then (load_field P SIZE_OF_U32 r1) (\<lambda>(biggest_key_len_bytes, n2, r2).
     and_then (load_field P (unat (u32_from_le_bytes smallest_key_len_bytes)) r2)
       (\<lambda>(smallest_key, n3, r3).
     and_then (load_field P (unat (u32_from_le_bytes biggest_key_len_bytes)) r3)
       (\<lambda>(biggest_key, n4, r4). Ok (smallest_key, biggest_key))))))"

section \<open>The contract of a record file\<close>

locale record_stream =
  fixes ser :: "'e \<Rightarrow> bytes"
    and rd :: "bytes \<Rightarrow> ('e \<times> nat \<times> bytes) option res"
    and ok :: "'e \<Rightarrow> bool"
    and loop :: "('e \<Rightarrow> nat \<Rightarrow> 's \<Rightarrow> ('s, 'r) flow res) \<Rightarrow> ('s \<Rightarrow> 'r) \<Rightarrow> 's \<Rightarrow> bytes \<Rightarrow> 'r res"
  assumes rd_nil: "rd [] = Ok None"
    and rd_ser: "ok e \<Longrightarrow> rd (ser e @ rest) = Ok (Some (e, length (ser e), rest))"
    and loop_unfold: "loop step fin s rest =
      and_then (rd rest) (\<lambda>m. case m of
         None \<Rightarrow> Ok (fin s)
       | Some (e, n, rest') \<Rightarrow> and_then (step e n s) (\<lambda>fl. case fl of
           Continue s' \<Rightarrow> loop step fin s' rest'
         | Return r \<Rightarrow> Ok r))"
begin

lemma loop_records:
  assumes "\<forall>e \<in> set es. ok e"
  shows "loop step fin s (concat (map ser es)) = run_steps step fin (\<lambda>e. length (ser e)) s es"
  using assms
proof (induction es arbitrary: s)
  case Nil
  then show ?case by (subst loop_unfold) (simp add: rd_nil)
next
  case (Cons e es)
  then have rd: "rd (concat (map ser (e # es))) = Ok (Some (e, length (ser e), concat (map ser es)))"
    by (simp add: rd_ser)
  have IH: "loop step fin s' (concat (map ser es)) = run_steps step fin (\<lambda>e. length (ser e)) s' es" for s'
    using Cons by simp
  show ?case
    unfolding loop_unfold [of step fin s] rd by (simp only: and_then.simps option.case prod.case IH run_steps.simps)
qed

lemma ser_nonempty: "ok e \<Longrightarrow> ser e \<noteq> []"
  using rd_ser [of e "[]"] rd_nil by (metis append_Nil2 option.distinct(1) result.inject(1))

lemma ser_inject:
  assumes "ok e" and "ok f" and "ser e @ xs = ser f @ ys"
  shows "e = f \<and> xs = ys"
proof -
  have "Ok (Some (e, length (ser e), xs)) = (Ok (Some (f, length (ser f), ys)) :: ('e \<times> nat \<times> bytes) option res)"
    using rd_ser [OF assms(1), of xs] rd_ser [OF assms(2), of ys] assms(3) by metis
  then show ?thesis by simp
qed

end

subsection \<open>The three record formats\<close>

definition data_bytes :: "data_record \<Rightarrow> bytes" where
  "data_bytes = (\<lambda>(key, value_offset, created_at, is_tombstone).
     u32_to_le_bytes (word_of_nat (length key)) @ key @ u32_to_le_bytes value_offset
       @ u64_to_le_bytes created_at @ bool_to_byte is_tombstone)"

definition vlog_bytes :: "vlog_record \<Rightarrow> bytes" where
  "vlog_bytes = (\<lambda>(key, value, created_at, is_tombstone).
     u32_to_le_bytes (word_of_nat (length key)) @ u32_to_le_bytes (word_of_nat (length value))
       @ u64_to_le_bytes created_at @ bool_to_byte is_tombstone @ key @ value)"

definition index_bytes :: "index_record \<Rightarrow> bytes" where
  "index_bytes = (\<lambda>(key, offset).
     u32_to_le_bytes (word_of_nat (length key)) @ key @ u32_to_le_bytes offset)"

text \<open>
  A byte string one record field holds: not empty (a reader takes an empty field for the end of
  the file), with a length the 32-bit field holds and one \<^verbatim>\<open>read\<close> returns.
\<close>

definition field_ok :: "platform \<Rightarrow> bytes \<Rightarrow> bool" where
  "field_ok P bs \<longleftrightarrow> bs \<noteq> [] \<and> length bs < 2 ^ 32 \<and> length bs \<le> max_read P \<and> 8 \<le> max_read P"

definition data_ok :: "platform \<Rightarrow> data_record \<Rightarrow> bool" where
  "data_ok P = (\<lambda>(key, _). field_ok P key)"

definition vlog_ok :: "platform \<Rightarrow> vlog_record \<Rightarrow> bool" where
  "vlog_ok P = (\<lambda>(key, value, _). field_ok P key \<and> field_ok P value)"

definition index_ok :: "platform \<Rightarrow> index_record \<Rightarrow> bool" where
  "index_ok P = (\<lambda>(key, _). field_ok P key)"

lemmas field_defs = field_ok_def SIZE_OF_U32_def SIZE_OF_U64_def SIZE_OF_U8_def

lemma field_ok_len [codec]:
  "field_ok P bs \<Longrightarrow> unat (word_of_nat (length bs) :: u32) = length bs"
  by (simp add: field_ok_def unat_u32_of_nat)

lemma field_ok_reads: "field_ok P bs \<Longrightarrow> 8 \<le> max_read P"
  by (simp add: field_ok_def)

lemma load_len [codec]:
  "8 \<le> max_read P \<Longrightarrow> load_buffer P SIZE_OF_U32 (u32_to_le_bytes w @ rest) = (u32_to_le_bytes w, 4, rest)"
  by (simp add: field_defs codec)

lemma load_key [codec]:
  "field_ok P key \<Longrightarrow> load_field P (length key) (key @ rest) = Ok (key, length key, rest)"
  by (simp add: field_defs codec)

lemma load_u32 [codec]:
  "8 \<le> max_read P \<Longrightarrow> load_field P SIZE_OF_U32 (u32_to_le_bytes w @ rest) = Ok (u32_to_le_bytes w, 4, rest)"
  by (simp add: field_defs codec)

lemma load_u64 [codec]:
  "8 \<le> max_read P \<Longrightarrow> load_field P SIZE_OF_U64 (u64_to_le_bytes w @ rest) = Ok (u64_to_le_bytes w, 8, rest)"
  by (simp add: field_defs codec)

lemma load_u8 [codec]:
  "8 \<le> max_read P \<Longrightarrow> load_field P SIZE_OF_U8 (bool_to_byte b @ rest) = Ok (bool_to_byte b, 1, rest)"
  by (simp add: field_defs codec)

interpretation data_file: record_stream data_bytes "read_data_record P" "data_ok P" "data_loop P" for P
proof unfold_locales
  show "read_data_record P [] = Ok None"
    by (simp add: read_data_record_def)
  show "read_data_record P (data_bytes e @ rest) = Ok (Some (e, length (data_bytes e), rest))"
    if "data_ok P e" for e rest
  proof -
    from that have "8 \<le> max_read P"
      by (auto simp: data_ok_def field_ok_reads)
    with that show ?thesis
      by (auto simp: read_data_record_def data_bytes_def data_ok_def codec)
  qed
qed (rule data_loop.simps)

interpretation vlog_file: record_stream vlog_bytes "read_vlog_record P" "vlog_ok P" "vlog_loop P" for P
proof unfold_locales
  show "read_vlog_record P [] = Ok None"
    by (simp add: read_vlog_record_def)
  show "read_vlog_record P (vlog_bytes e @ rest) = Ok (Some (e, length (vlog_bytes e), rest))"
    if "vlog_ok P e" for e rest
  proof -
    from that have "8 \<le> max_read P"
      by (auto simp: vlog_ok_def field_ok_reads)
    with that show ?thesis
      by (auto simp: read_vlog_record_def vlog_bytes_def vlog_ok_def codec)
  qed
qed (rule vlog_loop.simps)

interpretation index_file: record_stream index_bytes "read_index_record P" "index_ok P" "index_loop P" for P
proof unfold_locales
  show "read_index_record P [] = Ok None"
    by (simp add: read_index_record_def)
  show "read_index_record P (index_bytes e @ rest) = Ok (Some (e, length (index_bytes e), rest))"
    if "index_ok P e" for e rest
  proof -
    from that have "8 \<le> max_read P"
      by (auto simp: index_ok_def field_ok_reads)
    with that show ?thesis
      by (auto simp: read_index_record_def index_bytes_def index_ok_def codec)
  qed
qed (rule index_loop.simps)

section \<open>What the readers return on a written file\<close>

text \<open>The record of a table entry, and what is left of the entry when it is read back.\<close>

definition data_record_of :: "Key \<times> SkipMapValue \<Rightarrow> data_record" where
  "data_record_of = (\<lambda>(k, v). (k, word_of_nat (sv_offset v),
     word_of_int (timestamp_millis (sv_created_at v)), sv_is_tombstone v))"

definition stored_value :: "SkipMapValue \<Rightarrow> SkipMapValue" where
  "stored_value v = \<lparr>sv_offset = sv_offset v mod 2 ^ 32,
     sv_created_at = truncate_millis (sv_created_at v), sv_is_tombstone = sv_is_tombstone v\<rparr>"

definition entry_ok :: "platform \<Rightarrow> Key \<times> SkipMapValue \<Rightarrow> bool" where
  "entry_ok P = (\<lambda>(k, v). field_ok P k \<and> wf_time P (sv_created_at v))"

definition data_file_of :: "(Key \<times> SkipMapValue) list \<Rightarrow> bytes" where
  "data_file_of es = concat (map data_bytes (map data_record_of es))"

lemma data_file_of_append [simp]: "data_file_of (xs @ ys) = data_file_of xs @ data_file_of ys"
  by (simp add: data_file_of_def)

lemma data_file_of_Nil [simp]: "data_file_of [] = []"
  by (simp add: data_file_of_def)

lemma entry_ok_data_ok: "\<forall>e \<in> set es. entry_ok P e \<Longrightarrow> \<forall>e \<in> set (map data_record_of es). data_ok P e"
  by (auto simp: entry_ok_def data_ok_def data_record_of_def)

lemma unat_of_nat_u32: "unat (word_of_nat n :: u32) = n mod 2 ^ 32"
  by (simp add: unat_of_nat)

lemma load_entries_file:
  assumes "\<forall>e \<in> set es. entry_ok P e"
  shows "load_entries P (data_file_of es) =
    Ok (fold (\<lambda>(k, v). sm_insert k (stored_value v)) es [], length (data_file_of es))"
proof -
  define ins where "ins = (\<lambda>(k :: Key, v). sm_insert k (stored_value v))"
  define step where "step = (\<lambda>(key, value_offset :: u32, created_at, is_tombstone) bytes_read (entries, total_bytes_read).
          and_then (milliseconds_to_datetime P created_at) (\<lambda>t.
            Ok (Continue
              (sm_insert key
                 \<lparr>sv_offset = unat value_offset, sv_created_at = t, sv_is_tombstone = is_tombstone\<rparr>
                 entries,
               total_bytes_read + bytes_read))) :: (entries \<times> nat, entries \<times> nat) flow res)"
  have step: "step (data_record_of e) n (m, t) = Ok (Continue (ins e m, t + n))" if "entry_ok P e" for e n m t
    using that by (cases e) (simp add: step_def ins_def data_record_of_def entry_ok_def
        stored_value_def codec unat_of_nat_u32)
  have "run_steps step (\<lambda>s. s) (\<lambda>e. length (data_bytes e)) (m, n) (map data_record_of es)
      = Ok (fold ins es m, n + length (data_file_of es))" for m n
    using assms by (induction es arbitrary: m n) (simp_all add: step data_file_of_def)
  then show ?thesis
    unfolding load_entries_def data_file_of_def step_def [symmetric] ins_def [symmetric]
    by (simp add: data_file.loop_records [OF entry_ok_data_ok [OF assms]] del: map_map)
qed

lemma find_entry_file:
  assumes "\<forall>e \<in> set es. entry_ok P e" and "unat offset = length pre"
  shows "find_entry P (pre @ data_file_of es) offset key =
    Ok (map_option (\<lambda>v. (sv_offset v mod 2 ^ 32, truncate_millis (sv_created_at v), sv_is_tombstone v))
          (map_of es key))"
  using assms(1) unfolding find_entry_def assms(2) data_file_of_def
proof (simp add: data_file.loop_records [OF entry_ok_data_ok [OF assms(1)], simplified], induction es)
  case (Cons e es)
  then show ?case
    by (cases e) (simp add: data_record_of_def entry_ok_def codec unat_of_nat_u32)
qed simp

text \<open>The record of a log entry, and what is left of it.\<close>

definition vlog_record_of :: "ValueLogEntry \<Rightarrow> vlog_record" where
  "vlog_record_of e = (vle_key e, vle_value e, word_of_int (timestamp_millis (vle_created_at e)),
     vle_is_tombstone e)"

definition vlog_file_of :: "ValueLogEntry list \<Rightarrow> bytes" where
  "vlog_file_of es = concat (map vlog_bytes (map vlog_record_of es))"

definition vle_ok :: "platform \<Rightarrow> ValueLogEntry \<Rightarrow> bool" where
  "vle_ok P e \<longleftrightarrow> field_ok P (vle_key e) \<and> field_ok P (vle_value e) \<and> wf_time P (vle_created_at e)
     \<and> vle_ksize e = length (vle_key e) \<and> vle_vsize e = length (vle_value e)"

definition stored_vle :: "ValueLogEntry \<Rightarrow> ValueLogEntry" where
  "stored_vle e = e\<lparr>vle_created_at := truncate_millis (vle_created_at e)\<rparr>"

lemma vlog_file_of_append [simp]: "vlog_file_of (xs @ ys) = vlog_file_of xs @ vlog_file_of ys"
  by (simp add: vlog_file_of_def)

lemma vlog_file_of_simps [simp]:
  "vlog_file_of [] = []"
  "vlog_file_of (e # es) = vlog_bytes (vlog_record_of e) @ vlog_file_of es"
  by (simp_all add: vlog_file_of_def)

lemma length_vlog_bytes:
  "length (vlog_bytes (vlog_record_of e)) = 17 + length (vle_key e) + length (vle_value e)"
  by (simp add: vlog_bytes_def vlog_record_of_def codec)

lemma vle_ok_vlog_ok: "vle_ok P e \<Longrightarrow> vlog_ok P (vlog_record_of e)"
  by (simp add: vle_ok_def vlog_ok_def vlog_record_of_def)

lemma vlog_entry_of_record_ok:
  "vle_ok P e \<Longrightarrow> vlog_entry_of_record P (vlog_record_of e) = Ok (stored_vle e)"
  by (simp add: vlog_entry_of_record_def vlog_record_of_def vle_ok_def stored_vle_def codec)

lemma vlog_file_get_at:
  assumes "vle_ok P e" and "offset = length pre"
  shows "vlog_file_get P (pre @ vlog_bytes (vlog_record_of e) @ post) offset
    = Ok (Some (vle_value e, vle_is_tombstone e))"
  using assms vlog_file.rd_ser [OF vle_ok_vlog_ok [OF assms(1)], of post]
  by (simp add: vlog_file_get_def vlog_record_of_def)

lemma vlog_file_get_end: "length file \<le> offset \<Longrightarrow> vlog_file_get P file offset = Ok None"
  by (simp add: vlog_file_get_def vlog_file.rd_nil)

lemma vlog_file_recover_from:
  assumes "\<forall>e \<in> set es. vle_ok P e" and "start = length pre"
  shows "vlog_file_recover P (pre @ vlog_file_of es) start = Ok (map stored_vle es)"
proof -
  have "run_steps (\<lambda>r n entries. and_then (vlog_entry_of_record P r) (\<lambda>e. Ok (Continue (entries @ [e]))))
      (\<lambda>entries. entries) (\<lambda>e. length (vlog_bytes e)) acc (map vlog_record_of es)
      = Ok (acc @ map stored_vle es)" for acc
    using assms(1) by (induction es arbitrary: acc) (simp_all add: vlog_entry_of_record_ok)
  moreover have "\<forall>e \<in> set (map vlog_record_of es). vlog_ok P e"
    using assms(1) by (auto simp: vle_ok_vlog_ok)
  ultimately show ?thesis
    using assms(2) by (simp add: vlog_file_recover_def vlog_file_of_def vlog_file.loop_records
        del: map_map)
qed

lemma get_from_index_file:
  assumes "\<forall>e \<in> set es. index_ok P e"
  shows "get_from_index P (concat (map index_bytes es)) key =
    Ok (map_option snd (find (\<lambda>(k, offset). key \<le> k) es))"
proof -
  have "run_steps (\<lambda>(k, offset) n s. if k < key then Ok (Continue s) else Ok (Return (Some offset)))
      (\<lambda>s. None) (\<lambda>e. length (index_bytes e)) () es
    = Ok (case find (\<lambda>(k, offset). key \<le> k) es of None \<Rightarrow> None | Some e \<Rightarrow> Some (snd e))"
    by (rule run_steps_find) (auto simp: not_le)
  then show ?thesis
    using assms
    by (cases "find (\<lambda>(k, offset). key \<le> k) es")
      (simp_all add: get_from_index_def index_file.loop_records)
qed

end
