(* ===== verification/Value_Log.thy ===== *)
theory Value_Log
  imports File_Nodes
begin

text \<open>
  The value log of \<^verbatim>\<open>src/vlog/v_log.rs\<close> and the store's meta file of \<^verbatim>\<open>src/meta/meta_manager.rs\<close>. A file
  handle is the path of its file. The locale \<open>value_store\<close> is what the store relies on (an offset
  returned by an append reads back what was appended, for ever); the value log interprets it.
\<close>

section \<open>The value log\<close>

record ValueLog =
  vl_path :: path
  head_offset :: nat
  tail_offset :: nat
  vl_size :: nat

text \<open>The bytes behind an open handle.\<close>

definition node_bytes :: "filesys \<Rightarrow> path \<Rightarrow> bytes res" where
  "node_bytes fs p =
     (case files fs p of None \<Rightarrow> Err (FileRead p ''NotFound'') | Some bs \<Rightarrow> Ok bs)"

text \<open>\<^verbatim>\<open>FileNode::new(path, ..).await.unwrap()\<close>.\<close>

definition file_node_unwrap :: "filesys \<Rightarrow> path \<Rightarrow> filesys res" where
  "file_node_unwrap fs p = (case file_create fs p of Ok fs' \<Rightarrow> Ok fs' | _ \<Rightarrow> Panic)"

definition vlog_new :: "filesys \<Rightarrow> path \<Rightarrow> (filesys \<times> ValueLog) res" where
  "vlog_new fs dir =
     (let file_path = dir @ [VLOG_FILE_NAME]
      in and_then (file_node_unwrap (create_dir_all fs dir) file_path) (\<lambda>fs'.
         and_then (file_size fs' file_path) (\<lambda>size.
           Ok (fs', \<lparr>vl_path = file_path, head_offset = 0, tail_offset = 0, vl_size = size\<rparr>))))"

definition ValueLogEntry_new ::
  "nat \<Rightarrow> nat \<Rightarrow> Key \<Rightarrow> Value \<Rightarrow> datetime \<Rightarrow> bool \<Rightarrow> ValueLogEntry" where
  "ValueLogEntry_new ksize vsize key value created_at is_tombstone =
     \<lparr>vle_ksize = ksize, vle_vsize = vsize, vle_key = key, vle_value = value,
      vle_created_at = created_at, vle_is_tombstone = is_tombstone\<rparr>"

definition vle_serialize :: "ValueLogEntry \<Rightarrow> bytes" where
  "vle_serialize e =
     u32_to_le_bytes (word_of_nat (length (vle_key e)))
       @ u32_to_le_bytes (word_of_nat (length (vle_value e)))
       @ millis_to_le_bytes (vle_created_at e)
       @ bool_to_byte (vle_is_tombstone e)
       @ vle_key e @ vle_value e"

definition vlog_append ::
  "filesys \<Rightarrow> ValueLog \<Rightarrow> Key \<Rightarrow> Value \<Rightarrow> datetime \<Rightarrow> bool \<Rightarrow> (filesys \<times> ValueLog \<times> ValOffset) res" where
  "vlog_append fs vl key value created_at is_tombstone =
     (let v_log_entry = ValueLogEntry_new (length key) (length value) key value created_at is_tombstone;
          serialized_data = vle_serialize v_log_entry;
          last_offset = vl_size vl
      in and_then (file_write_all fs (vl_path vl) serialized_data) (\<lambda>fs'.
           Ok (fs', vl\<lparr>vl_size := vl_size vl + length serialized_data\<rparr>, last_offset)))"

definition vlog_get :: "platform \<Rightarrow> filesys \<Rightarrow> ValueLog \<Rightarrow> nat \<Rightarrow> (Value \<times> bool) option res" where
  "vlog_get P fs vl start =
     and_then (node_bytes fs (vl_path vl)) (\<lambda>bs. vlog_file_get P bs start)"

definition vlog_recover :: "platform \<Rightarrow> filesys \<Rightarrow> ValueLog \<Rightarrow> nat \<Rightarrow> ValueLogEntry list res" where
  "vlog_recover P fs vl start =
     and_then (node_bytes fs (vl_path vl)) (\<lambda>bs. vlog_file_recover P bs start)"

definition vlog_read_chunk ::
  "platform \<Rightarrow> filesys \<Rightarrow> ValueLog \<Rightarrow> nat \<Rightarrow> (ValueLogEntry list \<times> nat) res" where
  "vlog_read_chunk P fs vl bytes_to_collect =
     and_then (node_bytes fs (vl_path vl)) (\<lambda>bs.
       vlog_file_read_chunk P bs bytes_to_collect (tail_offset vl))"

text \<open>The path is a regular file, so removing it as a directory fails; the failure is only logged.\<close>

definition vlog_clear_all :: "filesys \<Rightarrow> ValueLog \<Rightarrow> filesys \<times> ValueLog" where
  "vlog_clear_all fs vl =
     (case remove_dir_all fs (vl_path vl) of Ok fs' \<Rightarrow> fs' | _ \<Rightarrow> fs,
      vl\<lparr>vl_size := 0, tail_offset := 0, head_offset := 0\<rparr>)"

definition vlog_set_head :: "ValueLog \<Rightarrow> nat \<Rightarrow> ValueLog" where
  "vlog_set_head vl head = vl\<lparr>head_offset := head\<rparr>"

definition vlog_set_tail :: "ValueLog \<Rightarrow> nat \<Rightarrow> ValueLog" where
  "vlog_set_tail vl tail = vl\<lparr>tail_offset := tail\<rparr>"

section \<open>The log on disk\<close>

lemma vle_serialize_bytes: "vle_serialize e = vlog_bytes (vlog_record_of e)"
  by (simp add: vle_serialize_def vlog_bytes_def vlog_record_of_def millis_to_le_bytes_def)

text \<open>
  The value log holds the entries \<open>log\<close>, in this order and nothing else, and its cached size is
  the size of the file.
\<close>

definition vlog_inv :: "platform \<Rightarrow> filesys \<times> ValueLog \<Rightarrow> ValueLogEntry list \<Rightarrow> bool" where
  "vlog_inv P = (\<lambda>(fs, vl) log.
     files fs (vl_path vl) = Some (vlog_file_of log) \<and> vl_size vl = length (vlog_file_of log)
       \<and> (\<forall>e \<in> set log. vle_ok P e))"

abbreviation log_offset :: "ValueLogEntry list \<Rightarrow> nat" where
  "log_offset log \<equiv> length (vlog_file_of log)"

definition vlog_put :: "filesys \<times> ValueLog \<Rightarrow> ValueLogEntry \<Rightarrow> ((filesys \<times> ValueLog) \<times> ValOffset) res" where
  "vlog_put = (\<lambda>(fs, vl) e.
     and_then (vlog_append fs vl (vle_key e) (vle_value e) (vle_created_at e) (vle_is_tombstone e))
       (\<lambda>(fs', vl', off). Ok ((fs', vl'), off)))"

lemma vlog_append_inv:
  assumes "vlog_inv P (fs, vl) log"
    and "vle_ok P (ValueLogEntry_new (length k) (length v) k v t d)" (is "vle_ok P ?e")
  shows "\<exists>fs' vl'. vlog_append fs vl k v t d = Ok (fs', vl', log_offset log)
    \<and> vlog_inv P (fs', vl') (log @ [?e])
    \<and> fs' = fs\<lparr>files := (files fs)(vl_path vl \<mapsto> vlog_file_of (log @ [?e]))\<rparr>
    \<and> vl' = vl\<lparr>vl_size := vl_size vl + length (vlog_bytes (vlog_record_of ?e))\<rparr>"
  using assms by (simp add: vlog_append_def vlog_inv_def vle_serialize_bytes file_write_all_def Let_def)

lemma vlog_get_inv:
  assumes "vlog_inv P (fs, vl) (xs @ e # ys)"
  shows "vlog_get P fs vl (log_offset xs) = Ok (Some (vle_value e, vle_is_tombstone e))"
  using assms vlog_file_get_at [of P e "log_offset xs" "vlog_file_of xs" "vlog_file_of ys"]
  by (simp add: vlog_get_def vlog_inv_def node_bytes_def)

lemma vlog_get_past_end:
  assumes "vlog_inv P (fs, vl) log" and "log_offset log \<le> off"
  shows "vlog_get P fs vl off = Ok None"
  using assms by (simp add: vlog_get_def vlog_inv_def node_bytes_def vlog_file_get_end)

lemma vlog_recover_inv:
  assumes "vlog_inv P (fs, vl) (xs @ ys)"
  shows "vlog_recover P fs vl (log_offset xs) = Ok (map stored_vle ys)"
  using assms vlog_file_recover_from [of ys P "log_offset xs" "vlog_file_of xs"]
  by (simp add: vlog_recover_def vlog_inv_def node_bytes_def)

section \<open>The contract of the value store\<close>

locale value_store =
  fixes put :: "'s \<Rightarrow> 'e \<Rightarrow> ('s \<times> nat) res"
    and get :: "'s \<Rightarrow> nat \<Rightarrow> 'v option res"
    and val :: "'e \<Rightarrow> 'v"
    and ok :: "'e \<Rightarrow> bool"
    and inv :: "'s \<Rightarrow> 'e list \<Rightarrow> bool"
    and off :: "'e list \<Rightarrow> nat"
  assumes put_inv: "inv s log \<Longrightarrow> ok e \<Longrightarrow> \<exists>s'. put s e = Ok (s', off log) \<and> inv s' (log @ [e])"
    and get_inv: "inv s (xs @ e # ys) \<Longrightarrow> get s (off xs) = Ok (Some (val e))"
begin

lemma puts_inv:
  assumes "inv s log" and "\<forall>e \<in> set es. ok e"
  shows "\<exists>s'. fold_res (\<lambda>e s. and_then (put s e) (\<lambda>(s', _). Ok s')) es s = Ok s' \<and> inv s' (log @ es)"
  using assms
proof (induction es arbitrary: s log)
  case (Cons e es)
  then obtain s1 where s1: "put s e = Ok (s1, off log)" "inv s1 (log @ [e])"
    using put_inv [of s log e] by auto
  with Cons.IH [of s1 "log @ [e]"] Cons.prems(2) show ?case by auto
qed auto

lemma put_then_puts_get:
  assumes "inv s log" and "ok e" and "\<forall>x \<in> set es. ok x" and "put s e = Ok (s1, o1)"
  shows "\<exists>s2. fold_res (\<lambda>e s. and_then (put s e) (\<lambda>(s', _). Ok s')) es s1 = Ok s2
    \<and> get s2 o1 = Ok (Some (val e))"
proof -
  have s1: "o1 = off log" "inv s1 (log @ [e])"
    using put_inv [OF assms(1,2)] assms(4) by auto
  obtain s2 where "fold_res (\<lambda>e s. and_then (put s e) (\<lambda>(s', _). Ok s')) es s1 = Ok s2"
    "inv s2 ((log @ [e]) @ es)"
    using puts_inv [OF s1(2) assms(3)] by blast
  with s1(1) show ?thesis by (auto intro: get_inv)
qed

end

interpretation vlog: value_store vlog_put "\<lambda>(fs, vl). vlog_get P fs vl"
    "\<lambda>e. (vle_value e, vle_is_tombstone e)" "vle_ok P" "vlog_inv P" log_offset for P
proof unfold_locales
  fix s :: "filesys \<times> ValueLog" and log xs ys :: "ValueLogEntry list" and e :: ValueLogEntry
  obtain fs vl where s: "s = (fs, vl)" by force
  show "\<exists>s'. vlog_put s e = Ok (s', log_offset log) \<and> vlog_inv P s' (log @ [e])"
    if "vlog_inv P s log" and "vle_ok P e"
  proof -
    have "e = ValueLogEntry_new (length (vle_key e)) (length (vle_value e)) (vle_key e) (vle_value e)
      (vle_created_at e) (vle_is_tombstone e)"
      using that(2) by (simp add: ValueLogEntry_new_def vle_ok_def)
    then show ?thesis
      using that vlog_append_inv [of P fs vl log "vle_key e" "vle_value e" "vle_created_at e" "vle_is_tombstone e"]
      by (auto simp: s vlog_put_def)
  qed
  show "(case s of (fs, vl) \<Rightarrow> vlog_get P fs vl) (log_offset xs) = Ok (Some (vle_value e, vle_is_tombstone e))"
    if "vlog_inv P s (xs @ e # ys)"
    using that by (simp add: s vlog_get_inv)
qed

section \<open>Opening, appending, reading\<close>

lemma vlog_put_path: "vlog_put s e = Ok (s', off) \<Longrightarrow> vl_path (snd s') = vl_path (snd s)"
  by (auto simp: vlog_put_def vlog_append_def Let_def split: prod.splits)

lemma vlog_puts_path:
  "fold_res (\<lambda>e s. and_then (vlog_put s e) (\<lambda>(s', _). Ok s')) es s = Ok s' \<Longrightarrow> vl_path (snd s') = vl_path (snd s)"
  by (induction es arbitrary: s) (auto dest: vlog_put_path)

lemma vlog_new_fresh:
  assumes "files fs (dir @ [VLOG_FILE_NAME]) = None"
  shows "\<exists>fs' vl. vlog_new fs dir = Ok (fs', vl) \<and> vlog_inv P (fs', vl) [] \<and> vl_path vl = dir @ [VLOG_FILE_NAME]"
  using assms by (simp add: vlog_new_def file_node_unwrap_def file_create_def file_size_def vlog_inv_def Let_def)

lemma vlog_new_existing:
  assumes "files fs (dir @ [VLOG_FILE_NAME]) = Some (vlog_file_of log)" and "\<forall>e \<in> set log. vle_ok P e"
  shows "\<exists>fs' vl. vlog_new fs dir = Ok (fs', vl) \<and> vlog_inv P (fs', vl) log \<and> vl_path vl = dir @ [VLOG_FILE_NAME]"
  using assms by (simp add: vlog_new_def file_node_unwrap_def file_create_def file_size_def vlog_inv_def Let_def)

text \<open>C5. Appending an entry to the log succeeds and returns an offset; reading that offset gives the
  appended value and tombstone flag back, however many entries are appended in between, and also
  after the log is opened again from its directory, as on a restart.\<close>

theorem vlog_append_get:
  assumes "vlog_inv P (fs, vl) log" and "vl_path vl = dir @ [VLOG_FILE_NAME]"
    and "vle_ok P (ValueLogEntry_new (length k) (length v) k v t d)" (is "vle_ok P ?e")
    and "\<forall>e \<in> set later. vle_ok P e"
  shows "\<exists>fs1 vl1 off fs2 vl2 fs3 vl3. vlog_append fs vl k v t d = Ok (fs1, vl1, off)
    \<and> fold_res (\<lambda>e s. and_then (vlog_put s e) (\<lambda>(s', _). Ok s')) later (fs1, vl1) = Ok (fs2, vl2)
    \<and> vlog_get P fs2 vl2 off = Ok (Some (v, d))
    \<and> vlog_new fs2 dir = Ok (fs3, vl3) \<and> vlog_get P fs3 vl3 off = Ok (Some (v, d))"
proof -
  obtain fs1 vl1 where 1: "vlog_append fs vl k v t d = Ok (fs1, vl1, log_offset log)"
    "vlog_inv P (fs1, vl1) (log @ [?e])" "vl_path vl1 = vl_path vl"
    using vlog_append_inv [OF assms(1,3)] by auto
  obtain s2 where s2: "fold_res (\<lambda>e s. and_then (vlog_put s e) (\<lambda>(s', _). Ok s')) later (fs1, vl1) = Ok s2"
    "vlog_inv P s2 ((log @ [?e]) @ later)"
    using vlog.puts_inv [OF 1(2) assms(4)] by blast
  obtain fs2 vl2 where 2: "s2 = (fs2, vl2)" by force
  have val: "vle_value ?e = v" "vle_is_tombstone ?e = d"
    by (simp_all add: ValueLogEntry_new_def)
  have g2: "vlog_get P fs2 vl2 (log_offset log) = Ok (Some (v, d))"
    using vlog_get_inv [of P fs2 vl2 log ?e later] s2(2) val by (simp add: 2)
  have path: "vl_path (snd s2) = vl_path vl1"
    using vlog_puts_path [OF s2(1)] by simp
  have "files fs2 (dir @ [VLOG_FILE_NAME]) = Some (vlog_file_of (log @ ?e # later))"
    "\<forall>e \<in> set (log @ ?e # later). vle_ok P e"
    using s2(2) path assms(2) 1(3) by (auto simp: 2 vlog_inv_def)
  from vlog_new_existing [OF this] obtain fs3 vl3 where
    3: "vlog_new fs2 dir = Ok (fs3, vl3)" "vlog_inv P (fs3, vl3) (log @ ?e # later)"
    by blast
  have "vlog_get P fs3 vl3 (log_offset log) = Ok (Some (v, d))"
    using vlog_get_inv [OF 3(2)] val by simp
  with 1(1) s2(1) 2 g2 3(1) show ?thesis by blast
qed

theorem vlog_append_get_witness:
  "\<exists>fs vl fs1 vl1 off fs3 vl3. vlog_new sample_fs [''t''] = Ok (fs, vl)
    \<and> vlog_append fs vl [1] [5, 6] 2000000 False = Ok (fs1, vl1, off)
    \<and> vlog_new fs1 [''t''] = Ok (fs3, vl3) \<and> vlog_get sample_platform fs3 vl3 off = Ok (Some ([5, 6], False))"
proof -
  obtain fs vl where new: "vlog_new sample_fs [''t''] = Ok (fs, vl)"
    "vlog_inv sample_platform (fs, vl) []" "vl_path vl = [''t''] @ [VLOG_FILE_NAME]"
    using vlog_new_fresh [of sample_fs "[''t'']" sample_platform] by (auto simp: sample_fs_def)
  have ok: "vle_ok sample_platform (ValueLogEntry_new (length [1]) (length [5, 6]) [1] [5, 6] 2000000 False)"
    by (simp add: vle_ok_def ValueLogEntry_new_def field_ok_def wf_time_def sample_platform_def
        timestamp_millis_def)
  from vlog_append_get [OF new(2,3) ok, of "[]"] new(1) show ?thesis by auto
qed

end
