(* ===== verification/Block_Index.thy ===== *)
theory Block_Index
  imports Value_Log
begin

text \<open>
  The blocks of a data file (\<^verbatim>\<open>src/block/block_manager.rs\<close>) and its index
  (\<^verbatim>\<open>src/index/indexer.rs\<close>): a block holds at most \<open>BLOCK_SIZE\<close> bytes of entries, the index has one
  entry per block, its last key and its offset in the data file.
\<close>

section \<open>Blocks\<close>

record BlockEntry =
  key_prefix :: u32
  be_key :: Key
  be_value_offset :: u32
  creation_date :: datetime
  be_is_tombstone :: bool

record Block =
  bl_entries :: "BlockEntry list"
  bl_size :: nat
  entry_count :: nat

definition block_new :: Block where
  "block_new = \<lparr>bl_entries = [], bl_size = 0, entry_count = 0\<rparr>"

definition block_is_full :: "Block \<Rightarrow> nat \<Rightarrow> bool" where
  "block_is_full b entry_size \<longleftrightarrow> BLOCK_SIZE < bl_size b + entry_size"

definition set_entry :: "Block \<Rightarrow> u32 \<Rightarrow> Key \<Rightarrow> u32 \<Rightarrow> datetime \<Rightarrow> bool \<Rightarrow> Block res" where
  "set_entry b prefix key value_offset date tomb =
     (let entry_size = length key + SIZE_OF_U32 + SIZE_OF_U32 + SIZE_OF_U64 + SIZE_OF_U8
      in if block_is_full b entry_size then Err BlockIsFull
         else Ok (b\<lparr>bl_entries := bl_entries b @
                     [\<lparr>key_prefix = prefix, be_key = key, be_value_offset = value_offset,
                       creation_date = date, be_is_tombstone = tomb\<rparr>],
                    bl_size := bl_size b + entry_size,
                    entry_count := entry_count b + 1\<rparr>))"

definition block_serialize :: "BlockEntry \<Rightarrow> bytes res" where
  "block_serialize entry =
     (let entry_len = length (be_key entry) + SIZE_OF_U32 + SIZE_OF_U32 + SIZE_OF_U64 + SIZE_OF_U8;
          entry_vec = u32_to_le_bytes (key_prefix entry) @ be_key entry
            @ u32_to_le_bytes (be_value_offset entry) @ millis_to_le_bytes (creation_date entry)
            @ bool_to_byte (be_is_tombstone entry)
      in if entry_len \<noteq> length entry_vec then Err (Serialization ''Invalid input'') else Ok entry_vec)"

definition block_write_to_file :: "filesys \<Rightarrow> Block \<Rightarrow> path \<Rightarrow> (filesys \<times> nat) res" where
  "block_write_to_file fs b file =
     fold_res (\<lambda>entry (fs, bytes_written).
         and_then (block_serialize entry) (\<lambda>serialized_entry.
         and_then (file_write_all fs file serialized_entry) (\<lambda>fs'.
           Ok (fs', bytes_written + length serialized_entry))))
       (bl_entries b) (fs, 0)"

definition get_last_entry :: "Block \<Rightarrow> BlockEntry res" where
  "get_last_entry b = (if bl_entries b = [] then Panic else Ok (last (bl_entries b)))"

definition block_get_entry :: "Block \<Rightarrow> Key \<Rightarrow> BlockEntry option" where
  "block_get_entry b key = find (\<lambda>e. be_key e = key) (bl_entries b)"

section \<open>The index\<close>

record IndexEntry =
  ie_key_len :: u32
  ie_key :: Key
  block_handle :: u32

record Index =
  ix_entries :: "IndexEntry list"
  ix_path :: path

definition index_new :: "path \<Rightarrow> Index" where
  "index_new p = \<lparr>ix_entries = [], ix_path = p\<rparr>"

definition index_insert :: "Index \<Rightarrow> u32 \<Rightarrow> Key \<Rightarrow> u32 \<Rightarrow> Index" where
  "index_insert ix key_len key offset =
     ix\<lparr>ix_entries := ix_entries ix @ [\<lparr>ie_key_len = key_len, ie_key = key, block_handle = offset\<rparr>]\<rparr>"

definition index_serialize_entry :: "IndexEntry \<Rightarrow> bytes res" where
  "index_serialize_entry e =
     (let entry_len = length (ie_key e) + SIZE_OF_U32 + SIZE_OF_U32;
          entry_vec = u32_to_le_bytes (ie_key_len e) @ ie_key e @ u32_to_le_bytes (block_handle e)
      in if entry_len \<noteq> length entry_vec then Err (Serialization ''Invalid entry size'') else Ok entry_vec)"

definition index_write_to_file :: "filesys \<Rightarrow> Index \<Rightarrow> filesys res" where
  "index_write_to_file fs ix =
     fold_res (\<lambda>e fs. and_then (index_serialize_entry e) (\<lambda>serialized_input.
         file_write_all fs (ix_path ix) serialized_input))
       (ix_entries ix) fs"

definition index_get :: "platform \<Rightarrow> filesys \<Rightarrow> Index \<Rightarrow> Key \<Rightarrow> u32 option res" where
  "index_get P fs ix searched_key =
     and_then (node_bytes fs (ix_path ix)) (\<lambda>bs. get_from_index P bs searched_key)"

section \<open>Blocks as parts of a data file\<close>

definition block_entry_of :: "Key \<times> SkipMapValue \<Rightarrow> BlockEntry" where
  "block_entry_of = (\<lambda>(k, v). \<lparr>key_prefix = word_of_nat (length k), be_key = k,
     be_value_offset = word_of_nat (sv_offset v), creation_date = sv_created_at v,
     be_is_tombstone = sv_is_tombstone v\<rparr>)"

lemma block_serialize_ok: "block_serialize (block_entry_of e) = Ok (data_bytes (data_record_of e))"
  by (cases e) (simp add: block_serialize_def block_entry_of_def data_bytes_def data_record_of_def
      millis_to_le_bytes_def constants codec)

lemma length_data_bytes: "length (data_bytes (data_record_of (k, v))) = length k + 17"
  by (simp add: data_bytes_def data_record_of_def codec)

text \<open>A block with its entries, its size and its count in step, within the size limit.\<close>

definition block_wf :: "Block \<Rightarrow> (Key \<times> SkipMapValue) list \<Rightarrow> bool" where
  "block_wf b es \<longleftrightarrow> bl_entries b = map block_entry_of es \<and> bl_size b = length (data_file_of es)
     \<and> entry_count b = length es \<and> bl_size b \<le> BLOCK_SIZE"

lemma block_new_wf: "block_wf block_new []"
  by (simp add: block_wf_def block_new_def)

lemma set_entry_wf:
  assumes "block_wf b es"
  shows "set_entry b (word_of_nat (length k)) k (word_of_nat (sv_offset v)) (sv_created_at v) (sv_is_tombstone v)
    = (if BLOCK_SIZE < bl_size b + (length k + 17) then Err BlockIsFull
       else Ok \<lparr>bl_entries = map block_entry_of (es @ [(k, v)]),
                bl_size = length (data_file_of (es @ [(k, v)])), entry_count = length es + 1\<rparr>)"
  using assms length_data_bytes [of k v]
  by (simp add: set_entry_def block_is_full_def block_wf_def constants data_file_of_def block_entry_of_def
      algebra_simps)

lemma file_writes:
  assumes "files fs p = Some bs" and "\<forall>x \<in> set xs. ser x = Ok (out x)"
  shows "fold_res (\<lambda>x fs. and_then (ser x) (\<lambda>d. file_write_all fs p d)) xs fs =
    Ok (with_file fs p (bs @ concat (map out xs)))"
  using assms
  by (induction xs arbitrary: fs bs) (simp_all add: file_write_all_with with_file_same)

lemma block_write_ok:
  assumes "files fs p = Some bs" and "block_wf b es"
  shows "block_write_to_file fs b p =
    Ok (with_file fs p (bs @ data_file_of es), length (data_file_of es))"
proof -
  have "fold_res (\<lambda>entry (fs, bytes_written).
         and_then (block_serialize entry) (\<lambda>serialized_entry.
         and_then (file_write_all fs p serialized_entry) (\<lambda>fs'.
           Ok (fs', bytes_written + length serialized_entry))))
       (map block_entry_of es) (fs, n) =
    Ok (with_file fs p (bs @ data_file_of es), n + length (data_file_of es))" for n
    using assms(1)
    by (induction es arbitrary: fs bs n)
      (simp_all add: file_write_all_with with_file_same block_serialize_ok data_file_of_def)
  with assms(2) show ?thesis
    by (simp add: block_write_to_file_def block_wf_def)
qed

section \<open>The index of a chunked data file\<close>

text \<open>The index of a data file that holds the blocks \<open>css\<close> from offset \<open>n\<close> on.\<close>

fun index_of :: "nat \<Rightarrow> (Key \<times> SkipMapValue) list list \<Rightarrow> index_record list" where
  "index_of n [] = []"
| "index_of n (c # cs) = (fst (last c), word_of_nat n) # index_of (n + length (data_file_of c)) cs"

lemma index_of_snoc:
  "index_of n (cs @ [c]) = index_of n cs @ [(fst (last c), word_of_nat (n + length (data_file_of (concat cs))))]"
  by (induction cs arbitrary: n) (auto simp: add.assoc)

lemma sorted_last:
  assumes "sm_sorted c" and "c \<noteq> []" and "e \<in> set c"
  shows "fst e \<le> fst (last c)"
  using assms by (induction c) (auto simp: sm_sorted_def intro: less_imp_le)

text \<open>The block the index gives for a key is the only one that can hold it: all earlier blocks end
  before the key, and if there is no such block then no block holds the key.\<close>

lemma index_of_find:
  assumes "sm_sorted (concat css)" and "\<forall>c \<in> set css. c \<noteq> []"
  shows "case find (\<lambda>(k, off). key \<le> k) (index_of n css) of
      None \<Rightarrow> map_of (concat css) key = None
    | Some (_, off) \<Rightarrow> \<exists>pre post. css = pre @ post \<and> off = word_of_nat (n + length (data_file_of (concat pre)))
        \<and> map_of (concat css) key = map_of (concat post) key"
  using assms
proof (induction css arbitrary: n)
  case (Cons c cs)
  have c: "sm_sorted c" "sm_sorted (concat cs)"
    using Cons.prems(1) by (auto simp: sm_sorted_def sorted_wrt_append)
  show ?case
  proof (cases "key \<le> fst (last c)")
    case True
    then show ?thesis
      by simp (rule exI [of _ "[]"], rule exI [of _ "c # cs"], simp)
  next
    case False
    have "map_of c key = None"
      using False sorted_last [OF c(1)] Cons.prems(2) by (force simp: map_of_eq_None_iff)
    then have m: "map_of (concat (c # cs)) key = map_of (concat cs) key"
      by (simp add: map_add_def)
    have IH: "case find (\<lambda>(k, off). key \<le> k) (index_of (n + length (data_file_of c)) cs) of
        None \<Rightarrow> map_of (concat cs) key = None
      | Some (_, off) \<Rightarrow> \<exists>pre post. cs = pre @ post
          \<and> off = word_of_nat (n + length (data_file_of c) + length (data_file_of (concat pre)))
          \<and> map_of (concat cs) key = map_of (concat post) key"
      using Cons.IH [OF c(2)] Cons.prems(2) by simp
    show ?thesis
    proof (cases "find (\<lambda>(k, off). key \<le> k) (index_of (n + length (data_file_of c)) cs)")
      case None
      with IH m False show ?thesis by simp
    next
      case (Some r)
      then obtain l off where r: "r = (l, off)" by force
      with IH Some obtain pre post where "cs = pre @ post"
        "off = word_of_nat (n + length (data_file_of c) + length (data_file_of (concat pre)))"
        "map_of (concat cs) key = map_of (concat post) key" by auto
      then have ex: "c # cs = (c # pre) @ post \<and>
          off = word_of_nat (n + length (data_file_of (concat (c # pre)))) \<and>
          map_of (concat (c # cs)) key = map_of (concat post) key"
        using m by (simp add: add.assoc)
      have f: "find (\<lambda>(k, off). key \<le> k) (index_of n (c # cs)) = Some (l, off)"
        using Some r False by simp
      show ?thesis
        unfolding f option.case prod.case using ex by (intro exI)
    qed
  qed
qed simp

end
