(* ===== verification/Bloom_Filter.thy ===== *)
theory Bloom_Filter
  imports File_Nodes
begin

text \<open>
  The bloom filter of \<^verbatim>\<open>src/filter/bf.rs\<close>. The bit vector is a list of booleans; its sizes are
  computed by the platform's floating point operations, as the code computes them. Indexing into
  an empty bit vector is a remainder by zero, which panics.

  The locale \<open>membership_filter\<close> is what the tables rely on: a key that was added is always found
  again. It is interpreted by the filter's own \<open>set\<close> and \<open>contains\<close>.
\<close>

section \<open>The filter\<close>

record BloomFilter =
  bf_sst_dir :: "path option"
  no_of_hash_func :: nat
  no_of_elements :: u32
  bit_vec :: "bool list"
  false_positive_rate :: f64
  bf_file_path :: "path option"

definition calculate_no_of_bits :: "platform \<Rightarrow> nat \<Rightarrow> f64 \<Rightarrow> u32" where
  "calculate_no_of_bits P elements rate =
     f64_to_u32 P (f64_neg P (f64_ceil P (f64_div P
       (f64_mul P (f64_of_nat P elements) (f64_ln P rate))
       (f64_powi P (f64_ln P (f64_of_nat P 2)) 2))))"

definition calculate_no_of_hash_function :: "platform \<Rightarrow> u32 \<Rightarrow> u32 \<Rightarrow> u32" where
  "calculate_no_of_hash_function P bits elements =
     f64_to_u32 P (f64_mul P
       (f64_div P (f64_of_nat P (unat bits)) (f64_of_nat P (unat elements)))
       (f64_ceil P (f64_ln P (f64_of_nat P 2))))"

definition bf_new :: "platform \<Rightarrow> f64 \<Rightarrow> nat \<Rightarrow> BloomFilter res" where
  "bf_new P rate elements =
     (if \<not> f64_ge P rate (f64_of_nat P 0) then Panic
      else if elements = 0 then Panic
      else let no_of_bits = calculate_no_of_bits P elements rate;
               hash_func = unat (calculate_no_of_hash_function P no_of_bits (word_of_nat elements))
           in Ok \<lparr>bf_sst_dir = None, no_of_hash_func = hash_func, no_of_elements = 0,
                  bit_vec = replicate (unat no_of_bits) False, false_positive_rate = rate,
                  bf_file_path = None\<rparr>)"

definition calculate_hash :: "platform \<Rightarrow> Key \<Rightarrow> nat \<Rightarrow> u64" where
  "calculate_hash P key seed = hash_of P key seed"

text \<open>\<^verbatim>\<open>(hash % bits.len() as u64) as usize\<close>.\<close>

definition bit_index :: "platform \<Rightarrow> bool list \<Rightarrow> Key \<Rightarrow> nat \<Rightarrow> nat res" where
  "bit_index P bits key i =
     (if bits = [] then Panic else Ok (unat (calculate_hash P key i) mod length bits))"

fun set_bits :: "platform \<Rightarrow> Key \<Rightarrow> nat list \<Rightarrow> bool list \<Rightarrow> bool list res" where
  "set_bits P key [] bits = Ok bits"
| "set_bits P key (i # is) bits =
     and_then (bit_index P bits key i) (\<lambda>index. set_bits P key is (bits[index := True]))"

definition bf_set :: "platform \<Rightarrow> BloomFilter \<Rightarrow> Key \<Rightarrow> BloomFilter res" where
  "bf_set P bf key =
     and_then (set_bits P key [0..<no_of_hash_func bf] (bit_vec bf)) (\<lambda>bits.
       Ok (bf\<lparr>bit_vec := bits, no_of_elements := no_of_elements bf + 1\<rparr>))"

fun test_bits :: "platform \<Rightarrow> Key \<Rightarrow> nat list \<Rightarrow> bool list \<Rightarrow> bool res" where
  "test_bits P key [] bits = Ok True"
| "test_bits P key (i # is) bits =
     and_then (bit_index P bits key i)
       (\<lambda>index. if \<not> bits ! index then Ok False else test_bits P key is bits)"

definition bf_contains :: "platform \<Rightarrow> BloomFilter \<Rightarrow> Key \<Rightarrow> bool res" where
  "bf_contains P bf key = test_bits P key [0..<no_of_hash_func bf] (bit_vec bf)"

definition bf_serialize :: "BloomFilter \<Rightarrow> bytes" where
  "bf_serialize bf =
     u32_to_le_bytes (word_of_nat (no_of_hash_func bf)) @ u32_to_le_bytes (no_of_elements bf)
       @ float_to_le_bytes (false_positive_rate bf)"

definition bf_write :: "filesys \<Rightarrow> BloomFilter \<Rightarrow> path \<Rightarrow> (filesys \<times> BloomFilter) res" where
  "bf_write fs bf dir =
     (let file_path = dir @ [FILTER_FILE]
      in case file_create fs file_path of
           Ok fs' \<Rightarrow> and_then (file_write_all fs' file_path (bf_serialize bf)) (\<lambda>fs''.
             Ok (fs'', bf\<lparr>bf_file_path := Some file_path\<rparr>))
         | _ \<Rightarrow> Panic)"

fun build_filter_from_entries :: "platform \<Rightarrow> BloomFilter \<Rightarrow> entries \<Rightarrow> BloomFilter res" where
  "build_filter_from_entries P bf [] = Ok bf"
| "build_filter_from_entries P bf ((k, v) # es) =
     and_then (bf_set P bf k) (\<lambda>bf'. build_filter_from_entries P bf' es)"

definition bf_recover_meta :: "platform \<Rightarrow> filesys \<Rightarrow> BloomFilter \<Rightarrow> BloomFilter res" where
  "bf_recover_meta P fs bf =
     (case bf_file_path bf of
        None \<Rightarrow> Err FilterFilePathNotProvided
      | Some p \<Rightarrow> and_then (filter_file_recover P fs p) (\<lambda>(false_pos, no_hash_func, no_elements).
          Ok (bf\<lparr>false_positive_rate := false_pos, no_of_hash_func := unat no_hash_func,
                 no_of_elements := no_elements,
                 bit_vec := replicate (unat (calculate_no_of_bits P (unat no_elements) false_pos)) False\<rparr>)))"

definition set_sstable_path :: "BloomFilter \<Rightarrow> path \<Rightarrow> BloomFilter" where
  "set_sstable_path bf p = bf\<lparr>bf_sst_dir := Some p\<rparr>"

text \<open>The receiver with its bits reset, and the fresh filter that is returned.\<close>

definition bf_clear :: "BloomFilter \<Rightarrow> BloomFilter \<times> BloomFilter" where
  "bf_clear bf =
     (let bits = replicate (length (bit_vec bf)) False
      in (bf\<lparr>bit_vec := bits\<rparr>,
          \<lparr>bf_sst_dir = None, no_of_hash_func = no_of_hash_func bf, no_of_elements = 0,
           bit_vec = bits, false_positive_rate = false_positive_rate bf, bf_file_path = None\<rparr>))"

definition num_elements :: "BloomFilter \<Rightarrow> nat" where
  "num_elements bf = unat (no_of_elements bf)"

definition num_bits :: "BloomFilter \<Rightarrow> nat" where
  "num_bits bf = length (bit_vec bf)"

definition get_sst_dir :: "BloomFilter \<Rightarrow> path res" where
  "get_sst_dir bf = unwrap (bf_sst_dir bf)"

definition bf_default :: BloomFilter where
  "bf_default = \<lparr>bf_sst_dir = None, no_of_hash_func = 0, no_of_elements = 0, bit_vec = [],
     false_positive_rate = 0, bf_file_path = None\<rparr>"

section \<open>The bits of a key\<close>

text \<open>A filter whose hash functions never take a remainder by zero.\<close>

definition bf_ok :: "BloomFilter \<Rightarrow> bool" where
  "bf_ok bf \<longleftrightarrow> bit_vec bf \<noteq> [] \<or> no_of_hash_func bf = 0"

definition key_bits :: "platform \<Rightarrow> nat \<Rightarrow> nat \<Rightarrow> Key \<Rightarrow> nat set" where
  "key_bits P hash_funcs len key = (\<lambda>i. unat (calculate_hash P key i) mod len) ` {0..<hash_funcs}"

lemma set_bits_ok:
  assumes "bits \<noteq> []"
  shows "\<exists>bits'. set_bits P key is bits = Ok bits' \<and> length bits' = length bits \<and>
    (\<forall>j < length bits. bits' ! j \<longleftrightarrow> bits ! j \<or> j \<in> (\<lambda>i. unat (calculate_hash P key i) mod length bits) ` set is)"
  using assms
proof (induction "is" arbitrary: bits)
  case (Cons i "is")
  let ?b = "bits[unat (calculate_hash P key i) mod length bits := True]"
  have "?b \<noteq> []" using Cons.prems by simp
  from Cons.IH [OF this] Cons.prems show ?case
    by (auto simp: bit_index_def nth_list_update)
qed simp

lemma test_bits_ok:
  assumes "bits \<noteq> []"
  shows "test_bits P key is bits = Ok (\<forall>i \<in> set is. bits ! (unat (calculate_hash P key i) mod length bits))"
  using assms by (induction "is") (auto simp: bit_index_def)

lemma bf_contains_iff:
  assumes "bf_ok bf"
  shows "bf_contains P bf key =
    Ok (\<forall>j \<in> key_bits P (no_of_hash_func bf) (length (bit_vec bf)) key. bit_vec bf ! j)"
  using assms by (cases "bit_vec bf = []")
    (auto simp: bf_contains_def bf_ok_def key_bits_def test_bits_ok)

lemma bf_set_ok:
  assumes "bf_ok bf"
  obtains bits where "bf_set P bf key = Ok (bf\<lparr>bit_vec := bits, no_of_elements := no_of_elements bf + 1\<rparr>)"
    and "length bits = length (bit_vec bf)"
    and "\<forall>j < length (bit_vec bf). bits ! j \<longleftrightarrow>
      bit_vec bf ! j \<or> j \<in> key_bits P (no_of_hash_func bf) (length (bit_vec bf)) key"
proof (cases "bit_vec bf = []")
  case True
  with assms show ?thesis
    by (intro that [of "[]"]) (simp_all add: bf_set_def bf_ok_def)
next
  case False
  from set_bits_ok [OF this, of P key "[0..<no_of_hash_func bf]"] show ?thesis
    by (auto simp: bf_set_def key_bits_def intro: that)
qed

lemma key_bits_less: "j \<in> key_bits P k n key \<Longrightarrow> 0 < n \<Longrightarrow> j < n"
  by (auto simp: key_bits_def)

section \<open>The contract of a filter\<close>

locale membership_filter =
  fixes add :: "'f \<Rightarrow> Key \<Rightarrow> 'f res"
    and has :: "'f \<Rightarrow> Key \<Rightarrow> bool res"
    and inv :: "'f \<Rightarrow> bool"
  assumes has_total: "inv f \<Longrightarrow> \<exists>b. has f k = Ok b"
    and add_total: "inv f \<Longrightarrow> \<exists>f'. add f k = Ok f'"
    and add_inv: "inv f \<Longrightarrow> add f k = Ok f' \<Longrightarrow> inv f'"
    and add_has: "inv f \<Longrightarrow> add f k = Ok f' \<Longrightarrow> has f' k = Ok True"
    and add_keeps: "inv f \<Longrightarrow> add f k = Ok f' \<Longrightarrow> has f k' = Ok True \<Longrightarrow> has f' k' = Ok True"
begin

text \<open>Adding the key unless it is already found.\<close>

lemma add_unless_has:
  assumes "inv f"
  obtains f' where "and_then (has f k) (\<lambda>b. if b then Ok f else add f k) = Ok f'"
    and "inv f'" and "has f' k = Ok True" and "\<And>k'. has f k' = Ok True \<Longrightarrow> has f' k' = Ok True"
proof -
  from has_total [OF assms] obtain b where b: "has f k = Ok b" by blast
  from add_total [OF assms] obtain g where g: "add f k = Ok g" by blast
  show ?thesis
  proof (cases b)
    case True
    with b assms show ?thesis by (intro that [of f]) auto
  next
    case False
    with b g show ?thesis
      by (intro that [of g]) (auto intro: add_inv [OF assms] add_has [OF assms] add_keeps [OF assms])
  qed
qed

end

lemma bf_set_effect:
  assumes "bf_ok bf" and "bf_set P bf key = Ok bf'"
  shows "no_of_hash_func bf' = no_of_hash_func bf \<and> length (bit_vec bf') = length (bit_vec bf)
    \<and> no_of_elements bf' = no_of_elements bf + 1
    \<and> (\<forall>j < length (bit_vec bf). bit_vec bf' ! j \<longleftrightarrow>
      bit_vec bf ! j \<or> j \<in> key_bits P (no_of_hash_func bf) (length (bit_vec bf)) key)"
proof -
  obtain bits where "bf_set P bf key = Ok (bf\<lparr>bit_vec := bits, no_of_elements := no_of_elements bf + 1\<rparr>)"
    and "length bits = length (bit_vec bf)"
    and "\<forall>j < length (bit_vec bf). bits ! j \<longleftrightarrow>
      bit_vec bf ! j \<or> j \<in> key_bits P (no_of_hash_func bf) (length (bit_vec bf)) key"
    using bf_set_ok [OF assms(1)] by metis
  with assms(2) show ?thesis by auto
qed

lemma bf_set_bf_ok: "bf_ok bf \<Longrightarrow> bf_set P bf key = Ok bf' \<Longrightarrow> bf_ok bf'"
  using bf_set_effect [of bf P key bf'] by (auto simp: bf_ok_def)

lemma key_bits_in_range:
  "bf_ok bf \<Longrightarrow> j \<in> key_bits P (no_of_hash_func bf) (length (bit_vec bf)) key \<Longrightarrow> j < length (bit_vec bf)"
  by (cases "bit_vec bf = []") (auto simp: bf_ok_def key_bits_def)

interpretation bloom: membership_filter "bf_set P" "bf_contains P" bf_ok for P
proof unfold_locales
  fix f :: BloomFilter and k :: Key and f' :: BloomFilter and k' :: Key
  assume f: "bf_ok f"
  show "\<exists>b. bf_contains P f k = Ok b"
    using f by (simp add: bf_contains_iff)
  show "\<exists>f'. bf_set P f k = Ok f'"
    using bf_set_ok [OF f] by metis
  assume f': "bf_set P f k = Ok f'"
  note eff = bf_set_effect [OF f f'] and ok = bf_set_bf_ok [OF f f']
  show "bf_ok f'" by (rule ok)
  show "bf_contains P f' k = Ok True"
    using eff key_bits_in_range [OF f] by (simp add: bf_contains_iff [OF ok])
  assume "bf_contains P f k' = Ok True"
  then show "bf_contains P f' k' = Ok True"
    using eff key_bits_in_range [OF f] by (simp add: bf_contains_iff [OF ok] bf_contains_iff [OF f])
qed

section \<open>Filters built, written and recovered\<close>

text \<open>Building a filter from a table's entries never fails and finds every key of the table,
  and every key that the filter found before.\<close>

lemma build_filter_complete:
  assumes "bf_ok bf"
  shows "\<exists>bf'. build_filter_from_entries P bf es = Ok bf' \<and> bf_ok bf' \<and>
    (\<forall>k. k \<in> fst ` set es \<or> bf_contains P bf k = Ok True \<longrightarrow> bf_contains P bf' k = Ok True)"
  using assms
proof (induction es arbitrary: bf)
  case (Cons e es)
  obtain k v where e: "e = (k, v)" by force
  obtain f where f: "bf_set P bf k = Ok f"
    using bloom.add_total [OF Cons.prems] by blast
  from Cons.IH [OF bloom.add_inv [OF Cons.prems f]] obtain g where
    g: "build_filter_from_entries P f es = Ok g" "bf_ok g"
    "\<forall>k. k \<in> fst ` set es \<or> bf_contains P f k = Ok True \<longrightarrow> bf_contains P g k = Ok True"
    by blast
  then show ?case
    using bloom.add_has [OF Cons.prems f] bloom.add_keeps [OF Cons.prems f] f by (auto simp: e)
qed simp

lemma build_filter_sst_dir: "build_filter_from_entries P bf es = Ok bf' \<Longrightarrow> bf_sst_dir bf' = bf_sst_dir bf"
  by (induction es arbitrary: bf) (auto simp: bf_set_def)

lemma bf_new_ok:
  assumes "bf_new P rate n = Ok bf" and "calculate_no_of_bits P n rate \<noteq> 0"
  shows "bf_ok bf"
  using assms by (auto simp: bf_new_def bf_ok_def Let_def unsigned_eq_0_iff split: if_splits)

lemma bf_write_fresh:
  assumes "files fs (dir @ [FILTER_FILE]) = None" and "dirs fs dir"
  shows "bf_write fs bf dir =
    Ok (fs\<lparr>files := (files fs)(dir @ [FILTER_FILE] \<mapsto> bf_serialize bf)\<rparr>,
        bf\<lparr>bf_file_path := Some (dir @ [FILTER_FILE])\<rparr>)"
  using assms by (simp add: bf_write_def file_create_def file_write_all_def Let_def)

lemma filter_file_recover_serialized:
  assumes "files fs p = Some (bf_serialize bf)" and "8 \<le> max_read P" and "no_of_hash_func bf < 2 ^ 32"
  shows "filter_file_recover P fs p =
    Ok (false_positive_rate bf, word_of_nat (no_of_hash_func bf), no_of_elements bf)"
proof -
  have "load_field P SIZE_OF_U64 (float_to_le_bytes r) = Ok (float_to_le_bytes r, 8, [])" for r
    using load_field_append [of "float_to_le_bytes r" 8 P "[]"] assms(2)
    by (simp add: float_to_le_bytes_def SIZE_OF_U64_def codec)
  then show ?thesis
    using assms by (simp add: filter_file_recover_def open_small_file_def file_open_def bf_serialize_def
        codec float_roundtrip)
qed

text \<open>A small filter, for examples.\<close>

definition sample_filter :: BloomFilter where
  "sample_filter = \<lparr>bf_sst_dir = None, no_of_hash_func = 3, no_of_elements = 2,
     bit_vec = replicate 8 False, false_positive_rate = 4, bf_file_path = None\<rparr>"



end
