(* ===== verification/Mem_Table.thy ===== *)
theory Mem_Table
  imports Bloom_Filter
begin

text \<open>
  The memtable of \<^verbatim>\<open>src/memtable/mem.rs\<close>: a skip map with a bloom filter in front of it. Calls of
  \<^verbatim>\<open>Utc::now()\<close> are arguments. The locale \<open>write_buffer\<close> is the contract the store and its recovery
  rely on (an insert is visible, and hides nothing else); the memtable interprets it.
\<close>

section \<open>The memtable\<close>

record UserEntry =
  ue_val :: Value
  ue_created_at :: datetime

record Config =
  false_pos_rate :: f64
  cfg_capacity :: nat
  cfg_size_unit :: SizeUnit

record MemTable =
  mt_entries :: entries
  mt_bloom_filter :: BloomFilter
  mt_size :: nat
  mt_created_at :: datetime
  read_only :: bool
  most_recent_entry :: Entry
  mt_config :: Config

definition SkipMapValue_new :: "ValOffset \<Rightarrow> datetime \<Rightarrow> bool \<Rightarrow> SkipMapValue" where
  "SkipMapValue_new offset created tomb =
     \<lparr>sv_offset = offset, sv_created_at = created, sv_is_tombstone = tomb\<rparr>"

definition Entry_new :: "Key \<Rightarrow> ValOffset \<Rightarrow> datetime \<Rightarrow> bool \<Rightarrow> Entry" where
  "Entry_new key offset created tomb =
     \<lparr>e_key = key, e_offset = offset, e_created_at = created, e_is_tombstone = tomb\<rparr>"

text \<open>The sum is 64-bit; \<open>ttl\<close> is the duration in milliseconds.\<close>

definition has_expired :: "datetime \<Rightarrow> Entry \<Rightarrow> u64 \<Rightarrow> bool" where
  "has_expired now e ttl \<longleftrightarrow>
     word_of_int (timestamp_millis (e_created_at e)) + ttl < (word_of_int (timestamp_millis now) :: u64)"

definition with_specified_capacity_and_rate ::
  "platform \<Rightarrow> datetime \<Rightarrow> datetime \<Rightarrow> SizeUnit \<Rightarrow> nat \<Rightarrow> f64 \<Rightarrow> MemTable res" where
  "with_specified_capacity_and_rate P now now' size_unit capacity rate =
     (if \<not> f64_ge P rate (f64_of_nat P 0) then Panic
      else if capacity = 0 then Panic
      else let capacity_to_bytes = as_bytes size_unit capacity;
               avg_entry_size = 100;
               max_no_of_entries = capacity_to_bytes div avg_entry_size
           in and_then (bf_new P rate max_no_of_entries) (\<lambda>bf.
             Ok \<lparr>mt_entries = [], mt_bloom_filter = bf, mt_size = 0, mt_created_at = now,
                 read_only = False, most_recent_entry = Entry_new [] 0 now' False,
                 mt_config = \<lparr>false_pos_rate = rate, cfg_capacity = capacity,
                              cfg_size_unit = size_unit\<rparr>\<rparr>))"

definition mt_new :: "platform \<Rightarrow> datetime \<Rightarrow> datetime \<Rightarrow> nat \<Rightarrow> f64 \<Rightarrow> MemTable res" where
  "mt_new P now now' capacity rate = with_specified_capacity_and_rate P now now' Bytes capacity rate"

definition mt_insert :: "platform \<Rightarrow> MemTable \<Rightarrow> Entry \<Rightarrow> MemTable res" where
  "mt_insert P mt entry =
     (let entry_length_byte = length (e_key entry) + SIZE_OF_U32 + SIZE_OF_U64 + SIZE_OF_U8
      in and_then (and_then (bf_contains P (mt_bloom_filter mt) (e_key entry))
           (\<lambda>b. if b then Ok (mt_bloom_filter mt)
                else bf_set P (mt_bloom_filter mt) (e_key entry))) (\<lambda>bf.
         Ok (mt\<lparr>mt_bloom_filter := bf,
               mt_entries := sm_insert (e_key entry)
                 (SkipMapValue_new (e_offset entry) (e_created_at entry) (e_is_tombstone entry))
                 (mt_entries mt),
               most_recent_entry :=
                 (if e_offset (most_recent_entry mt) < e_offset entry then entry
                  else most_recent_entry mt),
               mt_size := mt_size mt + entry_length_byte\<rparr>)))"

definition mt_get :: "platform \<Rightarrow> MemTable \<Rightarrow> Key \<Rightarrow> SkipMapValue option res" where
  "mt_get P mt key =
     and_then (bf_contains P (mt_bloom_filter mt) key)
       (\<lambda>b. Ok (if b then sm_get (mt_entries mt) key else None))"

definition mt_update :: "platform \<Rightarrow> MemTable \<Rightarrow> Entry \<Rightarrow> MemTable res" where
  "mt_update P mt entry =
     and_then (bf_contains P (mt_bloom_filter mt) (e_key entry)) (\<lambda>b.
       if \<not> b then Err KeyNotFoundInMemTable
       else Ok (mt\<lparr>mt_entries := sm_insert (e_key entry)
              (SkipMapValue_new (e_offset entry) (e_created_at entry) (e_is_tombstone entry))
              (mt_entries mt)\<rparr>))"

definition get_most_recent_offset :: "MemTable \<Rightarrow> nat" where
  "get_most_recent_offset mt = e_offset (most_recent_entry mt)"

text \<open>The characters that \<^verbatim>\<open>Alphanumeric\<close> draws are an argument.\<close>

definition generate_table_id :: "bytes \<Rightarrow> bytes" where
  "generate_table_id drawn = take 5 drawn"

definition mt_delete :: "platform \<Rightarrow> datetime \<Rightarrow> MemTable \<Rightarrow> Entry \<Rightarrow> MemTable res" where
  "mt_delete P now mt entry =
     and_then (bf_contains P (mt_bloom_filter mt) (e_key entry)) (\<lambda>b.
       if \<not> b then Err KeyNotFoundInMemTable
       else Ok (mt\<lparr>mt_entries := sm_insert (e_key entry)
              (SkipMapValue_new (e_offset entry) now (e_is_tombstone entry))
              (mt_entries mt)\<rparr>))"

definition mt_capacity :: "MemTable \<Rightarrow> nat" where
  "mt_capacity mt = cfg_capacity (mt_config mt)"

definition is_full :: "MemTable \<Rightarrow> nat \<Rightarrow> bool" where
  "is_full mt key_len \<longleftrightarrow>
     mt_capacity mt \<le> mt_size mt + key_len + SIZE_OF_U32 + SIZE_OF_U64 + SIZE_OF_U8"

definition mark_readonly :: "MemTable \<Rightarrow> MemTable" where
  "mark_readonly mt = mt\<lparr>read_only := True\<rparr>"

definition is_entry_within_range :: "Key \<Rightarrow> Key \<Rightarrow> Key \<Rightarrow> bool" where
  "is_entry_within_range key start end_key \<longleftrightarrow>
     start < key \<or> key = start \<or> key < end_key \<or> key = end_key"

definition mt_clear :: "platform \<Rightarrow> MemTable \<Rightarrow> MemTable res" where
  "mt_clear P mt =
     (let config = mt_config mt;
          capacity_to_bytes = as_bytes (cfg_size_unit config) (cfg_capacity config);
          avg_entry_size = 100;
          max_no_of_entries = capacity_to_bytes div avg_entry_size
      in and_then (bf_new P (false_pos_rate config) max_no_of_entries) (\<lambda>bf.
           Ok (mt\<lparr>mt_entries := [], mt_size := 0, mt_bloom_filter := bf\<rparr>)))"

section \<open>The invariant of a memtable\<close>

text \<open>The skip map is ordered and the filter finds each of its keys.\<close>

definition mt_wf :: "platform \<Rightarrow> MemTable \<Rightarrow> bool" where
  "mt_wf P mt \<longleftrightarrow> sm_sorted (mt_entries mt) \<and> bf_ok (mt_bloom_filter mt)
     \<and> (\<forall>k \<in> fst ` set (mt_entries mt). bf_contains P (mt_bloom_filter mt) k = Ok True)"

definition entry_value :: "Entry \<Rightarrow> SkipMapValue" where
  "entry_value e = SkipMapValue_new (e_offset e) (e_created_at e) (e_is_tombstone e)"

lemma mt_get_eq:
  assumes "mt_wf P mt"
  shows "mt_get P mt k = Ok (sm_get (mt_entries mt) k)"
proof -
  obtain b where b: "bf_contains P (mt_bloom_filter mt) k = Ok b"
    using assms bloom.has_total [of "mt_bloom_filter mt" P k] by (auto simp: mt_wf_def)
  moreover have "sm_get (mt_entries mt) k = None" if "\<not> b"
    using assms that b sm_get_in_set [of "mt_entries mt" k]
    by (cases "sm_get (mt_entries mt) k") (force simp: mt_wf_def)+
  ultimately show ?thesis by (auto simp: mt_get_def)
qed

lemma mt_insert_ok:
  assumes "mt_wf P mt"
  obtains bf where "mt_insert P mt e = Ok (mt\<lparr>mt_bloom_filter := bf,
      mt_entries := sm_insert (e_key e) (entry_value e) (mt_entries mt),
      most_recent_entry := (if e_offset (most_recent_entry mt) < e_offset e then e else most_recent_entry mt),
      mt_size := mt_size mt + (length (e_key e) + 13)\<rparr>)"
    and "bf_ok bf" and "bf_contains P bf (e_key e) = Ok True"
    and "\<forall>k. bf_contains P (mt_bloom_filter mt) k = Ok True \<longrightarrow> bf_contains P bf k = Ok True"
proof -
  have "bf_ok (mt_bloom_filter mt)"
    using assms by (simp add: mt_wf_def)
  from bloom.add_unless_has [OF this, of P "e_key e"] obtain bf where
    "and_then (bf_contains P (mt_bloom_filter mt) (e_key e))
       (\<lambda>b. if b then Ok (mt_bloom_filter mt) else bf_set P (mt_bloom_filter mt) (e_key e)) = Ok bf"
    "bf_ok bf" "bf_contains P bf (e_key e) = Ok True"
    "\<And>k. bf_contains P (mt_bloom_filter mt) k = Ok True \<Longrightarrow> bf_contains P bf k = Ok True"
    by metis
  then show ?thesis
    by (intro that [of bf])
      (simp_all add: mt_insert_def entry_value_def SIZE_OF_U32_def SIZE_OF_U64_def SIZE_OF_U8_def
        del: and_then_eq_Ok)
qed

lemma sm_insert_key_set: "fst ` set (sm_insert k v m) = insert k (fst ` set m)"
  using sm_insert_keys [of k v m] by simp

lemma mt_insert_effect:
  assumes "mt_wf P mt" and "mt_insert P mt e = Ok mt'"
  shows "mt_wf P mt'"
    and "mt_entries mt' = sm_insert (e_key e) (entry_value e) (mt_entries mt)"
    and "mt_size mt' = mt_size mt + (length (e_key e) + 13)"
    and "get_most_recent_offset mt' = max (get_most_recent_offset mt) (e_offset e)"
    and "mt_config mt' = mt_config mt" and "read_only mt' = read_only mt"
    and "mt_created_at mt' = mt_created_at mt"
proof -
  obtain bf where bf: "mt_insert P mt e = Ok (mt\<lparr>mt_bloom_filter := bf,
      mt_entries := sm_insert (e_key e) (entry_value e) (mt_entries mt),
      most_recent_entry := (if e_offset (most_recent_entry mt) < e_offset e then e else most_recent_entry mt),
      mt_size := mt_size mt + (length (e_key e) + 13)\<rparr>)"
    "bf_ok bf" "bf_contains P bf (e_key e) = Ok True"
    "\<forall>k. bf_contains P (mt_bloom_filter mt) k = Ok True \<longrightarrow> bf_contains P bf k = Ok True"
    by (rule mt_insert_ok [OF assms(1)])
  note mt' = bf(1) [unfolded assms(2), simplified]
  have "\<forall>k \<in> insert (e_key e) (fst ` set (mt_entries mt)). bf_contains P bf k = Ok True"
    using assms(1) bf(3,4) by (simp add: mt_wf_def)
  then show "mt_wf P mt'"
    using assms(1) bf(2) unfolding mt_wf_def
    by (simp add: mt' sm_insert_sorted sm_insert_key_set del: ball_simps)
  show "mt_entries mt' = sm_insert (e_key e) (entry_value e) (mt_entries mt)"
    "mt_size mt' = mt_size mt + (length (e_key e) + 13)"
    "get_most_recent_offset mt' = max (get_most_recent_offset mt) (e_offset e)"
    "mt_config mt' = mt_config mt" "read_only mt' = read_only mt"
    "mt_created_at mt' = mt_created_at mt"
    by (simp_all add: mt' get_most_recent_offset_def)
qed

section \<open>The contract of a write buffer\<close>

text \<open>The last entry a list has for a key.\<close>

definition latest :: "Entry list \<Rightarrow> Key \<Rightarrow> Entry option" where
  "latest es k = find (\<lambda>e. e_key e = k) (rev es)"

lemma latest_Nil [simp]: "latest [] k = None"
  by (simp add: latest_def)

lemma find_append: "find Q (xs @ ys) = (case find Q xs of None \<Rightarrow> find Q ys | Some x \<Rightarrow> Some x)"
  by (induction xs) auto

lemma latest_Cons: "latest (e # es) k =
    (case latest es k of None \<Rightarrow> if e_key e = k then Some e else None | Some x \<Rightarrow> Some x)"
  by (simp add: latest_def find_append split: option.split)

lemma latest_snoc [simp]: "latest (es @ [e]) k = (if e_key e = k then Some e else latest es k)"
  by (simp add: latest_def)

locale write_buffer =
  fixes ins :: "'t \<Rightarrow> Entry \<Rightarrow> 't res"
    and get :: "'t \<Rightarrow> Key \<Rightarrow> SkipMapValue option res"
    and inv :: "'t \<Rightarrow> bool"
  assumes ins_total: "inv t \<Longrightarrow> \<exists>t'. ins t e = Ok t'"
    and ins_inv: "inv t \<Longrightarrow> ins t e = Ok t' \<Longrightarrow> inv t'"
    and get_ins: "inv t \<Longrightarrow> ins t e = Ok t' \<Longrightarrow>
      get t' k = (if k = e_key e then Ok (Some (entry_value e)) else get t k)"
begin

lemma replay:
  assumes "inv t"
  shows "\<exists>t'. fold_res (\<lambda>e t. ins t e) es t = Ok t' \<and> inv t'
    \<and> (\<forall>k. get t' k = (case latest es k of Some e \<Rightarrow> Ok (Some (entry_value e)) | None \<Rightarrow> get t k))"
  using assms
proof (induction es arbitrary: t)
  case (Cons e es)
  obtain t1 where t1: "ins t e = Ok t1"
    using ins_total [OF Cons.prems] by blast
  from Cons.IH [OF ins_inv [OF Cons.prems t1]] obtain t' where
    "fold_res (\<lambda>e t. ins t e) es t1 = Ok t'" "inv t'"
    "\<forall>k. get t' k = (case latest es k of Some e \<Rightarrow> Ok (Some (entry_value e)) | None \<Rightarrow> get t1 k)"
    by blast
  then show ?case
    using t1 get_ins [OF Cons.prems t1] by (auto simp: latest_Cons split: option.splits)
qed simp

end

interpretation mem: write_buffer "mt_insert P" "mt_get P" "mt_wf P" for P
proof unfold_locales
  fix t t' :: MemTable and e :: Entry and k :: Key
  assume t: "mt_wf P t"
  show "\<exists>t'. mt_insert P t e = Ok t'"
    by (rule mt_insert_ok [OF t, of e]) auto
  assume t': "mt_insert P t e = Ok t'"
  show "mt_wf P t'"
    by (rule mt_insert_effect [OF t t'])
  then show "mt_get P t' k = (if k = e_key e then Ok (Some (entry_value e)) else mt_get P t k)"
    using t by (auto simp: mt_get_eq mt_insert_effect [OF t t'] sm_insert_get mt_wf_def)
qed

section \<open>The memtable as a map\<close>

lemma mt_new_wf:
  assumes "with_specified_capacity_and_rate P now now' u capacity rate = Ok mt"
    and "calculate_no_of_bits P (as_bytes u capacity div 100) rate \<noteq> 0"
  shows "mt_wf P mt \<and> mt_entries mt = [] \<and> mt_size mt = 0 \<and> get_most_recent_offset mt = 0
    \<and> \<not> read_only mt \<and> mt_capacity mt = capacity"
  using assms
  by (auto simp: with_specified_capacity_and_rate_def mt_wf_def sm_sorted_def Entry_new_def Let_def
      get_most_recent_offset_def mt_capacity_def dest: bf_new_ok split: if_splits)

lemma mt_inserts_counters:
  assumes "mt_wf P mt" and "fold_res (\<lambda>e t. mt_insert P t e) es mt = Ok mt'"
  shows "mt_size mt' = mt_size mt + sum_list (map (\<lambda>e. length (e_key e) + 13) es)
    \<and> get_most_recent_offset mt' = fold (\<lambda>e. max (e_offset e)) es (get_most_recent_offset mt)
    \<and> mt_config mt' = mt_config mt"
  using assms
proof (induction es arbitrary: mt)
  case (Cons e es)
  then obtain t where t: "mt_insert P mt e = Ok t" "fold_res (\<lambda>e t. mt_insert P t e) es t = Ok mt'"
    by auto
  note eff = mt_insert_effect [OF Cons.prems(1) t(1)]
  from Cons.IH [OF eff(1) t(2)] show ?case
    by (simp add: eff max.commute)
qed simp

text \<open>C9. From a new memtable, any sequence of inserts succeeds; afterwards a get of any key returns
  exactly the last entry inserted for it (the filter never hides one), the size counts every
  inserted entry, overwritten or not, and the most recent offset is the largest one inserted.\<close>

theorem memtable_insert_get:
  assumes "with_specified_capacity_and_rate P now now' u capacity rate = Ok mt"
    and "calculate_no_of_bits P (as_bytes u capacity div 100) rate \<noteq> 0"
  shows "\<exists>mt'. fold_res (\<lambda>e t. mt_insert P t e) es mt = Ok mt' \<and> mt_wf P mt'
    \<and> (\<forall>k. mt_get P mt' k = Ok (map_option entry_value (latest es k)))
    \<and> mt_size mt' = sum_list (map (\<lambda>e. length (e_key e) + 13) es)
    \<and> get_most_recent_offset mt' = fold (\<lambda>e. max (e_offset e)) es 0"
proof -
  note new = mt_new_wf [OF assms]
  obtain mt' where mt': "fold_res (\<lambda>e t. mt_insert P t e) es mt = Ok mt'" "mt_wf P mt'"
    "\<forall>k. mt_get P mt' k = (case latest es k of Some e \<Rightarrow> Ok (Some (entry_value e)) | None \<Rightarrow> mt_get P mt k)"
    using mem.replay [of P mt es] new by blast
  moreover have "mt_get P mt k = Ok None" for k
    using new by (simp add: mt_get_eq)
  ultimately show ?thesis
    using mt_inserts_counters [of P mt es mt'] new by (auto split: option.split)
qed

definition sample_entry :: "Key \<Rightarrow> nat \<Rightarrow> Entry" where
  "sample_entry k n = Entry_new k n (1000000 * int n) False"

theorem memtable_insert_get_witness:
  "\<exists>mt mt'. with_specified_capacity_and_rate sample_platform 0 0 Kilobytes 1 4 = Ok mt
    \<and> fold_res (\<lambda>e t. mt_insert sample_platform t e)
        [sample_entry [1] 40, sample_entry [2] 7, sample_entry [1] 9] mt = Ok mt'
    \<and> mt_get sample_platform mt' [1] = Ok (Some (entry_value (sample_entry [1] 9)))
    \<and> mt_get sample_platform mt' [3] = Ok None \<and> mt_size mt' = 42 \<and> get_most_recent_offset mt' = 40"
proof -
  obtain mt where mt: "with_specified_capacity_and_rate sample_platform 0 0 Kilobytes 1 4 = Ok mt"
    by (simp add: with_specified_capacity_and_rate_def sample_platform_def bf_new_def Let_def constants)
  have bits: "calculate_no_of_bits sample_platform (as_bytes Kilobytes 1 div 100) 4 \<noteq> 0"
    by (simp add: calculate_no_of_bits_def sample_platform_def constants)
  from memtable_insert_get [OF mt bits, of "[sample_entry [1] 40, sample_entry [2] 7, sample_entry [1] 9]"]
  show ?thesis
    using mt by (force simp: latest_def sample_entry_def Entry_new_def)
qed

text \<open>C10. An update (the same holds of a delete, which stamps the entry with the current time) fails
  with \<open>KeyNotFoundInMemTable\<close> only on a key the table does not hold; when it succeeds it keeps the
  invariant and changes the value of that key alone. Neither counts in the table's size.\<close>

theorem memtable_update_delete:
  assumes "mt_wf P mt"
  shows "mt_update P mt e = Err KeyNotFoundInMemTable \<and> mt_delete P now mt e = Err KeyNotFoundInMemTable
      \<and> mt_get P mt (e_key e) = Ok None
    \<or> (\<exists>upd del. mt_update P mt e = Ok upd \<and> mt_delete P now mt e = Ok del
      \<and> mt_wf P upd \<and> mt_wf P del \<and> mt_size upd = mt_size mt \<and> mt_size del = mt_size mt
      \<and> (\<forall>k. mt_get P upd k = (if k = e_key e then Ok (Some (entry_value e)) else mt_get P mt k))
      \<and> (\<forall>k. mt_get P del k =
          (if k = e_key e then Ok (Some (entry_value (e\<lparr>e_created_at := now\<rparr>))) else mt_get P mt k)))"
proof -
  have ok: "bf_ok (mt_bloom_filter mt)" using assms by (simp add: mt_wf_def)
  obtain b where b: "bf_contains P (mt_bloom_filter mt) (e_key e) = Ok b"
    using bloom.has_total [OF ok] by blast
  show ?thesis
  proof (cases b)
    case False
    with b show ?thesis by (simp add: mt_update_def mt_delete_def mt_get_def)
  next
    case True
    have wf: "mt_wf P (mt\<lparr>mt_entries := sm_insert (e_key e) v (mt_entries mt)\<rparr>)" for v
      using assms b True
      by (simp add: mt_wf_def sm_insert_sorted sm_insert_key_set del: ball_simps) blast
    with b True assms show ?thesis
      by (auto simp: mt_update_def mt_delete_def mt_get_eq sm_insert_get mt_wf_def entry_value_def)
  qed
qed

theorem memtable_update_delete_witness:
  "\<exists>mt. with_specified_capacity_and_rate sample_platform 0 0 Kilobytes 1 4 = Ok mt
    \<and> mt_update sample_platform mt (sample_entry [1] 9) = Err KeyNotFoundInMemTable
    \<and> mt_get sample_platform mt [1] = Ok None"
proof -
  let ?mt = "\<lparr>mt_entries = [], mt_bloom_filter = \<lparr>bf_sst_dir = None, no_of_hash_func = 4, no_of_elements = 0,
      bit_vec = replicate 20 False, false_positive_rate = 4, bf_file_path = None\<rparr>, mt_size = 0,
      mt_created_at = 0, read_only = False, most_recent_entry = Entry_new [] 0 0 False,
      mt_config = \<lparr>false_pos_rate = 4, cfg_capacity = 1, cfg_size_unit = Kilobytes\<rparr>\<rparr>"
  have mt: "with_specified_capacity_and_rate sample_platform 0 0 Kilobytes 1 4 = Ok ?mt"
    by (simp add: with_specified_capacity_and_rate_def sample_platform_def bf_new_def Let_def constants
        calculate_no_of_bits_def calculate_no_of_hash_function_def)
  have wf: "mt_wf sample_platform ?mt"
    by (simp add: mt_wf_def sm_sorted_def bf_ok_def)
  have "bf_contains sample_platform (mt_bloom_filter ?mt) [1] = Ok False"
    by (simp add: bf_contains_def upt_conv_Cons bit_index_def calculate_hash_def sample_platform_def)
  then have "mt_update sample_platform ?mt (sample_entry [1] 9) = Err KeyNotFoundInMemTable"
    by (simp add: mt_update_def sample_entry_def Entry_new_def)
  then show ?thesis
    using mt memtable_update_delete [OF wf, of "sample_entry [1] 9" 0]
    by (auto simp: sample_entry_def Entry_new_def)
qed

end
