(* ===== verification/SS_Table.thy ===== *)
theory SS_Table
  imports Block_Index Mem_Table
begin

text \<open>
  The sorted string table of \<^verbatim>\<open>src/sst/table.rs\<close>: its files, how it is written block by block with
  its index, filter and summary, and how a key is looked up again through the index. The effects
  of a failed write on the file system are not tracked: an error carries no state.
\<close>

section \<open>The summary\<close>

record Summary =
  sum_path :: path
  smallest_key :: Key
  biggest_key :: Key

definition summary_new :: "path \<Rightarrow> Summary" where
  "summary_new dir = \<lparr>sum_path = dir @ [SUMMARY_FILE], smallest_key = [], biggest_key = []\<rparr>"

definition summary_serialize :: "Summary \<Rightarrow> bytes" where
  "summary_serialize s =
     u32_to_le_bytes (word_of_nat (length (smallest_key s)))
       @ u32_to_le_bytes (word_of_nat (length (biggest_key s))) @ smallest_key s @ biggest_key s"

definition summary_write_to_file :: "filesys \<Rightarrow> Summary \<Rightarrow> filesys res" where
  "summary_write_to_file fs s =
     and_then (file_node_unwrap fs (sum_path s)) (\<lambda>fs'.
       file_write_all fs' (sum_path s) (summary_serialize s))"

definition summary_recover :: "platform \<Rightarrow> filesys \<Rightarrow> Summary \<Rightarrow> Summary res" where
  "summary_recover P fs s =
     and_then (summary_file_recover P fs (sum_path s)) (\<lambda>(smallest, biggest).
       Ok (s\<lparr>smallest_key := smallest, biggest_key := biggest\<rparr>))"

section \<open>The table\<close>

record Table =
  t_dir :: path
  hotness :: u64
  t_size :: nat
  t_created_at :: datetime
  data_file :: path
  index_file :: path
  t_entries :: entries
  t_filter :: "BloomFilter option"
  t_summary :: "Summary option"

definition generate_file_path :: "filesys \<Rightarrow> path \<Rightarrow> datetime \<Rightarrow> filesys \<times> path \<times> path \<times> datetime" where
  "generate_file_path fs dir now =
     (create_dir_all fs dir, dir @ [DATA_FILE], dir @ [INDEX_FILE], now)"

definition table_new :: "filesys \<Rightarrow> path \<Rightarrow> datetime \<Rightarrow> (filesys \<times> Table) res" where
  "table_new fs dir now =
     (let (fs1, data_file_path, index_file_path, created_at) = generate_file_path fs dir now
      in and_then (file_node_unwrap fs1 data_file_path) (\<lambda>fs2.
         and_then (file_node_unwrap fs2 index_file_path) (\<lambda>fs3.
           Ok (fs3, \<lparr>t_dir = dir, hotness = 0, t_size = 0, t_created_at = created_at,
                     data_file = data_file_path, index_file = index_file_path, t_entries = [],
                     t_filter = None, t_summary = None\<rparr>))))"

definition increase_hotness :: "Table \<Rightarrow> Table" where
  "increase_hotness t = t\<lparr>hotness := hotness t + 1\<rparr>"

definition table_get ::
  "platform \<Rightarrow> filesys \<Rightarrow> Table \<Rightarrow> u32 \<Rightarrow> Key \<Rightarrow> (ValOffset \<times> datetime \<times> bool) option res" where
  "table_get P fs t start searched_key =
     and_then (node_bytes fs (data_file t)) (\<lambda>bs. find_entry P bs start searched_key)"

definition load_entries_from_file :: "platform \<Rightarrow> filesys \<Rightarrow> Table \<Rightarrow> Table res" where
  "load_entries_from_file P fs t =
     and_then (node_bytes fs (data_file t)) (\<lambda>bs.
     and_then (load_entries P bs) (\<lambda>(entries, bytes_read).
       Ok (t\<lparr>t_entries := entries, t_size := bytes_read\<rparr>)))"

text \<open>\<open>modified\<close> is the data file's modification time in nanoseconds since the epoch.\<close>

definition build_from :: "platform \<Rightarrow> filesys \<Rightarrow> path \<Rightarrow> path \<Rightarrow> path \<Rightarrow> nat \<Rightarrow> (filesys \<times> Table) res" where
  "build_from P fs dir data_file_path index_file_path modified =
     and_then (file_node_unwrap fs data_file_path) (\<lambda>fs1.
     and_then (file_node_unwrap fs1 index_file_path) (\<lambda>fs2.
     and_then (file_size fs2 data_file_path) (\<lambda>size.
     and_then (milliseconds_to_datetime P
         (word_of_nat (unat (word_of_nat modified :: u64) div 1000000))) (\<lambda>created.
       Ok (fs2, \<lparr>t_dir = dir, hotness = 1, t_size = size, t_created_at = created,
                 data_file = data_file_path, index_file = index_file_path, t_entries = [],
                 t_filter = None, t_summary = None\<rparr>)))))"

definition reset_size :: "Table \<Rightarrow> Table" where
  "reset_size t = t\<lparr>t_size := 0\<rparr>"

definition set_sst_size_from_entries :: "Table \<Rightarrow> Table" where
  "set_sst_size_from_entries t =
     t\<lparr>t_size := sum_list (map (\<lambda>(k, v). length k + SIZE_OF_USIZE + SIZE_OF_U64 + SIZE_OF_U8) (t_entries t))\<rparr>"

definition set_entries :: "Table \<Rightarrow> entries \<Rightarrow> Table" where
  "set_entries t entries = set_sst_size_from_entries (t\<lparr>t_entries := entries\<rparr>)"

definition write_block :: "filesys \<Rightarrow> Table \<Rightarrow> Block \<Rightarrow> Index \<Rightarrow> (filesys \<times> Table \<times> Index) res" where
  "write_block fs t block table_index =
     (let offset = t_size t
      in and_then (get_last_entry block) (\<lambda>last_entry.
         let table_index' = index_insert table_index (key_prefix last_entry) (be_key last_entry)
               (word_of_nat offset)
         in and_then (block_write_to_file fs block (data_file t)) (\<lambda>(fs', bytes_written).
              Ok (fs', t\<lparr>t_size := t_size t + bytes_written\<rparr>, table_index'))))"

text \<open>One turn of the loop of \<^verbatim>\<open>write_to_file\<close> that fills the blocks.\<close>

definition fill_block :: "Key \<times> SkipMapValue \<Rightarrow> Block list \<times> Block \<Rightarrow> (Block list \<times> Block) res" where
  "fill_block = (\<lambda>(key, v) (blocks, current_block).
     let entry = Entry_new key (sv_offset v) (sv_created_at v) (sv_is_tombstone v);
         entry_size = length (e_key entry) + SIZE_OF_U32 + SIZE_OF_U32 + SIZE_OF_U64 + SIZE_OF_U8;
         (blocks', current_block') =
           (if block_is_full current_block entry_size then (blocks @ [current_block], block_new)
            else (blocks, current_block))
     in and_then (set_entry current_block' (word_of_nat (length (e_key entry))) (e_key entry)
            (word_of_nat (e_offset entry)) (e_created_at entry) (e_is_tombstone entry)) (\<lambda>b.
          Ok (blocks', b)))"

definition table_write_to_file :: "filesys \<Rightarrow> Table \<Rightarrow> (filesys \<times> Table) res" where
  "table_write_to_file fs t =
     (case t_filter t of
        None \<Rightarrow> Err FilterNotProvidedForFlush
      | Some bf \<Rightarrow>
          if t_entries t = [] then Err EntriesCannotBeEmptyDuringFlush
          else
            let index = index_new (index_file t);
                summary = (summary_new (t_dir t))\<lparr>smallest_key := fst (hd (t_entries t)),
                  biggest_key := fst (last (t_entries t))\<rparr>
            in and_then (summary_write_to_file fs summary) (\<lambda>fs1.
               and_then (bf_write fs1 bf (t_dir t)) (\<lambda>(fs2, bf').
               let t' = t\<lparr>t_summary := Some summary,
                          t_filter := Some (set_sstable_path bf' (data_file t))\<rparr>;
                   t'' = (if 0 < t_size t' then reset_size t' else t')
               in and_then (fold_res fill_block (t_entries t) ([], block_new)) (\<lambda>(blocks, current_block).
                  and_then (fold_res (\<lambda>block (fs, t, index). write_block fs t block index) blocks
                    (fs2, t'', index)) (\<lambda>(fs3, t3, index3).
                  and_then (if bl_entries current_block \<noteq> [] then write_block fs3 t3 current_block index3
                            else Ok (fs3, t3, index3)) (\<lambda>(fs4, t4, index4).
                  and_then (index_write_to_file fs4 index4) (\<lambda>fs5.
                    Ok (fs5, t4))))))))"

section \<open>Filling the blocks\<close>

lemma fill_block_step:
  assumes "block_wf cur c" and "length k + 17 \<le> BLOCK_SIZE"
  shows "fill_block (k, v) (blocks, cur) =
    (if BLOCK_SIZE < bl_size cur + (length k + 17)
     then Ok (blocks @ [cur], \<lparr>bl_entries = map block_entry_of [(k, v)],
       bl_size = length (data_file_of [(k, v)]), entry_count = 1\<rparr>)
     else Ok (blocks, \<lparr>bl_entries = map block_entry_of (c @ [(k, v)]),
       bl_size = length (data_file_of (c @ [(k, v)])), entry_count = length c + 1\<rparr>))"
  using assms set_entry_wf [OF assms(1), of k v] set_entry_wf [OF block_new_wf, of k v]
  by (simp add: fill_block_def block_is_full_def Entry_new_def constants block_new_def)

text \<open>The blocks hold the entries in order, none is empty and none exceeds the block size.\<close>

lemma fill_blocks:
  assumes "\<forall>(k, v) \<in> set es. length k + 17 \<le> BLOCK_SIZE"
    and "list_all2 block_wf blocks css" and "block_wf cur c" and "\<forall>c \<in> set css. c \<noteq> []"
  shows "\<exists>blocks' cur' css' c'. fold_res fill_block es (blocks, cur) = Ok (blocks', cur')
    \<and> list_all2 block_wf blocks' css' \<and> block_wf cur' c' \<and> (\<forall>c \<in> set css'. c \<noteq> [])
    \<and> concat css' @ c' = concat css @ c @ es \<and> (es \<noteq> [] \<or> c \<noteq> [] \<longrightarrow> c' \<noteq> [])"
  using assms
proof (induction es arbitrary: blocks cur css c)
  case (Cons e es)
  obtain k v where e: "e = (k, v)" by force
  have fit: "length k + 17 \<le> BLOCK_SIZE" and rest: "\<forall>(k, v) \<in> set es. length k + 17 \<le> BLOCK_SIZE"
    using Cons.prems(1) by (auto simp: e)
  have len: "length (data_file_of (c @ [(k, v)])) = bl_size cur + (length k + 17)"
    "length (data_file_of [(k, v)]) = length k + 17"
    using Cons.prems(3) length_data_bytes [of k v] by (simp_all add: block_wf_def data_file_of_def)
  show ?case
  proof (cases "BLOCK_SIZE < bl_size cur + (length k + 17)")
    case True
    define b where "b = \<lparr>bl_entries = map block_entry_of [(k, v)],
       bl_size = length (data_file_of [(k, v)]), entry_count = 1\<rparr>"
    have "c \<noteq> []"
      using True fit Cons.prems(3) by (auto simp: block_wf_def)
    moreover have "block_wf b [(k, v)]"
      using fit len by (simp add: b_def block_wf_def)
    ultimately show ?thesis
      using Cons.IH [OF rest, of "blocks @ [cur]" "css @ [c]" b "[(k, v)]"] Cons.prems
        fill_block_step [OF Cons.prems(3) fit, of v blocks] True
      by (simp add: e b_def list_all2_appendI ball_Un)
  next
    case False
    define b where "b = \<lparr>bl_entries = map block_entry_of (c @ [(k, v)]),
       bl_size = length (data_file_of (c @ [(k, v)])), entry_count = length c + 1\<rparr>"
    have "block_wf b (c @ [(k, v)])"
      using False len by (simp add: b_def block_wf_def)
    then show ?thesis
      using Cons.IH [OF rest, of blocks css b "c @ [(k, v)]"] Cons.prems
        fill_block_step [OF Cons.prems(3) fit, of v blocks] False
      by (simp add: e b_def)
  qed
qed auto

section \<open>Writing the blocks and the index\<close>

definition index_entry_of :: "index_record \<Rightarrow> IndexEntry" where
  "index_entry_of = (\<lambda>(k, off). \<lparr>ie_key_len = word_of_nat (length k), ie_key = k, block_handle = off\<rparr>)"

lemma index_serialize_ok: "index_serialize_entry (index_entry_of r) = Ok (index_bytes r)"
  by (cases r) (simp add: index_serialize_entry_def index_entry_of_def index_bytes_def constants codec)

lemma write_block_ok:
  assumes "files fs (data_file t) = Some bs" and "block_wf b c" and "c \<noteq> []"
  shows "write_block fs t b ix =
    Ok (with_file fs (data_file t) (bs @ data_file_of c), t\<lparr>t_size := t_size t + length (data_file_of c)\<rparr>,
        ix\<lparr>ix_entries := ix_entries ix @ [index_entry_of (fst (last c), word_of_nat (t_size t))]\<rparr>)"
proof -
  have "get_last_entry b = Ok (block_entry_of (last c))"
    using assms(2,3) by (simp add: get_last_entry_def block_wf_def last_map)
  then show ?thesis
    by (cases "last c")
      (simp add: write_block_def block_write_ok [OF assms(1,2)] index_insert_def index_entry_of_def
        block_entry_of_def)
qed

lemma write_blocks_ok:
  assumes "files fs (data_file t) = Some bs" and "list_all2 block_wf blocks css" and "\<forall>c \<in> set css. c \<noteq> []"
  shows "fold_res (\<lambda>block (fs, t, index). write_block fs t block index) blocks (fs, t, ix) =
    Ok (with_file fs (data_file t) (bs @ data_file_of (concat css)),
        t\<lparr>t_size := t_size t + length (data_file_of (concat css))\<rparr>,
        ix\<lparr>ix_entries := ix_entries ix @ map index_entry_of (index_of (t_size t) css)\<rparr>)"
  using assms(2,1,3)
proof (induction blocks css arbitrary: fs t bs ix rule: list_all2_induct)
  case (Cons b bs' c cs)
  then show ?case
    by (simp add: write_block_ok add.assoc)
qed (simp add: with_file_same)

lemma index_write_ok:
  assumes "files fs (ix_path ix) = Some bs" and "ix_entries ix = map index_entry_of rs"
  shows "index_write_to_file fs ix = Ok (with_file fs (ix_path ix) (bs @ concat (map index_bytes rs)))"
proof -
  have out: "\<forall>x \<in> set rs. index_serialize_entry (index_entry_of x) = Ok (index_bytes x)"
    by (simp add: index_serialize_ok)
  show ?thesis
    using file_writes [OF assms(1) out] by (simp add: index_write_to_file_def assms(2) fold_res_map)
qed

section \<open>A written table\<close>

text \<open>A table whose files are in place and not written yet, ready to be flushed.\<close>

definition table_ready :: "platform \<Rightarrow> filesys \<Rightarrow> Table \<Rightarrow> bool" where
  "table_ready P fs t \<longleftrightarrow>
     data_file t = t_dir t @ [DATA_FILE] \<and> index_file t = t_dir t @ [INDEX_FILE] \<and> dirs fs (t_dir t)
     \<and> files fs (data_file t) = Some [] \<and> files fs (index_file t) = Some []
     \<and> files fs (t_dir t @ [SUMMARY_FILE]) = None \<and> files fs (t_dir t @ [FILTER_FILE]) = None
     \<and> t_filter t \<noteq> None \<and> t_entries t \<noteq> [] \<and> sm_sorted (t_entries t)
     \<and> (\<forall>e \<in> set (t_entries t). entry_ok P e \<and> length (fst e) + 17 \<le> BLOCK_SIZE)
     \<and> length (data_file_of (t_entries t)) < 2 ^ 32"

definition table_summary :: "Table \<Rightarrow> Summary" where
  "table_summary t = \<lparr>sum_path = t_dir t @ [SUMMARY_FILE], smallest_key = fst (hd (t_entries t)),
     biggest_key = fst (last (t_entries t))\<rparr>"

definition written_table :: "BloomFilter \<Rightarrow> Table \<Rightarrow> Table" where
  "written_table bf t = t\<lparr>t_size := length (data_file_of (t_entries t)),
     t_summary := Some (table_summary t),
     t_filter := Some (bf\<lparr>bf_file_path := Some (t_dir t @ [FILTER_FILE]), bf_sst_dir := Some (data_file t)\<rparr>)\<rparr>"

definition written_fs :: "filesys \<Rightarrow> BloomFilter \<Rightarrow> Table \<Rightarrow> (Key \<times> SkipMapValue) list list \<Rightarrow> filesys" where
  "written_fs fs bf t css =
     with_file (with_file (with_file (with_file fs
       (t_dir t @ [SUMMARY_FILE]) (summary_serialize (table_summary t)))
       (t_dir t @ [FILTER_FILE]) (bf_serialize bf))
       (data_file t) (data_file_of (concat css)))
       (index_file t) (concat (map index_bytes (index_of 0 css)))"

definition blocks_ok :: "(Key \<times> SkipMapValue) list list \<Rightarrow> bool" where
  "blocks_ok css \<longleftrightarrow> (\<forall>c \<in> set css. c \<noteq> [] \<and> length (data_file_of c) \<le> BLOCK_SIZE)"

lemmas file_names = SUMMARY_FILE_def FILTER_FILE_def DATA_FILE_def INDEX_FILE_def

lemma summary_write_fresh:
  assumes "files fs (sum_path s) = None" and "dirs fs (butlast (sum_path s))"
  shows "summary_write_to_file fs s = Ok (with_file fs (sum_path s) (summary_serialize s))"
  using assms by (simp add: summary_write_to_file_def file_node_unwrap_def file_create_new file_write_all_with)

lemma block_wf_sizes: "list_all2 block_wf blocks css \<Longrightarrow> \<forall>c \<in> set css. length (data_file_of c) \<le> BLOCK_SIZE"
  by (induction rule: list_all2_induct) (auto simp: block_wf_def)

lemma write_all_blocks:
  assumes "\<forall>e \<in> set es. length (fst e) + 17 \<le> BLOCK_SIZE" and "es \<noteq> []"
    and "files fs (data_file t) = Some []" and "files fs (ix_path ix) = Some []" and "ix_entries ix = []"
    and "ix_path ix \<noteq> data_file t" and "t_size t = 0"
  shows "\<exists>css. blocks_ok css \<and> concat css = es \<and>
    and_then (fold_res fill_block es ([], block_new)) (\<lambda>(blocks, current_block).
    and_then (fold_res (\<lambda>block (fs, t, index). write_block fs t block index) blocks (fs, t, ix)) (\<lambda>(fs3, t3, index3).
    and_then (if bl_entries current_block \<noteq> [] then write_block fs3 t3 current_block index3
              else Ok (fs3, t3, index3)) (\<lambda>(fs4, t4, index4).
    and_then (index_write_to_file fs4 index4) (\<lambda>fs5. Ok (fs5, t4)))))
    = Ok (with_file (with_file fs (data_file t) (data_file_of es)) (ix_path ix)
            (concat (map index_bytes (index_of 0 css))),
          t\<lparr>t_size := length (data_file_of es)\<rparr>)"
proof -
  have fits: "\<forall>(k, v) \<in> set es. length k + 17 \<le> BLOCK_SIZE"
    using assms(1) by auto
  obtain blocks cur css c where fill: "fold_res fill_block es ([], block_new) = Ok (blocks, cur)"
    and wf: "list_all2 block_wf blocks css" "block_wf cur c" "\<forall>c \<in> set css. c \<noteq> []" "c \<noteq> []"
    and es: "concat css @ c = es"
    using fill_blocks [OF fits, of "[]" "[]" block_new "[]"] assms(2) block_new_wf by auto
  have "blocks_ok (css @ [c])"
    using wf block_wf_sizes [OF wf(1)] by (auto simp: blocks_ok_def block_wf_def)
  moreover have "bl_entries cur \<noteq> []"
    using wf(2,4) by (simp add: block_wf_def)
  moreover have "concat (css @ [c]) = es"
    using es by simp
  moreover have "index_write_to_file F (ix\<lparr>ix_entries := map index_entry_of (index_of 0 css) @
      [index_entry_of (fst (last c), word_of_nat (length (data_file_of (concat css))))]\<rparr>)
    = Ok (with_file F (ix_path ix) (concat (map index_bytes (index_of 0 (css @ [c])))))"
    if "files F (ix_path ix) = Some []" for F
    using that index_write_ok [of F "ix\<lparr>ix_entries := map index_entry_of (index_of 0 (css @ [c]))\<rparr>" "[]" "index_of 0 (css @ [c])"]
    by (simp add: index_of_snoc)
  ultimately show ?thesis
    using assms(3-7) wf
    by (intro exI [of _ "css @ [c]"])
      (simp add: fill [folded es] write_blocks_ok write_block_ok del: and_then_eq_Ok flip: es)
qed

lemma table_write_ok:
  assumes "table_ready P fs t" and "t_filter t = Some bf"
  shows "\<exists>css. table_write_to_file fs t = Ok (written_fs fs bf t css, written_table bf t)
    \<and> blocks_ok css \<and> concat css = t_entries t"
proof -
  let ?fs1 = "with_file fs (t_dir t @ [SUMMARY_FILE]) (summary_serialize (table_summary t))"
  let ?fs2 = "with_file ?fs1 (t_dir t @ [FILTER_FILE]) (bf_serialize bf)"
  let ?bf = "bf\<lparr>bf_file_path := Some (t_dir t @ [FILTER_FILE])\<rparr>"
  define t1 where "t1 = t\<lparr>t_size := 0, t_summary := Some (table_summary t),
    t_filter := Some (set_sstable_path ?bf (data_file t))\<rparr>"
  note rdy = assms(1) [unfolded table_ready_def]
  have sm: "(summary_new (t_dir t))\<lparr>smallest_key := fst (hd (t_entries t)),
      biggest_key := fst (last (t_entries t))\<rparr> = table_summary t"
    by (simp add: table_summary_def summary_new_def)
  have s: "summary_write_to_file fs (table_summary t) = Ok ?fs1"
    using rdy summary_write_fresh [of fs "table_summary t"] by (simp add: table_summary_def)
  have b: "bf_write ?fs1 bf (t_dir t) = Ok (?fs2, ?bf)"
    using rdy bf_write_fresh [of ?fs1 "t_dir t" bf] by (simp add: with_file_def file_names)
  obtain css where css: "blocks_ok css" "concat css = t_entries t" and
    w: "and_then (fold_res fill_block (t_entries t) ([], block_new)) (\<lambda>(blocks, current_block).
    and_then (fold_res (\<lambda>block (fs, t, index). write_block fs t block index) blocks (?fs2, t1, index_new (index_file t))) (\<lambda>(fs3, t3, index3).
    and_then (if bl_entries current_block \<noteq> [] then write_block fs3 t3 current_block index3
              else Ok (fs3, t3, index3)) (\<lambda>(fs4, t4, index4).
    and_then (index_write_to_file fs4 index4) (\<lambda>fs5. Ok (fs5, t4)))))
    = Ok (written_fs fs bf t css, written_table bf t)"
    using write_all_blocks [of "t_entries t" ?fs2 t1 "index_new (index_file t)"] rdy
    by (auto simp: t1_def index_new_def file_names written_fs_def written_table_def set_sstable_path_def)
  have t1: "reset_size (t\<lparr>t_summary := Some (table_summary t), t_filter := Some (set_sstable_path ?bf (data_file t))\<rparr>) = t1"
    "t_size t = 0 \<Longrightarrow> t\<lparr>t_summary := Some (table_summary t), t_filter := Some (set_sstable_path ?bf (data_file t))\<rparr> = t1"
    by (cases t, simp add: t1_def reset_size_def table_summary_def)+
  have "t_entries t \<noteq> []" using rdy by simp
  then have "table_write_to_file fs t = Ok (written_fs fs bf t css, written_table bf t)"
    unfolding table_write_to_file_def assms(2) option.case Let_def sm
    by (simp add: s b t1 w del: and_then_eq_Ok)
  with css show ?thesis by blast
qed

section \<open>Looking a key up\<close>

text \<open>The entries \<open>es\<close> are on disk, in the data file and the index file of the table.\<close>

definition table_on_disk :: "platform \<Rightarrow> filesys \<Rightarrow> Table \<Rightarrow> entries \<Rightarrow> bool" where
  "table_on_disk P fs t es \<longleftrightarrow> sm_sorted es \<and> (\<forall>e \<in> set es. entry_ok P e)
     \<and> length (data_file_of es) < 2 ^ 32 \<and> files fs (data_file t) = Some (data_file_of es)
     \<and> (\<exists>css. blocks_ok css \<and> concat css = es
        \<and> files fs (index_file t) = Some (concat (map index_bytes (index_of 0 css))))"

definition stored_tuple :: "SkipMapValue \<Rightarrow> ValOffset \<times> datetime \<times> bool" where
  "stored_tuple v = (sv_offset v mod 2 ^ 32, truncate_millis (sv_created_at v), sv_is_tombstone v)"

lemma table_write_on_disk:
  assumes "table_ready P fs t" and "t_filter t = Some bf"
  shows "\<exists>css. table_write_to_file fs t = Ok (written_fs fs bf t css, written_table bf t)
    \<and> table_on_disk P (written_fs fs bf t css) (written_table bf t) (t_entries t)"
proof -
  obtain css where css: "table_write_to_file fs t = Ok (written_fs fs bf t css, written_table bf t)"
    "blocks_ok css" "concat css = t_entries t"
    using table_write_ok [OF assms] by blast
  moreover have "table_on_disk P (written_fs fs bf t css) (written_table bf t) (t_entries t)"
    using assms(1) css(2,3)
    by (auto simp: table_on_disk_def table_ready_def written_fs_def written_table_def file_names)
  ultimately show ?thesis by blast
qed

lemma index_of_ok:
  assumes "\<forall>e \<in> set (concat css). entry_ok P e" and "\<forall>c \<in> set css. c \<noteq> []"
  shows "\<forall>r \<in> set (index_of n css). index_ok P r"
  using assms
proof (induction css arbitrary: n)
  case (Cons c cs)
  then have "last c \<in> set c" by simp
  with Cons.prems(1) have "entry_ok P (last c)" by simp
  then have "field_ok P (fst (last c))"
    by (cases "last c") (simp add: entry_ok_def)
  with Cons show ?case by (auto simp: index_ok_def)
qed simp

lemma table_lookup:
  assumes "table_on_disk P fs t es"
  shows "\<exists>r. index_get P fs (index_new (index_file t)) key = Ok r \<and>
    (case r of None \<Rightarrow> sm_get es key = None
     | Some off \<Rightarrow> table_get P fs t off key = Ok (map_option stored_tuple (sm_get es key)))"
proof -
  obtain css where css: "blocks_ok css" "concat css = es"
    "files fs (index_file t) = Some (concat (map index_bytes (index_of 0 css)))"
    using assms by (auto simp: table_on_disk_def)
  have es: "sm_sorted (concat css)" "\<forall>e \<in> set (concat css). entry_ok P e" "length (data_file_of es) < 2 ^ 32"
    "files fs (data_file t) = Some (data_file_of es)"
    using assms css(2) by (auto simp: table_on_disk_def)
  have ne: "\<forall>c \<in> set css. c \<noteq> []"
    using css(1) by (simp add: blocks_ok_def)
  have ix: "index_get P fs (index_new (index_file t)) key =
      Ok (map_option snd (find (\<lambda>(k, offset). key \<le> k) (index_of 0 css)))"
    using get_from_index_file [OF index_of_ok [OF es(2) ne]] css(3)
    by (simp add: index_get_def index_new_def node_bytes_def)
  show ?thesis
  proof (cases "find (\<lambda>(k, offset). key \<le> k) (index_of 0 css)")
    case None
    then show ?thesis
      using index_of_find [OF es(1) ne, of key 0] ix css(2) by (simp add: sm_get_def)
  next
    case (Some r)
    obtain l off where r: "r = (l, off)" by force
    obtain pre post where p: "css = pre @ post" "off = word_of_nat (length (data_file_of (concat pre)))"
      "map_of (concat css) key = map_of (concat post) key"
      using index_of_find [OF es(1) ne, of key 0] Some r by auto
    have parts: "data_file_of es = data_file_of (concat pre) @ data_file_of (concat post)"
      using p(1) css(2) by auto
    then have "unat off = length (data_file_of (concat pre))"
      using es(3) p(2) by (simp add: unat_u32_of_nat)
    moreover have "\<forall>e \<in> set (concat post). entry_ok P e"
      using es(2) p(1) by auto
    ultimately have "table_get P fs t off key = Ok (map_option stored_tuple (map_of (concat post) key))"
      using find_entry_file [of "concat post" P off "data_file_of (concat pre)" key] es(4) parts
      by (simp add: table_get_def node_bytes_def stored_tuple_def [abs_def])
    then show ?thesis
      using ix Some r p(3) css(2) by (simp add: sm_get_def)
  qed
qed

lemma load_entries_on_disk:
  assumes "table_on_disk P fs t es"
  shows "load_entries_from_file P fs t =
    Ok (t\<lparr>t_entries := map (\<lambda>(k, v). (k, stored_value v)) es, t_size := length (data_file_of es)\<rparr>)"
proof -
  have es: "sm_sorted es" "\<forall>e \<in> set es. entry_ok P e" "files fs (data_file t) = Some (data_file_of es)"
    using assms by (auto simp: table_on_disk_def)
  let ?m = "map (\<lambda>(k, v). (k, stored_value v)) es"
  have keys: "map fst ?m = map fst es" by auto
  then have "sm_sorted ?m"
    using es(1) by (simp only: sm_sorted_def)
  from sm_rebuild [OF this] have "fold (\<lambda>(k, v). sm_insert k (stored_value v)) es [] = ?m"
    by (simp add: fold_map comp_def case_prod_beta')
  then show ?thesis
    using load_entries_file [OF es(2)] es(3) by (simp add: load_entries_from_file_def node_bytes_def)
qed

section \<open>Properties of a flushed table\<close>

lemma summary_recover_written:
  assumes "files fs (sum_path s) = Some (summary_serialize s)"
    and "field_ok P (smallest_key s)" and "field_ok P (biggest_key s)" and "sum_path r = sum_path s"
  shows "summary_recover P fs r = Ok (r\<lparr>smallest_key := smallest_key s, biggest_key := biggest_key s\<rparr>)"
proof -
  have "load_field P (length (biggest_key s)) (biggest_key s) = Ok (biggest_key s, length (biggest_key s), [])"
    using load_key [OF assms(3), of "[]"] by simp
  then show ?thesis
    using assms field_ok_reads [OF assms(2)]
    by (simp add: summary_recover_def summary_file_recover_def open_small_file_def file_open_def
        summary_serialize_def codec)
qed

lemma key_field_ok: "\<forall>e \<in> set es. entry_ok P e \<Longrightarrow> e \<in> set es \<Longrightarrow> field_ok P (fst e)"
  by (cases e) (auto simp: entry_ok_def)

text \<open>A table with one entry, for examples.\<close>

definition sample_table :: Table where
  "sample_table = \<lparr>t_dir = [''t''], hotness = 0, t_size = 0, t_created_at = 0,
     data_file = [''t'', DATA_FILE], index_file = [''t'', INDEX_FILE],
     t_entries = [([1], sample_value 3), ([4], sample_value 5)], t_filter = Some sample_filter, t_summary = None\<rparr>"

definition sample_table_fs :: filesys where
  "sample_table_fs = with_file (with_file sample_fs [''t'', DATA_FILE] []) [''t'', INDEX_FILE] []"

lemma sample_table_ready: "table_ready sample_platform sample_table_fs sample_table"
  by (simp add: table_ready_def sample_table_def sample_table_fs_def sample_fs_def file_names sm_sorted_def
      entry_ok_def field_ok_def wf_time_def sample_platform_def sample_value_def timestamp_millis_def
      constants data_file_of_def length_data_bytes)

text \<open>C4. Flushing a table writes its entries so that every key is found again the way a read does it:
  the index gives no block for a key beyond the last one, and otherwise the block from which the
  scan returns exactly the key's entry (its offset in 32 bits, its time to the millisecond), or
  nothing if the table does not hold the key.\<close>

theorem sstable_write_lookup:
  assumes "table_ready P fs t"
  shows "\<exists>fs' t'. table_write_to_file fs t = Ok (fs', t') \<and>
    (\<forall>key. \<exists>r. index_get P fs' (index_new (index_file t')) key = Ok r \<and>
      (case r of None \<Rightarrow> sm_get (t_entries t) key = None
       | Some off \<Rightarrow> table_get P fs' t' off key = Ok (map_option stored_tuple (sm_get (t_entries t) key))))"
proof -
  obtain bf where bf: "t_filter t = Some bf"
    using assms by (auto simp: table_ready_def)
  show ?thesis
    using table_write_on_disk [OF assms bf] table_lookup by blast
qed

theorem sstable_write_lookup_witness:
  "\<exists>fs' t' r. table_write_to_file sample_table_fs sample_table = Ok (fs', t')
    \<and> index_get sample_platform fs' (index_new (index_file t')) [4] = Ok (Some r)
    \<and> table_get sample_platform fs' t' r [4] = Ok (Some (5, 5000000, False))"
proof -
  obtain fs' t' where w: "table_write_to_file sample_table_fs sample_table = Ok (fs', t')" and
    l: "\<exists>r. index_get sample_platform fs' (index_new (index_file t')) [4] = Ok r \<and>
      (case r of None \<Rightarrow> sm_get (t_entries sample_table) [4] = None
       | Some off \<Rightarrow> table_get sample_platform fs' t' off [4] =
           Ok (map_option stored_tuple (sm_get (t_entries sample_table) [4])))"
    using sstable_write_lookup [OF sample_table_ready] by blast
  have "sm_get (t_entries sample_table) [4] = Some (sample_value 5)"
    by (simp add: sample_table_def sm_get_def)
  moreover have "stored_tuple (sample_value 5) = (5, 5000000, False)"
    by (simp add: stored_tuple_def sample_value_def truncate_millis_def timestamp_millis_def)
  ultimately show ?thesis
    using w l by (force split: option.splits)
qed

text \<open>C12. Reading a flushed table back as on a restart gives all of its entries in order, the size of
  the data file, and the smallest and the biggest key from the summary file; nothing outside the
  table's directory is written.\<close>

theorem sstable_write_reload:
  assumes "table_ready P fs t"
  shows "\<exists>fs' t' s. table_write_to_file fs t = Ok (fs', t')
    \<and> load_entries_from_file P fs' (t'\<lparr>t_entries := []\<rparr>) =
        Ok (t'\<lparr>t_entries := map (\<lambda>(k, v). (k, stored_value v)) (t_entries t)\<rparr>)
    \<and> t_size t' = sum_list (map (\<lambda>(k, v). length k + 17) (t_entries t))
    \<and> summary_recover P fs' (summary_new (t_dir t)) = Ok s
    \<and> smallest_key s = fst (hd (t_entries t)) \<and> biggest_key s = fst (last (t_entries t))
    \<and> (\<forall>p. butlast p \<noteq> t_dir t \<longrightarrow> files fs' p = files fs p)"
proof -
  obtain bf where bf: "t_filter t = Some bf"
    using assms by (auto simp: table_ready_def)
  obtain css where w: "table_write_to_file fs t = Ok (written_fs fs bf t css, written_table bf t)" and
    d: "table_on_disk P (written_fs fs bf t css) (written_table bf t) (t_entries t)"
    using table_write_on_disk [OF assms bf] by blast
  note rdy = assms [unfolded table_ready_def]
  have load: "load_entries_from_file P (written_fs fs bf t css) ((written_table bf t)\<lparr>t_entries := []\<rparr>) =
      Ok ((written_table bf t)\<lparr>t_entries := map (\<lambda>(k, v). (k, stored_value v)) (t_entries t)\<rparr>)"
  proof -
    have "table_on_disk P (written_fs fs bf t css) ((written_table bf t)\<lparr>t_entries := []\<rparr>) (t_entries t)"
      using d by (simp add: table_on_disk_def)
    from load_entries_on_disk [OF this] show ?thesis
      by (simp add: written_table_def)
  qed
  have size: "length (data_file_of es) = sum_list (map (\<lambda>(k, v). length k + 17) es)" for es
    by (induction es) (auto simp: data_file_of_def length_data_bytes)
  have ends: "field_ok P (smallest_key (table_summary t))" "field_ok P (biggest_key (table_summary t))"
    using rdy key_field_ok [of "t_entries t" P] by (simp_all add: table_summary_def)
  have "files (written_fs fs bf t css) (sum_path (table_summary t)) = Some (summary_serialize (table_summary t))"
    using rdy by (simp add: written_fs_def file_names table_summary_def)
  from summary_recover_written [OF this ends, of "summary_new (t_dir t)"]
  have "summary_recover P (written_fs fs bf t css) (summary_new (t_dir t)) = Ok (table_summary t)"
    by (simp add: summary_new_def table_summary_def)
  moreover have "butlast p \<noteq> t_dir t \<longrightarrow> files (written_fs fs bf t css) p = files fs p" for p
    using rdy by (auto simp: written_fs_def)
  ultimately show ?thesis
    using w load by (intro exI [of _ "written_fs fs bf t css"] exI [of _ "written_table bf t"] exI [of _ "table_summary t"])
      (simp add: written_table_def table_summary_def size)
qed

theorem sstable_write_reload_witness:
  "\<exists>fs' t'. table_write_to_file sample_table_fs sample_table = Ok (fs', t') \<and> t_size t' = 36"
  using sstable_write_reload [OF sample_table_ready] by (auto simp: sample_table_def)

text \<open>C13. A table that holds a key of more than 4079 bytes can never be flushed, although the store
  accepts keys of up to 65536 bytes: filling the blocks fails with \<open>BlockIsFull\<close>.\<close>

theorem oversized_key_never_flushed:
  assumes "(k, v) \<in> set (t_entries t)" and "4079 < length k"
  shows "\<not> is_ok (table_write_to_file fs t)"
proof -
  have full: "fill_block (k, v) s = Err BlockIsFull" for s
    using assms(2) by (cases s) (simp add: fill_block_def set_entry_def block_is_full_def Entry_new_def
        block_new_def constants)
  have "fold_res fill_block es s \<noteq> Ok r" if "(k, v) \<in> set es" for es s r
    using that by (induction es arbitrary: s) (auto simp: full)
  then show ?thesis
    using assms(1) by (auto simp: table_write_to_file_def is_ok_iff Let_def split: option.splits if_splits)
qed

theorem oversized_key_never_flushed_witness:
  "\<not> is_ok (table_write_to_file sample_table_fs
     (sample_table\<lparr>t_entries := [(replicate 4080 1, sample_value 3)]\<rparr>))"
  by (rule oversized_key_never_flushed [of "replicate 4080 1" "sample_value 3"]) simp_all

end
