(* ===== verification/Key_Range.thy ===== *)
theory Key_Range
  imports SS_Table
begin

text \<open>
  The key ranges of the tables on disk, \<^verbatim>\<open>src/key_range/range.rs\<close>: which tables can hold a key, and the
  lazy restoration of a table's bloom filter after a restart. A \<^verbatim>\<open>HashMap\<close> is an association list
  whose order stands for any iteration order. The task that publishes restored ranges runs later;
  it is the separate step \<open>publish_restored\<close>.
\<close>

section \<open>Hash maps\<close>

type_synonym ('k, 'v) hashmap = "('k \<times> 'v) list"

definition hm_insert :: "'k \<Rightarrow> 'v \<Rightarrow> ('k, 'v) hashmap \<Rightarrow> ('k, 'v) hashmap" where
  "hm_insert k v m = (k, v) # filter (\<lambda>e. fst e \<noteq> k) m"

definition hm_remove :: "'k \<Rightarrow> ('k, 'v) hashmap \<Rightarrow> ('k, 'v) hashmap" where
  "hm_remove k m = filter (\<lambda>e. fst e \<noteq> k) m"

definition hm_contains :: "('k, 'v) hashmap \<Rightarrow> 'k \<Rightarrow> bool" where
  "hm_contains m k \<longleftrightarrow> k \<in> fst ` set m"

lemma hm_insert_set: "set (hm_insert k v m) = insert (k, v) {e \<in> set m. fst e \<noteq> k}"
  by (auto simp: hm_insert_def)

section \<open>Key ranges\<close>

record Range =
  r_smallest_key :: Key
  r_biggest_key :: Key
  r_sst :: Table

record KeyRange =
  key_ranges :: "(path, Range) hashmap"
  restored_ranges :: "(path, Range) hashmap"

definition range_new :: "Key \<Rightarrow> Key \<Rightarrow> Table \<Rightarrow> Range" where
  "range_new smallest biggest sst =
     \<lparr>r_smallest_key = smallest, r_biggest_key = biggest, r_sst = sst\<rparr>"

definition key_range_new :: KeyRange where
  "key_range_new = \<lparr>key_ranges = [], restored_ranges = []\<rparr>"

definition key_range_set :: "KeyRange \<Rightarrow> path \<Rightarrow> Key \<Rightarrow> Key \<Rightarrow> Table \<Rightarrow> KeyRange \<times> bool" where
  "key_range_set kr sst_dir smallest biggest table =
     (kr\<lparr>key_ranges := hm_insert sst_dir (range_new smallest biggest table) (key_ranges kr)\<rparr>,
      hm_contains (key_ranges kr) sst_dir)"

definition key_range_remove :: "KeyRange \<Rightarrow> path \<Rightarrow> KeyRange \<times> bool" where
  "key_range_remove kr sst_path =
     (kr\<lparr>key_ranges := hm_remove sst_path (key_ranges kr)\<rparr>, hm_contains (key_ranges kr) sst_path)"

definition in_range :: "Range \<Rightarrow> Key \<Rightarrow> bool" where
  "in_range rng key \<longleftrightarrow> r_smallest_key rng \<le> key \<and> key \<le> r_biggest_key rng"

definition check_restored_key_ranges :: "platform \<Rightarrow> KeyRange \<Rightarrow> Key \<Rightarrow> Table list res" where
  "check_restored_key_ranges P kr key =
     fold_res (\<lambda>(_, rng) filtered_ssts.
         if in_range rng key
         then and_then (unwrap (t_filter (r_sst rng))) (\<lambda>bf.
              and_then (bf_contains P bf key) (\<lambda>b.
                Ok (if b then filtered_ssts @ [r_sst rng] else filtered_ssts)))
         else Ok filtered_ssts)
       (restored_ranges kr) []"

text \<open>The branch of \<^verbatim>\<open>filter_sstables_by_key_range\<close> that restores a filter from disk.\<close>

definition restore_range :: "platform \<Rightarrow> filesys \<Rightarrow> Range \<Rightarrow> BloomFilter \<Rightarrow> (Range \<times> BloomFilter) res" where
  "restore_range P fs rng bf =
     and_then (bf_recover_meta P fs bf) (\<lambda>bf1.
     let bf2 = bf1\<lparr>bf_sst_dir := Some (t_dir (r_sst rng))\<rparr>
     in and_then (load_entries_from_file P fs (r_sst rng)) (\<lambda>sst.
        and_then (build_filter_from_entries P bf2 (t_entries sst)) (\<lambda>bf3.
          Ok (rng\<lparr>r_sst := sst\<lparr>t_entries := [], t_filter := Some bf3\<rparr>\<rparr>, bf3))))"

definition filter_step ::
  "platform \<Rightarrow> filesys \<Rightarrow> KeyRange \<Rightarrow> Key \<Rightarrow> path \<times> Range
     \<Rightarrow> Table list \<times> (path, Range) hashmap \<Rightarrow> (Table list \<times> (path, Range) hashmap) res" where
  "filter_step P fs kr key = (\<lambda>(_, rng) (filtered_ssts, restored_range_map).
     if restored_ranges kr \<noteq> [] \<and> hm_contains (restored_ranges kr) (t_dir (r_sst rng))
     then Ok (filtered_ssts, restored_range_map)
     else if in_range rng key
     then and_then (unwrap (t_filter (r_sst rng))) (\<lambda>bf.
       if bf_sst_dir bf = None
       then and_then (restore_range P fs rng bf) (\<lambda>(mut_range, bf').
            let restored_range_map' = hm_insert (t_dir (r_sst mut_range)) mut_range restored_range_map
            in and_then (bf_contains P bf' key) (\<lambda>b.
               if b then Ok (filtered_ssts @ [r_sst mut_range], restored_range_map')
               else and_then (bf_contains P bf key) (\<lambda>b'.
                 Ok (if b' then filtered_ssts @ [r_sst rng] else filtered_ssts, restored_range_map'))))
       else and_then (bf_contains P bf key) (\<lambda>b.
              Ok (if b then filtered_ssts @ [r_sst rng] else filtered_ssts, restored_range_map)))
     else Ok (filtered_ssts, restored_range_map))"

definition filter_sstables_by_key_range ::
  "platform \<Rightarrow> filesys \<Rightarrow> KeyRange \<Rightarrow> Key \<Rightarrow> (Table list \<times> (path, Range) hashmap) res" where
  "filter_sstables_by_key_range P fs kr key =
     and_then (if restored_ranges kr \<noteq> [] then check_restored_key_ranges P kr key else Ok [])
       (\<lambda>filtered_ssts. fold_res (filter_step P fs kr key) (key_ranges kr) (filtered_ssts, []))"

text \<open>The spawned task: \<^verbatim>\<open>restored_range_map.clone_into(&mut *restored_ranges)\<close>, if there is something new.\<close>

definition publish_restored :: "KeyRange \<Rightarrow> (path, Range) hashmap \<Rightarrow> KeyRange" where
  "publish_restored kr restored_range_map =
     (if restored_range_map \<noteq> [] then kr\<lparr>restored_ranges := restored_range_map\<rparr> else kr)"

definition update_key_range :: "KeyRange \<Rightarrow> KeyRange" where
  "update_key_range kr =
     (if restored_ranges kr \<noteq> []
      then kr\<lparr>key_ranges := fold (\<lambda>(path, rng). hm_insert path rng) (restored_ranges kr) (key_ranges kr),
              restored_ranges := []\<rparr>
      else kr)"

definition range_query_scan :: "KeyRange \<Rightarrow> Key \<Rightarrow> Key \<Rightarrow> Range list" where
  "range_query_scan kr start_key end_key =
     map snd (filter (\<lambda>(_, rng).
         (r_smallest_key rng < start_key \<or> r_smallest_key rng = start_key)
           \<or> (end_key < r_biggest_key rng \<or> r_biggest_key rng = end_key))
       (key_ranges kr))"

section \<open>The invariant of the key ranges\<close>

text \<open>
  A range describes the table that holds \<open>es\<close>: every key lies in it, and its filter either finds
  every key, or is the empty filter of a restart next to a filter file from which it is restored.
\<close>

definition filter_ready :: "platform \<Rightarrow> entries \<Rightarrow> BloomFilter \<Rightarrow> bool" where
  "filter_ready P es bf \<longleftrightarrow> bf_ok bf \<and> bf_sst_dir bf \<noteq> None
     \<and> (\<forall>k \<in> fst ` set es. bf_contains P bf k = Ok True)"

text \<open>A filter that can be rebuilt from the numbers its file has.\<close>

definition rebuildable :: "platform \<Rightarrow> BloomFilter \<Rightarrow> bool" where
  "rebuildable P saved \<longleftrightarrow> no_of_hash_func saved < 2 ^ 32
     \<and> (no_of_hash_func saved = 0 \<or> calculate_no_of_bits P (num_elements saved) (false_positive_rate saved) \<noteq> 0)"

definition filter_restorable :: "platform \<Rightarrow> filesys \<Rightarrow> BloomFilter \<Rightarrow> bool" where
  "filter_restorable P fs bf \<longleftrightarrow> no_of_hash_func bf = 0 \<and> bf_sst_dir bf = None \<and> 8 \<le> max_read P
     \<and> (\<exists>p saved. bf_file_path bf = Some p \<and> files fs p = Some (bf_serialize saved) \<and> rebuildable P saved)"

definition range_ok :: "platform \<Rightarrow> filesys \<Rightarrow> path \<Rightarrow> Range \<Rightarrow> entries \<Rightarrow> bool" where
  "range_ok P fs d rng es \<longleftrightarrow> t_dir (r_sst rng) = d \<and> table_on_disk P fs (r_sst rng) es
     \<and> (\<forall>k \<in> fst ` set es. in_range rng k)
     \<and> (\<exists>bf. t_filter (r_sst rng) = Some bf \<and> (filter_ready P es bf \<or> filter_restorable P fs bf))"

definition kr_ok :: "platform \<Rightarrow> filesys \<Rightarrow> (path \<Rightarrow> entries) \<Rightarrow> KeyRange \<Rightarrow> bool" where
  "kr_ok P fs C kr \<longleftrightarrow> (\<forall>(d, r) \<in> set (key_ranges kr). range_ok P fs d r (C d))
     \<and> (\<forall>(d, r) \<in> set (restored_ranges kr). range_ok P fs d r (C d)
        \<and> (\<exists>bf. t_filter (r_sst r) = Some bf \<and> filter_ready P (C d) bf))"

lemma restore_range_ok:
  assumes "range_ok P fs d rng es" and "t_filter (r_sst rng) = Some bf" and "filter_restorable P fs bf"
  shows "\<exists>r bf'. restore_range P fs rng bf = Ok (r, bf') \<and> range_ok P fs d r es
    \<and> t_filter (r_sst r) = Some bf' \<and> filter_ready P es bf'
    \<and> data_file (r_sst r) = data_file (r_sst rng) \<and> index_file (r_sst r) = index_file (r_sst rng)"
proof -
  obtain p saved where p: "bf_file_path bf = Some p" "files fs p = Some (bf_serialize saved)" "8 \<le> max_read P"
    "no_of_hash_func saved < 2 ^ 32"
    "no_of_hash_func saved = 0 \<or> calculate_no_of_bits P (num_elements saved) (false_positive_rate saved) \<noteq> 0"
    using assms(3) by (auto simp: filter_restorable_def rebuildable_def)
  define meta where "meta = bf\<lparr>false_positive_rate := false_positive_rate saved,
     no_of_hash_func := no_of_hash_func saved, no_of_elements := no_of_elements saved,
     bit_vec := replicate (unat (calculate_no_of_bits P (num_elements saved) (false_positive_rate saved))) False\<rparr>"
  have m: "bf_recover_meta P fs bf = Ok meta"
    using filter_file_recover_serialized [OF p(2,3,4)] p(1,4)
    by (simp add: bf_recover_meta_def num_elements_def unat_u32_of_nat meta_def)
  define bf2 where "bf2 = meta\<lparr>bf_sst_dir := Some (t_dir (r_sst rng))\<rparr>"
  have ok2: "bf_ok bf2"
    using p(5) by (auto simp: bf_ok_def unsigned_eq_0_iff meta_def bf2_def)
  have disk: "table_on_disk P fs (r_sst rng) es"
    using assms(1) by (simp add: range_ok_def)
  define es' where "es' = map (\<lambda>(k, v). (k, stored_value v)) es"
  have keys: "fst ` set es' = fst ` set es"
    by (force simp: es'_def)
  obtain bf3 where b: "build_filter_from_entries P bf2 es' = Ok bf3" "bf_ok bf3"
    "\<forall>k. k \<in> fst ` set es' \<or> bf_contains P bf2 k = Ok True \<longrightarrow> bf_contains P bf3 k = Ok True"
    using build_filter_complete [OF ok2] by metis
  have dir3: "bf_sst_dir bf3 = Some (t_dir (r_sst rng))"
    using build_filter_sst_dir [OF b(1)] by (simp add: bf2_def)
  define r where "r = rng\<lparr>r_sst := (r_sst rng)\<lparr>t_entries := [], t_size := length (data_file_of es),
    t_filter := Some bf3\<rparr>\<rparr>"
  have "restore_range P fs rng bf = Ok (r, bf3)"
    using m b(1) load_entries_on_disk [OF disk]
    by (simp add: restore_range_def bf2_def es'_def r_def)
  moreover have ready: "filter_ready P es bf3"
    using b(2,3) dir3 keys by (simp add: filter_ready_def)
  moreover have "range_ok P fs d r es"
    using assms(1) ready by (simp add: range_ok_def r_def table_on_disk_def in_range_def)
  ultimately show ?thesis
    by (auto simp: r_def)
qed

section \<open>The tables that can hold a key\<close>

definition serves :: "platform \<Rightarrow> filesys \<Rightarrow> (path \<Rightarrow> entries) \<Rightarrow> Table \<Rightarrow> bool" where
  "serves P fs C t \<longleftrightarrow> table_on_disk P fs t (C (t_dir t))"

definition restored_ok :: "platform \<Rightarrow> filesys \<Rightarrow> (path \<Rightarrow> entries) \<Rightarrow> path \<times> Range \<Rightarrow> bool" where
  "restored_ok P fs C = (\<lambda>(d, r). range_ok P fs d r (C d)
     \<and> (\<exists>bf. t_filter (r_sst r) = Some bf \<and> filter_ready P (C d) bf))"

lemma range_ok_serves: "range_ok P fs d r (C d) \<Longrightarrow> serves P fs C (r_sst r) \<and> t_dir (r_sst r) = d"
  by (auto simp: range_ok_def serves_def)

lemma range_ok_in_range: "range_ok P fs d r es \<Longrightarrow> sm_get es key \<noteq> None \<Longrightarrow> in_range r key"
  by (auto simp: range_ok_def dest!: sm_get_in_set)

lemma filter_ready_contains:
  "filter_ready P es bf \<Longrightarrow> \<exists>b. bf_contains P bf key = Ok b \<and> (sm_get es key \<noteq> None \<longrightarrow> b)"
  using bloom.has_total [of bf P key] by (force simp: filter_ready_def dest: sm_get_in_set)

lemma check_restored_complete:
  assumes "\<forall>e \<in> set (restored_ranges kr). restored_ok P fs C e"
  shows "\<exists>ts. check_restored_key_ranges P kr key = Ok ts
    \<and> (\<forall>t \<in> set ts. serves P fs C t \<and> t_dir t \<in> fst ` set (restored_ranges kr))
    \<and> (\<forall>(d, r) \<in> set (restored_ranges kr). sm_get (C d) key \<noteq> None \<longrightarrow> r_sst r \<in> set ts)"
proof -
  define f where "f = (\<lambda>(_ :: path, rng) filtered_ssts.
         if in_range rng key
         then and_then (unwrap (t_filter (r_sst rng))) (\<lambda>bf.
              and_then (bf_contains P bf key) (\<lambda>b.
                Ok (if b then filtered_ssts @ [r_sst rng] else filtered_ssts)))
         else Ok filtered_ssts)"
  have "\<exists>ts. fold_res f rs ts0 = Ok ts \<and> set ts0 \<subseteq> set ts
      \<and> (\<forall>t \<in> set ts. t \<in> set ts0 \<or> serves P fs C t \<and> t_dir t \<in> fst ` set rs)
      \<and> (\<forall>(d, r) \<in> set rs. sm_get (C d) key \<noteq> None \<longrightarrow> r_sst r \<in> set ts)"
    if "\<forall>e \<in> set rs. restored_ok P fs C e" for rs :: "(path \<times> Range) list" and ts0
    using that
  proof (induction rs arbitrary: ts0)
    case (Cons e rs)
    obtain d r where e: "e = (d, r)" by force
    obtain bf where r: "range_ok P fs d r (C d)" "t_filter (r_sst r) = Some bf" "filter_ready P (C d) bf"
      using Cons.prems by (auto simp: e restored_ok_def)
    obtain b where b: "bf_contains P bf key = Ok b" "sm_get (C d) key \<noteq> None \<longrightarrow> b"
      using filter_ready_contains [OF r(3)] by blast
    define ts1 where "ts1 = (if in_range r key \<and> b then ts0 @ [r_sst r] else ts0)"
    have step: "f e ts0 = Ok ts1"
      using r(2) b(1) by (simp add: e ts1_def f_def)
    have hit: "sm_get (C d) key \<noteq> None \<longrightarrow> r_sst r \<in> set ts1"
      using b(2) range_ok_in_range [OF r(1)] by (simp add: ts1_def)
    obtain ts where ts: "fold_res f rs ts1 = Ok ts" "set ts1 \<subseteq> set ts"
      "\<forall>t \<in> set ts. t \<in> set ts1 \<or> serves P fs C t \<and> t_dir t \<in> fst ` set rs"
      "\<forall>(d, r) \<in> set rs. sm_get (C d) key \<noteq> None \<longrightarrow> r_sst r \<in> set ts"
      using Cons.IH [of ts1] Cons.prems by auto
    have "fold_res f (e # rs) ts0 = Ok ts"
      using step ts(1) by (simp del: and_then_eq_Ok)
    moreover have "\<forall>t \<in> set ts. t \<in> set ts0 \<or> serves P fs C t \<and> t_dir t \<in> fst ` set (e # rs)"
      using ts(3) range_ok_serves [where C = C, OF r(1)] by (auto simp: ts1_def e split: if_splits)
    moreover have "set ts0 \<subseteq> set ts"
      using ts(2) by (auto simp: ts1_def split: if_splits)
    moreover have "\<forall>(d, r) \<in> set (e # rs). sm_get (C d) key \<noteq> None \<longrightarrow> r_sst r \<in> set ts"
      using hit ts(2,4) by (auto simp: e)
    ultimately show ?case by blast
  qed simp
  from this [OF assms, of "[]"] show ?thesis
    by (simp add: check_restored_key_ranges_def f_def)
qed

text \<open>One range: the table is kept if it holds the key, and a restored filter is complete.\<close>

lemma filter_step_complete:
  assumes "range_ok P fs d r (C d)" and "\<forall>e \<in> set m. restored_ok P fs C e"
  shows "\<exists>ts' m'. filter_step P fs kr key (d, r) (ts, m) = Ok (ts', m') \<and> set ts \<subseteq> set ts'
    \<and> (\<forall>t \<in> set ts'. t \<in> set ts \<or> serves P fs C t \<and> t_dir t = d)
    \<and> (\<forall>e \<in> set m'. restored_ok P fs C e)
    \<and> (hm_contains (restored_ranges kr) d \<or> sm_get (C d) key = None \<or> (\<exists>t \<in> set ts'. t_dir t = d))"
proof -
  note sv = range_ok_serves [where C = C, OF assms(1)]
  obtain bf where bf: "t_filter (r_sst r) = Some bf" "filter_ready P (C d) bf \<or> filter_restorable P fs bf"
    using assms(1) by (auto simp: range_ok_def)
  consider "hm_contains (restored_ranges kr) d" | "\<not> hm_contains (restored_ranges kr) d" "\<not> in_range r key"
    | "\<not> hm_contains (restored_ranges kr) d" "in_range r key" "filter_ready P (C d) bf"
    | "\<not> hm_contains (restored_ranges kr) d" "in_range r key" "filter_restorable P fs bf"
    using bf(2) by blast
  then show ?thesis
  proof cases
    case 1
    then have "restored_ranges kr \<noteq> []" by (auto simp: hm_contains_def)
    with 1 assms(2) sv show ?thesis by (simp add: filter_step_def)
  next
    case 2
    with assms(2) sv range_ok_in_range [OF assms(1), of key] show ?thesis
      by (auto simp: filter_step_def)
  next
    case 3
    obtain b where b: "bf_contains P bf key = Ok b" "sm_get (C d) key \<noteq> None \<longrightarrow> b"
      using filter_ready_contains [OF 3(3)] by blast
    have "filter_step P fs kr key (d, r) (ts, m) = Ok (if b then ts @ [r_sst r] else ts, m)"
      using 3 bf(1) b(1) sv by (auto simp: filter_step_def filter_ready_def)
    with b(2) assms(2) sv show ?thesis by auto
  next
    case 4
    obtain r' bf' where r': "restore_range P fs r bf = Ok (r', bf')" "range_ok P fs d r' (C d)"
      "t_filter (r_sst r') = Some bf'" "filter_ready P (C d) bf'"
      using restore_range_ok [OF assms(1) bf(1) 4(3)] by blast
    note sv' = range_ok_serves [where C = C, OF r'(2)]
    obtain b where b: "bf_contains P bf' key = Ok b"
      using filter_ready_contains [OF r'(4)] by blast
    have old: "bf_contains P bf key = Ok True" "bf_sst_dir bf = None"
      using 4(3) by (simp_all add: filter_restorable_def bf_contains_def)
    have "filter_step P fs kr key (d, r) (ts, m) =
        Ok (ts @ [if b then r_sst r' else r_sst r], hm_insert d r' m)"
      using 4 bf(1) b old r'(1) sv sv' by (simp add: filter_step_def)
    moreover have "\<forall>e \<in> set (hm_insert d r' m). restored_ok P fs C e"
      using assms(2) r'(2-4) by (auto simp: hm_insert_set restored_ok_def)
    ultimately show ?thesis
      using sv sv' by auto
  qed
qed

lemma filter_fold_complete:
  assumes "\<forall>(d, r) \<in> set rs. range_ok P fs d r (C d)" and "\<forall>e \<in> set m. restored_ok P fs C e"
  shows "\<exists>ts' m'. fold_res (filter_step P fs kr key) rs (ts, m) = Ok (ts', m') \<and> set ts \<subseteq> set ts'
    \<and> (\<forall>t \<in> set ts'. t \<in> set ts \<or> serves P fs C t \<and> t_dir t \<in> fst ` set rs)
    \<and> (\<forall>e \<in> set m'. restored_ok P fs C e)
    \<and> (\<forall>(d, r) \<in> set rs. hm_contains (restored_ranges kr) d \<or> sm_get (C d) key = None \<or> (\<exists>t \<in> set ts'. t_dir t = d))"
  using assms
proof (induction rs arbitrary: ts m)
  case (Cons e rs)
  obtain d r where e: "e = (d, r)" by force
  have r: "range_ok P fs d r (C d)" and rs: "\<forall>(d, r) \<in> set rs. range_ok P fs d r (C d)"
    using Cons.prems(1) by (auto simp: e)
  obtain ts1 m1 where 1: "filter_step P fs kr key (d, r) (ts, m) = Ok (ts1, m1)" "set ts \<subseteq> set ts1"
    "\<forall>t \<in> set ts1. t \<in> set ts \<or> serves P fs C t \<and> t_dir t = d" "\<forall>e \<in> set m1. restored_ok P fs C e"
    "hm_contains (restored_ranges kr) d \<or> sm_get (C d) key = None \<or> (\<exists>t \<in> set ts1. t_dir t = d)"
    using filter_step_complete [where C = C, OF r Cons.prems(2)] by blast
  obtain ts2 m2 where 2: "fold_res (filter_step P fs kr key) rs (ts1, m1) = Ok (ts2, m2)" "set ts1 \<subseteq> set ts2"
    "\<forall>t \<in> set ts2. t \<in> set ts1 \<or> serves P fs C t \<and> t_dir t \<in> fst ` set rs" "\<forall>e \<in> set m2. restored_ok P fs C e"
    "\<forall>(d, r) \<in> set rs. hm_contains (restored_ranges kr) d \<or> sm_get (C d) key = None \<or> (\<exists>t \<in> set ts2. t_dir t = d)"
    using Cons.IH [OF rs 1(4)] by blast
  have "fold_res (filter_step P fs kr key) (e # rs) (ts, m) = Ok (ts2, m2)"
    using 1(1) 2(1) by (simp add: e del: and_then_eq_Ok)
  moreover have "\<forall>t \<in> set ts2. t \<in> set ts \<or> serves P fs C t \<and> t_dir t \<in> fst ` set (e # rs)"
    using 1(3) 2(3) by (auto simp: e)
  moreover have "\<forall>(d, r) \<in> set (e # rs). hm_contains (restored_ranges kr) d \<or> sm_get (C d) key = None
      \<or> (\<exists>t \<in> set ts2. t_dir t = d)"
    using 1(5) 2(2,5) by (auto simp: e)
  ultimately show ?case
    using 1(2) 2(2,4) by blast
qed simp

lemma kr_ok_restored: "kr_ok P fs C kr \<longleftrightarrow> (\<forall>(d, r) \<in> set (key_ranges kr). range_ok P fs d r (C d))
    \<and> (\<forall>e \<in> set (restored_ranges kr). restored_ok P fs C e)"
  by (auto simp: kr_ok_def restored_ok_def)

lemma filter_complete:
  assumes "kr_ok P fs C kr"
  shows "\<exists>ts m. filter_sstables_by_key_range P fs kr key = Ok (ts, m)
    \<and> (\<forall>t \<in> set ts. serves P fs C t \<and> t_dir t \<in> fst ` set (key_ranges kr) \<union> fst ` set (restored_ranges kr))
    \<and> (\<forall>d \<in> fst ` set (key_ranges kr). sm_get (C d) key \<noteq> None \<longrightarrow> (\<exists>t \<in> set ts. t_dir t = d))
    \<and> (\<forall>e \<in> set m. restored_ok P fs C e)"
proof -
  have rs: "\<forall>(d, r) \<in> set (key_ranges kr). range_ok P fs d r (C d)"
    and re: "\<forall>e \<in> set (restored_ranges kr). restored_ok P fs C e"
    using assms by (auto simp: kr_ok_restored)
  obtain ts0 where 0: "(if restored_ranges kr \<noteq> [] then check_restored_key_ranges P kr key else Ok []) = Ok ts0"
    "\<forall>t \<in> set ts0. serves P fs C t \<and> t_dir t \<in> fst ` set (restored_ranges kr)"
    "\<forall>(d, r) \<in> set (restored_ranges kr). sm_get (C d) key \<noteq> None \<longrightarrow> r_sst r \<in> set ts0"
  proof (cases "restored_ranges kr = []")
    case True
    then show ?thesis by (intro that [of "[]"]) simp_all
  next
    case False
    obtain ts where "check_restored_key_ranges P kr key = Ok ts"
      "\<forall>t \<in> set ts. serves P fs C t \<and> t_dir t \<in> fst ` set (restored_ranges kr)"
      "\<forall>(d, r) \<in> set (restored_ranges kr). sm_get (C d) key \<noteq> None \<longrightarrow> r_sst r \<in> set ts"
      using check_restored_complete [OF re, of key] by blast
    with False show ?thesis by (intro that [of ts]) simp_all
  qed
  obtain ts m where 1: "fold_res (filter_step P fs kr key) (key_ranges kr) (ts0, []) = Ok (ts, m)" "set ts0 \<subseteq> set ts"
    "\<forall>t \<in> set ts. t \<in> set ts0 \<or> serves P fs C t \<and> t_dir t \<in> fst ` set (key_ranges kr)"
    "\<forall>e \<in> set m. restored_ok P fs C e"
    "\<forall>(d, r) \<in> set (key_ranges kr). hm_contains (restored_ranges kr) d \<or> sm_get (C d) key = None \<or> (\<exists>t \<in> set ts. t_dir t = d)"
    using filter_fold_complete [OF rs, of "[]" kr key ts0] by auto
  have hit: "\<exists>t \<in> set ts. t_dir t = d" if "d \<in> fst ` set (key_ranges kr)" "sm_get (C d) key \<noteq> None" for d
  proof (cases "hm_contains (restored_ranges kr) d")
    case True
    then obtain r where r: "(d, r) \<in> set (restored_ranges kr)"
      by (auto simp: hm_contains_def)
    then have "t_dir (r_sst r) = d"
      using re by (auto simp: restored_ok_def range_ok_def)
    moreover have "r_sst r \<in> set ts"
      using 0(3) 1(2) r that(2) by auto
    ultimately show ?thesis by blast
  next
    case False
    with 1(5) that show ?thesis by auto
  qed
  have "filter_sstables_by_key_range P fs kr key = Ok (ts, m)"
    unfolding filter_sstables_by_key_range_def 0(1) by (simp add: 1(1))
  with 0(2) 1(3,4) hit show ?thesis by blast
qed

section \<open>Every operation keeps the invariant\<close>

lemma key_range_set_ok:
  assumes "kr_ok P fs C kr" and "range_ok P fs d (range_new a b t) (C d)"
  shows "kr_ok P fs C (fst (key_range_set kr d a b t))"
  using assms by (auto simp: kr_ok_def key_range_set_def hm_insert_set)

lemma key_range_remove_ok: "kr_ok P fs C kr \<Longrightarrow> kr_ok P fs C (fst (key_range_remove kr d))"
  by (auto simp: kr_ok_def key_range_remove_def hm_remove_def)

lemma publish_restored_ok:
  "kr_ok P fs C kr \<Longrightarrow> \<forall>e \<in> set m. restored_ok P fs C e \<Longrightarrow> kr_ok P fs C (publish_restored kr m)"
  by (auto simp: kr_ok_restored publish_restored_def)

lemma update_key_range_ok:
  assumes "kr_ok P fs C kr"
  shows "kr_ok P fs C (update_key_range kr)"
proof -
  have "set (fold (\<lambda>(path, rng). hm_insert path rng) rs m) \<subseteq> set rs \<union> set m" for rs and m :: "(path, Range) hashmap"
  proof (induction rs arbitrary: m)
    case (Cons e rs)
    have "set ((\<lambda>(path, rng). hm_insert path rng) e m) \<subseteq> insert e (set m)"
      by (auto simp: hm_insert_set split: prod.splits)
    with Cons.IH [of "(\<lambda>(path, rng). hm_insert path rng) e m"] show ?case by auto
  qed simp
  then show ?thesis
    using assms by (fastforce simp: kr_ok_def update_key_range_def)
qed

text \<open>C6. Selecting the tables for a key misses none that holds it: with well-formed key ranges the
  selection succeeds, every table it returns is a table on disk, and each table on disk that holds
  the key is among them, also right after a restart when filters are rebuilt on the way. The
  ranges with restored filters that it publishes, and merging them, keep the key ranges
  well-formed.\<close>

theorem key_range_filter_complete:
  assumes "kr_ok P fs C kr"
  shows "\<exists>ts m. filter_sstables_by_key_range P fs kr key = Ok (ts, m)
    \<and> (\<forall>t \<in> set ts. table_on_disk P fs t (C (t_dir t)))
    \<and> (\<forall>d \<in> fst ` set (key_ranges kr). sm_get (C d) key \<noteq> None \<longrightarrow> (\<exists>t \<in> set ts. t_dir t = d))
    \<and> kr_ok P fs C (publish_restored kr m) \<and> kr_ok P fs C (update_key_range (publish_restored kr m))"
proof -
  obtain ts m where "filter_sstables_by_key_range P fs kr key = Ok (ts, m)"
    "\<forall>t \<in> set ts. serves P fs C t"
    "\<forall>d \<in> fst ` set (key_ranges kr). sm_get (C d) key \<noteq> None \<longrightarrow> (\<exists>t \<in> set ts. t_dir t = d)"
    "\<forall>e \<in> set m. restored_ok P fs C e"
    using filter_complete [OF assms] by blast
  with assms show ?thesis
    by (intro exI [of _ ts] exI [of _ m]) (simp add: serves_def publish_restored_ok update_key_range_ok)
qed

theorem key_range_filter_complete_witness:
  "\<exists>fs kr ts m. key_ranges kr \<noteq> []
    \<and> filter_sstables_by_key_range sample_platform fs kr [4] = Ok (ts, m) \<and> ts \<noteq> []"
proof -
  have f: "t_filter sample_table = Some sample_filter" by (simp add: sample_table_def)
  obtain css where d: "table_on_disk sample_platform (written_fs sample_table_fs sample_filter sample_table css)
      (written_table sample_filter sample_table) (t_entries sample_table)"
    using table_write_on_disk [OF sample_table_ready f] by blast
  define fs where "fs = written_fs sample_table_fs sample_filter sample_table css"
  define t where "t = (written_table sample_filter sample_table)\<lparr>t_filter :=
    Some (bf_default\<lparr>bf_file_path := Some [''t'', FILTER_FILE]\<rparr>)\<rparr>"
  define kr where "kr = \<lparr>key_ranges = [([''t''], range_new [1] [4] t)], restored_ranges = []\<rparr>"
  have "files fs [''t'', FILTER_FILE] = Some (bf_serialize sample_filter)"
    by (simp add: fs_def written_fs_def file_names sample_table_def)
  moreover have "calculate_no_of_bits sample_platform (num_elements sample_filter) (false_positive_rate sample_filter) \<noteq> 0"
    "no_of_hash_func sample_filter < 2 ^ 32"
    by (simp_all add: calculate_no_of_bits_def sample_platform_def sample_filter_def num_elements_def)
  ultimately have "filter_restorable sample_platform fs (bf_default\<lparr>bf_file_path := Some [''t'', FILTER_FILE]\<rparr>)"
    by (auto simp: filter_restorable_def rebuildable_def bf_default_def sample_platform_def)
  moreover have "table_on_disk sample_platform fs t (t_entries sample_table)"
    using d by (simp add: table_on_disk_def t_def fs_def)
  ultimately have "kr_ok sample_platform fs (\<lambda>_. t_entries sample_table) kr"
    by (simp add: kr_ok_def kr_def range_ok_def range_new_def in_range_def t_def written_table_def
        sample_table_def)
  from key_range_filter_complete [OF this, of "[4]"] obtain ts m where
    "filter_sstables_by_key_range sample_platform fs kr [4] = Ok (ts, m)"
    "\<forall>d \<in> fst ` set (key_ranges kr). sm_get (t_entries sample_table) [4] \<noteq> None \<longrightarrow> (\<exists>t \<in> set ts. t_dir t = d)"
    by blast
  then show ?thesis
    by (intro exI [of _ fs] exI [of _ kr] exI [of _ ts] exI [of _ m])
      (auto simp: kr_def sample_table_def sm_get_def)
qed



end
