(* ===== verification/Bucket_Manager.thy ===== *)
theory Bucket_Manager
  imports SS_Table
begin

text \<open>
  The buckets of \<^verbatim>\<open>src/bucket/bucket_manager.rs\<close>, which group tables of about the same size for
  compaction. An \<^verbatim>\<open>IndexMap\<close> is an association list in insertion order; fresh uuids and the current
  time are arguments. The averages are compared in the naturals; the code compares them as \<^verbatim>\<open>f64\<close>,
  which is exact below \<open>2 ^ 52\<close> bytes.
\<close>

section \<open>Insertion-ordered maps\<close>

type_synonym ('k, 'v) indexmap = "('k \<times> 'v) list"

fun im_insert :: "'k \<Rightarrow> 'v \<Rightarrow> ('k, 'v) indexmap \<Rightarrow> ('k, 'v) indexmap" where
  "im_insert k v [] = [(k, v)]"
| "im_insert k v ((k', v') # m) = (if k = k' then (k, v) # m else (k', v') # im_insert k v m)"

definition im_shift_remove :: "'k \<Rightarrow> ('k, 'v) indexmap \<Rightarrow> ('k, 'v) indexmap" where
  "im_shift_remove k m = filter (\<lambda>e. fst e \<noteq> k) m"

section \<open>Buckets\<close>

type_synonym BucketID = string

record Bucket =
  b_id :: BucketID
  b_dir :: path
  b_size :: nat
  avarage_size :: nat
  sstables :: "Table list"

record BucketMap =
  bm_dir :: path
  buckets :: "(BucketID, Bucket) indexmap"

datatype InsertionType = New | Exisiting

text \<open>The trait \<^verbatim>\<open>InsertableToBucket\<close>, by its three methods.\<close>

record Insertable =
  get_entries :: entries
  ins_size :: nat
  get_filter :: BloomFilter

definition insertable_memtable :: "MemTable \<Rightarrow> Insertable" where
  "insertable_memtable mt =
     \<lparr>get_entries = mt_entries mt, ins_size = mt_size mt, get_filter = mt_bloom_filter mt\<rparr>"

definition insertable_table :: "Table \<Rightarrow> Insertable res" where
  "insertable_table t = and_then (unwrap (t_filter t)) (\<lambda>bf.
     Ok \<lparr>get_entries = t_entries t, ins_size = t_size t, get_filter = bf\<rparr>)"

definition bucket_new :: "filesys \<Rightarrow> path \<Rightarrow> BucketID \<Rightarrow> filesys \<times> Bucket" where
  "bucket_new fs dir new_id =
     (let dir' = dir @ [BUCKET_DIRECTORY_PREFIX @ new_id]
      in (create_dir_all fs dir',
          \<lparr>b_id = new_id, b_dir = dir', b_size = 0, avarage_size = 0, sstables = []\<rparr>))"

text \<open>The file sizes are fetched by tasks; a missing file makes \<^verbatim>\<open>unwrap\<close> panic.\<close>

definition cal_average_size :: "filesys \<Rightarrow> Table list \<Rightarrow> nat res" where
  "cal_average_size fs ssts =
     (if ssts = [] then Ok 0
      else and_then (fold_res (\<lambda>s size. and_then (file_size fs (data_file s)) (\<lambda>n. Ok (size + n))) ssts 0)
        (\<lambda>size. Ok (size div length ssts)))"

definition bucket_from :: "filesys \<Rightarrow> path \<Rightarrow> BucketID \<Rightarrow> Table list \<Rightarrow> nat \<Rightarrow> Bucket res" where
  "bucket_from fs dir bid ssts average =
     and_then (if average = 0 then cal_average_size fs ssts else Ok average) (\<lambda>avg.
       Ok \<lparr>b_id = bid, b_dir = dir, b_size = length ssts * avg, avarage_size = avg, sstables = ssts\<rparr>)"

definition fits_into_bucket :: "Bucket \<Rightarrow> Insertable \<Rightarrow> bool" where
  "fits_into_bucket b table \<longleftrightarrow>
     avarage_size b < 2 * ins_size table \<and> ins_size table < (3 * avarage_size b) div 2
       \<or> ins_size table < MIN_SSTABLE_SIZE \<and> avarage_size b < MIN_SSTABLE_SIZE"

definition extract_sstables :: "filesys \<Rightarrow> Bucket \<Rightarrow> (Table list \<times> nat) res" where
  "extract_sstables fs b =
     (if length (sstables b) < MIN_TRESHOLD then Ok ([], 0)
      else let extracted = (if MAX_TRESHOLD \<le> length (sstables b) then take MAX_TRESHOLD (sstables b)
                            else sstables b)
           in and_then (cal_average_size fs extracted) (\<lambda>average. Ok (extracted, average)))"

definition sstable_count_exceeds_threshhold :: "Bucket \<Rightarrow> bool" where
  "sstable_count_exceeds_threshhold b \<longleftrightarrow> MIN_TRESHOLD \<le> length (sstables b)"

section \<open>The bucket map\<close>

definition bucket_map_new :: "filesys \<Rightarrow> path \<Rightarrow> filesys \<times> BucketMap" where
  "bucket_map_new fs dir = (create_dir_all fs dir, \<lparr>bm_dir = dir, buckets = []\<rparr>)"

fun decimal_digits :: "nat \<Rightarrow> string" where
  "decimal_digits n =
     (if n < 10 then [char_of (48 + n)] else decimal_digits (n div 10) @ [char_of (48 + n mod 10)])"

declare decimal_digits.simps [simp del]

definition sst_dir_name :: "datetime \<Rightarrow> string" where
  "sst_dir_name created_at = ''sstable_'' @ decimal_digits (nat (timestamp_millis created_at))"

definition insert_to_bucket ::
  "filesys \<Rightarrow> BucketMap \<Rightarrow> Bucket \<Rightarrow> Insertable \<Rightarrow> InsertionType \<Rightarrow> datetime \<Rightarrow> datetime
     \<Rightarrow> (filesys \<times> BucketMap \<times> Table) res" where
  "insert_to_bucket fs bm b table insert_type now now' =
     (let sst_dir = b_dir b @ [sst_dir_name now]
      in and_then (table_new fs sst_dir now') (\<lambda>(fs1, sst1).
         let sst2 = (set_entries sst1 (get_entries table))\<lparr>t_filter := Some (get_filter table)\<rparr>
         in and_then (table_write_to_file fs1 sst2) (\<lambda>(fs2, sst).
            let b1 = b\<lparr>sstables := sstables b @ [sst]\<rparr>
            in case insert_type of
              New \<Rightarrow> and_then (file_size fs2 (data_file sst)) (\<lambda>len.
                let b2 = b1\<lparr>avarage_size := len\<rparr>
                in Ok (fs2, bm\<lparr>buckets := im_insert (b_id b2) b2 (buckets bm)\<rparr>, sst))
            | Exisiting \<Rightarrow>
                let ssts = map increase_hotness (sstables b1)
                in and_then (cal_average_size fs2 ssts) (\<lambda>avg.
                   let b2 = b1\<lparr>sstables := ssts, avarage_size := avg, b_size := avg * length ssts\<rparr>
                   in Ok (fs2, bm\<lparr>buckets := im_insert (b_id b2) b2 (buckets bm)\<rparr>, sst)))))"

definition insert_to_appropriate_bucket ::
  "filesys \<Rightarrow> BucketMap \<Rightarrow> Insertable \<Rightarrow> BucketID \<Rightarrow> datetime \<Rightarrow> datetime
     \<Rightarrow> (filesys \<times> BucketMap \<times> Table) res" where
  "insert_to_appropriate_bucket fs bm table new_id now now' =
     (case find (\<lambda>(_, b). fits_into_bucket b table) (buckets bm) of
        Some (_, b) \<Rightarrow> insert_to_bucket fs bm b table Exisiting now now'
      | None \<Rightarrow>
          let (fs', b) = bucket_new fs (bm_dir bm) new_id
          in insert_to_bucket fs' bm b table New now now')"

type_synonym SSTablesToRemove = "(BucketID \<times> Table list) list"

definition extract_imbalanced_buckets :: "filesys \<Rightarrow> BucketMap \<Rightarrow> (Bucket list \<times> SSTablesToRemove) res" where
  "extract_imbalanced_buckets fs bm =
     fold_res (\<lambda>(bucket_id, b) (imbalanced_buckets, ssts_to_delete).
         and_then (extract_sstables fs b) (\<lambda>(ssts, avg).
           Ok (if ssts \<noteq> []
               then (imbalanced_buckets @ [\<lparr>b_id = bucket_id, b_dir = b_dir b, b_size = avg * length ssts,
                       avarage_size = avg, sstables = ssts\<rparr>],
                     ssts_to_delete @ [(bucket_id, ssts)])
               else (imbalanced_buckets, ssts_to_delete))))
       (buckets bm) ([], [])"

definition is_balanced :: "BucketMap \<Rightarrow> bool" where
  "is_balanced bm \<longleftrightarrow> (\<forall>(_, b) \<in> set (buckets bm). \<not> sstable_count_exceeds_threshhold b)"

text \<open>Failures of \<^verbatim>\<open>fs::remove_dir_all\<close> are logged only.\<close>

definition remove_dir_logged :: "filesys \<Rightarrow> path \<Rightarrow> filesys \<times> bool" where
  "remove_dir_logged fs d = (case remove_dir_all fs d of Ok fs' \<Rightarrow> (fs', True) | _ \<Rightarrow> (fs, False))"

definition delete_sst_dir :: "Table \<Rightarrow> filesys \<times> bool \<Rightarrow> filesys \<times> bool" where
  "delete_sst_dir sst = (\<lambda>(fs, all_deleted).
     if dirs fs (t_dir sst)
     then let (fs', ok) = remove_dir_logged fs (t_dir sst) in (fs', all_deleted \<and> ok)
     else (fs, all_deleted))"

text \<open>One turn of the loop of \<^verbatim>\<open>delete_ssts\<close>; the emptied buckets leave the map after the loop.\<close>

definition delete_step ::
  "BucketID \<times> Table list \<Rightarrow> filesys \<times> (BucketID, Bucket) indexmap \<times> bool \<times> BucketID list
     \<Rightarrow> (filesys \<times> (BucketID, Bucket) indexmap \<times> bool \<times> BucketID list) res" where
  "delete_step = (\<lambda>(bucket_id, ssts) (fs, bs, all_deleted, buckets_to_delete).
     and_then
       (case map_of bs bucket_id of
          None \<Rightarrow> Ok (fs, bs, buckets_to_delete)
        | Some b \<Rightarrow>
            let ssts_remaining = drop (length ssts) (sstables b)
            in if ssts_remaining \<noteq> []
               then and_then (cal_average_size fs ssts_remaining) (\<lambda>new_average.
                 Ok (fs, im_insert bucket_id
                       \<lparr>b_id = b_id b, b_dir = b_dir b, b_size = new_average * length ssts_remaining,
                        avarage_size = new_average, sstables = ssts_remaining\<rparr> bs,
                     buckets_to_delete))
               else Ok (fst (remove_dir_logged fs (b_dir b)), bs, buckets_to_delete @ [bucket_id]))
       (\<lambda>(fs', bs', buckets_to_delete').
         let (fs'', all_deleted') = fold delete_sst_dir ssts (fs', all_deleted)
         in Ok (fs'', bs', all_deleted', buckets_to_delete')))"

definition delete_ssts :: "filesys \<Rightarrow> BucketMap \<Rightarrow> SSTablesToRemove \<Rightarrow> (filesys \<times> BucketMap \<times> bool) res" where
  "delete_ssts fs bm ssts_to_delete =
     and_then (fold_res delete_step ssts_to_delete (fs, buckets bm, True, []))
       (\<lambda>(fs', bs', all_deleted, buckets_to_delete).
         Ok (fs', bm\<lparr>buckets := fold im_shift_remove buckets_to_delete bs'\<rparr>, all_deleted))"

definition bucket_map_clear_all :: "filesys \<Rightarrow> BucketMap \<Rightarrow> filesys \<times> BucketMap" where
  "bucket_map_clear_all fs bm =
     (fold (\<lambda>(_, b) fs. if dirs fs (b_dir b) then fst (remove_dir_logged fs (b_dir b)) else fs) (buckets bm) fs,
      bm\<lparr>buckets := []\<rparr>)"

section \<open>Sizes and averages\<close>

definition tables_exist :: "filesys \<Rightarrow> Table list \<Rightarrow> bool" where
  "tables_exist fs ts \<longleftrightarrow>
     (\<forall>t \<in> set ts. data_file t = t_dir t @ [DATA_FILE] \<and> files fs (t_dir t @ [DATA_FILE]) \<noteq> None)"

definition data_len :: "filesys \<Rightarrow> Table \<Rightarrow> nat" where
  "data_len fs t = length (the (files fs (data_file t)))"

lemma cal_average_size_ok:
  assumes "tables_exist fs ts"
  shows "cal_average_size fs ts = Ok (sum_list (map (data_len fs) ts) div length ts)"
proof -
  have "fold_res (\<lambda>s size. and_then (file_size fs (data_file s)) (\<lambda>n. Ok (size + n))) ts n
      = Ok (n + sum_list (map (data_len fs) ts))" for n
    using assms by (induction ts arbitrary: n) (auto simp: tables_exist_def file_size_def data_len_def)
  then show ?thesis by (simp add: cal_average_size_def)
qed

section \<open>The invariant of the bucket map\<close>

text \<open>Each bucket is stored under its own id, once, and its tables have their data files.\<close>

definition bm_wf :: "filesys \<Rightarrow> BucketMap \<Rightarrow> bool" where
  "bm_wf fs bm \<longleftrightarrow> distinct (map fst (buckets bm))
     \<and> (\<forall>(i, b) \<in> set (buckets bm). b_id b = i \<and> tables_exist fs (sstables b))"

definition bm_tables :: "BucketMap \<Rightarrow> Table list" where
  "bm_tables bm = concat (map (\<lambda>(i, b). sstables b) (buckets bm))"

definition table_count :: "(BucketID, Bucket) indexmap \<Rightarrow> nat" where
  "table_count bs = sum_list (map (\<lambda>(i, b). length (sstables b)) bs)"

lemma table_count_tables: "table_count (buckets bm) = length (bm_tables bm)"
  by (simp add: table_count_def bm_tables_def length_concat comp_def case_prod_beta')

lemma im_insert_keys: "fst ` set (im_insert k v m) = insert k (fst ` set m)"
  by (induction k v m rule: im_insert.induct) (simp_all add: insert_commute)

lemma im_insert_distinct: "distinct (map fst m) \<Longrightarrow> distinct (map fst (im_insert k v m))"
proof (induction m)
  case (Cons e m)
  then show ?case using im_insert_keys [of k v m] by (cases e) force
qed simp

lemma im_insert_set: "set (im_insert k v m) \<subseteq> insert (k, v) (set m)"
  by (induction m) (auto split: if_splits)

lemma im_insert_lookup: "map_of (im_insert k v m) = (map_of m)(k \<mapsto> v)"
  by (induction m) (auto simp: fun_eq_iff)

lemma im_insert_new: "k \<notin> fst ` set m \<Longrightarrow> im_insert k v m = m @ [(k, v)]"
  by (induction m) auto

lemma im_insert_count:
  assumes "distinct (map fst m)"
  shows "table_count (im_insert k v m) + (case map_of m k of None \<Rightarrow> 0 | Some b \<Rightarrow> length (sstables b))
    = table_count m + length (sstables v)"
  using assms by (induction m) (auto simp: table_count_def simp del: map_of_eq_Some_iff split: option.splits)

lemma im_shift_remove_count:
  assumes "distinct (map fst m)"
  shows "table_count (im_shift_remove k m) + (case map_of m k of None \<Rightarrow> 0 | Some b \<Rightarrow> length (sstables b))
    = table_count m"
  using assms
proof (induction m)
  case (Cons e m)
  obtain i b where e: "e = (i, b)" by force
  show ?case
  proof (cases "i = k")
    case True
    then have "im_shift_remove k m = m"
      using Cons.prems by (force simp: e im_shift_remove_def intro: filter_True)
    then show ?thesis
      using True by (simp add: e table_count_def im_shift_remove_def)
  next
    case False
    then show ?thesis
      using Cons by (simp add: e table_count_def im_shift_remove_def)
  qed
qed (simp add: table_count_def im_shift_remove_def)

section \<open>Extracting the buckets to compact\<close>

lemma extract_sstables_ok:
  assumes "tables_exist fs (sstables b)"
  shows "\<exists>avg. extract_sstables fs b =
    Ok (if length (sstables b) < 4 then [] else take 32 (sstables b), avg)"
proof -
  have "tables_exist fs (take 32 (sstables b))"
    using assms by (auto simp: tables_exist_def dest: in_set_takeD)
  then show ?thesis
    using assms by (simp add: extract_sstables_def constants cal_average_size_ok Let_def)
qed

lemma extract_imbalanced_ok:
  assumes "\<forall>(i, b) \<in> set (buckets bm). tables_exist fs (sstables b)"
  defines "big \<equiv> filter (\<lambda>(i, b). 4 \<le> length (sstables b)) (buckets bm)"
  shows "\<exists>imb. extract_imbalanced_buckets fs bm = Ok (imb, map (\<lambda>(i, b). (i, take 32 (sstables b))) big)
    \<and> map (\<lambda>b. (b_id b, sstables b)) imb = map (\<lambda>(i, b). (i, take 32 (sstables b))) big"
proof -
  let ?f = "\<lambda>(bucket_id, b) (imbalanced_buckets, ssts_to_delete).
         and_then (extract_sstables fs b) (\<lambda>(ssts, avg).
           Ok (if ssts \<noteq> []
               then (imbalanced_buckets @ [\<lparr>b_id = bucket_id, b_dir = b_dir b, b_size = avg * length ssts,
                       avarage_size = avg, sstables = ssts\<rparr>],
                     ssts_to_delete @ [(bucket_id, ssts)])
               else (imbalanced_buckets, ssts_to_delete)))"
  have "\<exists>imb. fold_res ?f bs (imb0, del0) = Ok (imb0 @ imb,
        del0 @ map (\<lambda>(i, b). (i, take 32 (sstables b))) (filter (\<lambda>(i, b). 4 \<le> length (sstables b)) bs))
      \<and> map (\<lambda>b. (b_id b, sstables b)) imb =
        map (\<lambda>(i, b). (i, take 32 (sstables b))) (filter (\<lambda>(i, b). 4 \<le> length (sstables b)) bs)"
    if "\<forall>(i, b) \<in> set bs. tables_exist fs (sstables b)" for bs :: "(BucketID, Bucket) indexmap" and imb0 del0
    using that
  proof (induction bs arbitrary: imb0 del0)
    case (Cons e bs)
    obtain i b where e: "e = (i, b)" by force
    obtain avg where ex: "extract_sstables fs b = Ok (if length (sstables b) < 4 then [] else take 32 (sstables b), avg)"
      using extract_sstables_ok [of fs b] Cons.prems by (auto simp: e)
    show ?case
    proof (cases "length (sstables b) < 4")
      case True
      with Cons.IH [of imb0 del0] Cons.prems ex show ?thesis by (simp add: e)
    next
      case False
      define nb where "nb = \<lparr>b_id = i, b_dir = b_dir b, b_size = avg * length (take 32 (sstables b)),
        avarage_size = avg, sstables = take 32 (sstables b)\<rparr>"
      have "take 32 (sstables b) \<noteq> []" using False by auto
      with False ex have step: "?f e (imb0, del0) = Ok (imb0 @ [nb], del0 @ [(i, take 32 (sstables b))])"
        by (simp add: e nb_def)
      obtain imb where "fold_res ?f bs (imb0 @ [nb], del0 @ [(i, take 32 (sstables b))]) = Ok ((imb0 @ [nb]) @ imb,
          (del0 @ [(i, take 32 (sstables b))]) @
          map (\<lambda>(i, b). (i, take 32 (sstables b))) (filter (\<lambda>(i, b). 4 \<le> length (sstables b)) bs))"
        "map (\<lambda>b. (b_id b, sstables b)) imb =
          map (\<lambda>(i, b). (i, take 32 (sstables b))) (filter (\<lambda>(i, b). 4 \<le> length (sstables b)) bs)"
        using Cons.IH [of "imb0 @ [nb]" "del0 @ [(i, take 32 (sstables b))]"] Cons.prems by auto
      then show ?thesis
        using False step by (intro exI [of _ "nb # imb"]) (simp add: e nb_def del: and_then_eq_Ok)
    qed
  qed simp
  from this [OF assms(1), of "[]" "[]"] show ?thesis
    unfolding big_def extract_imbalanced_buckets_def by simp
qed

section \<open>Inserting a table\<close>

text \<open>A table can be inserted under a new directory: its entries are ready for a flush.\<close>

definition insert_ready :: "platform \<Rightarrow> filesys \<Rightarrow> path \<Rightarrow> Insertable \<Rightarrow> bool" where
  "insert_ready P fs sst_dir table \<longleftrightarrow>
     (\<forall>name. files fs (sst_dir @ [name]) = None)
     \<and> get_entries table \<noteq> [] \<and> sm_sorted (get_entries table)
     \<and> (\<forall>e \<in> set (get_entries table). entry_ok P e \<and> length (fst e) + 17 \<le> BLOCK_SIZE)
     \<and> length (data_file_of (get_entries table)) < 2 ^ 32"

lemma table_new_fresh:
  assumes "\<forall>name. files fs (dir @ [name]) = None"
  shows "table_new fs dir now =
    Ok (with_file (with_file (create_dir_all fs dir) (dir @ [DATA_FILE]) []) (dir @ [INDEX_FILE]) [],
        \<lparr>t_dir = dir, hotness = 0, t_size = 0, t_created_at = now, data_file = dir @ [DATA_FILE],
         index_file = dir @ [INDEX_FILE], t_entries = [], t_filter = None, t_summary = None\<rparr>)"
  using assms by (simp add: table_new_def generate_file_path_def file_node_unwrap_def file_create_new file_names)

text \<open>What a newly written table is: on disk, with the given entries and their ends as summary.\<close>

definition new_table :: "platform \<Rightarrow> filesys \<Rightarrow> path \<Rightarrow> Insertable \<Rightarrow> Table \<Rightarrow> bool" where
  "new_table P fs sst_dir table sst \<longleftrightarrow> t_dir sst = sst_dir \<and> data_file sst = sst_dir @ [DATA_FILE]
     \<and> index_file sst = sst_dir @ [INDEX_FILE] \<and> table_on_disk P fs sst (get_entries table) \<and> t_entries sst = get_entries table
     \<and> t_size sst = length (data_file_of (get_entries table))
     \<and> t_summary sst = Some (table_summary sst) \<and> files fs (sst_dir @ [SUMMARY_FILE]) = Some (summary_serialize (table_summary sst))
     \<and> (\<forall>name. files fs (sst_dir @ [name]) \<noteq> None \<longleftrightarrow> name \<in> {DATA_FILE, FILTER_FILE, INDEX_FILE, SUMMARY_FILE})
     \<and> t_filter sst = Some ((get_filter table)\<lparr>bf_file_path := Some (sst_dir @ [FILTER_FILE]),
          bf_sst_dir := Some (data_file sst)\<rparr>)
     \<and> files fs (sst_dir @ [FILTER_FILE]) = Some (bf_serialize (get_filter table))"

text \<open>The directory exists and, but for those above it, no other one is new.\<close>

definition adds_dirs :: "filesys \<Rightarrow> filesys \<Rightarrow> path \<Rightarrow> bool" where
  "adds_dirs fs fs' d \<longleftrightarrow> (\<forall>p. dirs fs p \<longrightarrow> dirs fs' p) \<and> dirs fs' d \<and> (\<forall>p. dirs fs' p \<longrightarrow> dirs fs p \<or> under p d)"

lemma adds_dirs_create: "adds_dirs fs (create_dir_all fs d) d"
  by (auto simp: adds_dirs_def create_dir_all_def under_def intro: bexI [of _ "length d"])

lemma adds_dirs_trans:
  assumes "adds_dirs fs fs' d" and "adds_dirs fs' fs'' (d @ [n])"
  shows "adds_dirs fs fs'' (d @ [n])"
proof -
  have "under p (d @ [n])" if "under p d" for p
  proof -
    have "take (length p) d = p" "length p \<le> length d" using that by (auto simp: under_def dest: arg_cong [of _ _ length])
    then show ?thesis by (simp add: under_def)
  qed
  with assms show ?thesis unfolding adds_dirs_def by blast
qed

lemma write_new_table:
  assumes "insert_ready P fs sst_dir table"
  shows "\<exists>fs' sst. and_then (table_new fs sst_dir now) (\<lambda>(fs1, sst1).
      table_write_to_file fs1 ((set_entries sst1 (get_entries table))\<lparr>t_filter := Some (get_filter table)\<rparr>)) = Ok (fs', sst)
    \<and> new_table P fs' sst_dir table sst \<and> t_created_at sst = now \<and> hotness sst = 0
    \<and> (\<forall>p. butlast p \<noteq> sst_dir \<longrightarrow> files fs' p = files fs p) \<and> adds_dirs fs fs' sst_dir"
proof -
  note rdy = assms [unfolded insert_ready_def]
  define fs1 where "fs1 = with_file (with_file (create_dir_all fs sst_dir) (sst_dir @ [DATA_FILE]) []) (sst_dir @ [INDEX_FILE]) []"
  define t0 where "t0 = \<lparr>t_dir = sst_dir, hotness = 0, t_size = 0, t_created_at = now, data_file = sst_dir @ [DATA_FILE],
         index_file = sst_dir @ [INDEX_FILE], t_entries = [], t_filter = None, t_summary = None\<rparr>"
  define t1 where "t1 = (set_entries t0 (get_entries table))\<lparr>t_filter := Some (get_filter table)\<rparr>"
  have new: "table_new fs sst_dir now = Ok (fs1, t0)"
    using table_new_fresh [of fs sst_dir now] rdy by (simp add: fs1_def t0_def)
  have ready: "table_ready P fs1 t1"
    using rdy by (simp add: table_ready_def fs1_def t1_def t0_def set_entries_def set_sst_size_from_entries_def file_names)
  have f: "t_filter t1 = Some (get_filter table)" by (simp add: t1_def)
  obtain css where w: "table_write_to_file fs1 t1 = Ok (written_fs fs1 (get_filter table) t1 css, written_table (get_filter table) t1)"
    and d: "table_on_disk P (written_fs fs1 (get_filter table) t1 css) (written_table (get_filter table) t1) (t_entries t1)"
    using table_write_on_disk [OF ready f] by blast
  have t1: "t_dir t1 = sst_dir" "data_file t1 = sst_dir @ [DATA_FILE]" "index_file t1 = sst_dir @ [INDEX_FILE]"
    "t_entries t1 = get_entries table" "t_created_at t1 = now" "hotness t1 = 0"
    by (simp_all add: t1_def t0_def set_entries_def set_sst_size_from_entries_def)
  have "new_table P (written_fs fs1 (get_filter table) t1 css) sst_dir table (written_table (get_filter table) t1)"
    using d rdy by (auto simp: new_table_def t1 written_table_def table_summary_def written_fs_def fs1_def file_names)
  moreover have "\<forall>p. butlast p \<noteq> sst_dir \<longrightarrow> files (written_fs fs1 (get_filter table) t1 css) p = files fs p"
    by (auto simp: written_fs_def t1 fs1_def)
  moreover have "adds_dirs fs (written_fs fs1 (get_filter table) t1 css) sst_dir"
    using adds_dirs_create [of fs sst_dir] by (simp add: adds_dirs_def written_fs_def fs1_def)
  moreover have "t_created_at (written_table (get_filter table) t1) = now" "hotness (written_table (get_filter table) t1) = 0"
    by (simp_all add: written_table_def t1)
  ultimately show ?thesis
    using new w by (intro exI [of _ "written_fs fs1 (get_filter table) t1 css"] exI [of _ "written_table (get_filter table) t1"])
      (simp add: t1_def)
qed

text \<open>The bucket a table goes to, and the directory it gets.\<close>

definition target_bucket :: "BucketMap \<Rightarrow> Insertable \<Rightarrow> BucketID \<Rightarrow> BucketID \<times> path" where
  "target_bucket bm table new_id =
     (case find (\<lambda>(_, b). fits_into_bucket b table) (buckets bm) of
        Some (i, b) \<Rightarrow> (i, b_dir b) | None \<Rightarrow> (new_id, bm_dir bm @ [BUCKET_DIRECTORY_PREFIX @ new_id]))"

abbreviation target_dir :: "BucketMap \<Rightarrow> Insertable \<Rightarrow> BucketID \<Rightarrow> datetime \<Rightarrow> path" where
  "target_dir bm table new_id now \<equiv> snd (target_bucket bm table new_id) @ [sst_dir_name now]"

lemma insert_to_bucket_eq:
  "insert_to_bucket fs bm b table ty now now' =
     and_then (and_then (table_new fs (b_dir b @ [sst_dir_name now]) now') (\<lambda>(fs1, sst1).
       table_write_to_file fs1 ((set_entries sst1 (get_entries table))\<lparr>t_filter := Some (get_filter table)\<rparr>)))
     (\<lambda>(fs2, sst).
       case ty of
         New \<Rightarrow> and_then (file_size fs2 (data_file sst)) (\<lambda>len.
            Ok (fs2, bm\<lparr>buckets := im_insert (b_id b) (b\<lparr>sstables := sstables b @ [sst], avarage_size := len\<rparr>) (buckets bm)\<rparr>, sst))
       | Exisiting \<Rightarrow>
           and_then (cal_average_size fs2 (map increase_hotness (sstables b @ [sst]))) (\<lambda>avg.
            Ok (fs2, bm\<lparr>buckets := im_insert (b_id b) (b\<lparr>sstables := map increase_hotness (sstables b @ [sst]),
              avarage_size := avg, b_size := avg * (length (sstables b) + 1)\<rparr>) (buckets bm)\<rparr>, sst)))"
proof -
  have assoc: "and_then (and_then r f) g = and_then r (\<lambda>x. and_then (f x) g)" for r f g
    by (cases r) simp_all
  show ?thesis
    unfolding insert_to_bucket_def assoc Let_def
    by (intro and_then_cong refl) (auto simp: case_prod_beta split: InsertionType.split intro!: and_then_cong)
qed

lemma fresh_dir_frame:
  assumes "\<forall>name. files fs (d @ [name]) = None" and "\<forall>p. butlast p \<noteq> d \<longrightarrow> files fs' p = files fs p"
    and "files fs p \<noteq> None" and "p \<noteq> []"
  shows "files fs' p = files fs p"
proof -
  have "butlast p \<noteq> d"
    using assms(1,3,4) append_butlast_last_id [of p] by metis
  then show ?thesis using assms(2) by blast
qed

lemma tables_exist_frame:
  assumes "tables_exist fs ts" and "\<forall>name. files fs (d @ [name]) = None"
    and "\<forall>p. butlast p \<noteq> d \<longrightarrow> files fs' p = files fs p"
  shows "tables_exist fs' ts"
  unfolding tables_exist_def
proof
  fix t assume "t \<in> set ts"
  then have t: "data_file t = t_dir t @ [DATA_FILE]" "files fs (t_dir t @ [DATA_FILE]) \<noteq> None"
    using assms(1) by (simp_all add: tables_exist_def)
  then show "data_file t = t_dir t @ [DATA_FILE] \<and> files fs' (t_dir t @ [DATA_FILE]) \<noteq> None"
    using fresh_dir_frame [OF assms(2,3) t(2)] by simp
qed

lemma increase_hotness_files [simp]:
  "data_file (increase_hotness t) = data_file t" "t_dir (increase_hotness t) = t_dir t"
  "index_file (increase_hotness t) = index_file t" "t_entries (increase_hotness t) = t_entries t"
  by (simp_all add: increase_hotness_def)

lemma insert_to_bucket_ok:
  assumes rdy: "insert_ready P fs (b_dir b @ [sst_dir_name now]) table"
    and ex: "tables_exist fs (sstables b)"
  shows "\<exists>fs' sst b'. insert_to_bucket fs bm b table ty now now' =
      Ok (fs', bm\<lparr>buckets := im_insert (b_id b) b' (buckets bm)\<rparr>, sst)
    \<and> new_table P fs' (b_dir b @ [sst_dir_name now]) table sst \<and> t_created_at sst = now'
    \<and> (\<forall>p. butlast p \<noteq> b_dir b @ [sst_dir_name now] \<longrightarrow> files fs' p = files fs p)
    \<and> adds_dirs fs fs' (b_dir b @ [sst_dir_name now]) \<and> b_id b' = b_id b \<and> b_dir b' = b_dir b
    \<and> sstables b' = (if ty = New then sstables b @ [sst] else map increase_hotness (sstables b @ [sst]))
    \<and> tables_exist fs' (sstables b')"
proof -
  obtain fs' sst where w: "and_then (table_new fs (b_dir b @ [sst_dir_name now]) now') (\<lambda>(fs1, sst1).
      table_write_to_file fs1 ((set_entries sst1 (get_entries table))\<lparr>t_filter := Some (get_filter table)\<rparr>)) = Ok (fs', sst)"
    and n: "new_table P fs' (b_dir b @ [sst_dir_name now]) table sst" "t_created_at sst = now'"
    and fr: "\<forall>p. butlast p \<noteq> b_dir b @ [sst_dir_name now] \<longrightarrow> files fs' p = files fs p"
    and ad: "adds_dirs fs fs' (b_dir b @ [sst_dir_name now])"
    using write_new_table [OF rdy] by blast
  have sst: "files fs' (data_file sst) \<noteq> None"
    using n(1) by (auto simp: new_table_def table_on_disk_def)
  have "tables_exist fs' (sstables b)"
    using tables_exist_frame [OF ex _ fr] rdy by (simp add: insert_ready_def)
  then have all: "tables_exist fs' (sstables b @ [sst])"
    using sst n(1) by (simp add: tables_exist_def new_table_def)
  then have hot: "tables_exist fs' (map increase_hotness (sstables b @ [sst]))"
    by (simp add: tables_exist_def)
  obtain len where len: "file_size fs' (data_file sst) = Ok len"
    using sst by (auto simp: file_size_def)
  define b' where "b' = (if ty = New then b\<lparr>sstables := sstables b @ [sst], avarage_size := len\<rparr>
    else (let avg = sum_list (map (data_len fs') (map increase_hotness (sstables b @ [sst]))) div
            length (map increase_hotness (sstables b @ [sst]))
          in b\<lparr>sstables := map increase_hotness (sstables b @ [sst]), avarage_size := avg,
               b_size := avg * (length (sstables b) + 1)\<rparr>))"
  have "insert_to_bucket fs bm b table ty now now' =
      Ok (fs', bm\<lparr>buckets := im_insert (b_id b) b' (buckets bm)\<rparr>, sst)"
    unfolding insert_to_bucket_eq w
    by (cases ty) (simp_all only: and_then.simps prod.case InsertionType.case len cal_average_size_ok [OF hot]
        b'_def Let_def InsertionType.distinct InsertionType.simps if_True if_False simp_thms)
  moreover have "b_id b' = b_id b" "b_dir b' = b_dir b"
    "sstables b' = (if ty = New then sstables b @ [sst] else map increase_hotness (sstables b @ [sst]))"
    by (simp_all add: b'_def Let_def)
  ultimately show ?thesis
    using n fr ad all hot by (intro exI [of _ fs'] exI [of _ sst] exI [of _ b']) simp
qed

lemma find_bucket:
  assumes "find (\<lambda>(_, b). fits_into_bucket b table) m = Some (i, b)"
  shows "(i, b) \<in> set m"
  using assms by (auto simp: find_Some_iff dest: nth_mem)

lemma bm_wf_insert:
  assumes "bm_wf fs bm" and "\<forall>name. files fs (d @ [name]) = None"
    and "\<forall>p. butlast p \<noteq> d \<longrightarrow> files fs' p = files fs p" and "tables_exist fs' (sstables b')"
  shows "bm_wf fs' (bm\<lparr>buckets := im_insert (b_id b') b' (buckets bm)\<rparr>)"
  using assms(1,4) im_insert_set [of "b_id b'" b' "buckets bm"] tables_exist_frame [OF _ assms(2,3)]
  by (fastforce simp: bm_wf_def im_insert_distinct)

lemma insert_appropriate_ok:
  assumes wf: "bm_wf fs bm" and new: "new_id \<notin> fst ` set (buckets bm)"
    and rdy: "insert_ready P fs (target_dir bm table new_id now) table"
  shows "\<exists>fs' bm' sst b'. insert_to_appropriate_bucket fs bm table new_id now now' = Ok (fs', bm', sst)
    \<and> new_table P fs' (target_dir bm table new_id now) table sst \<and> t_created_at sst = now'
    \<and> (\<forall>p. butlast p \<noteq> target_dir bm table new_id now \<longrightarrow> files fs' p = files fs p)
    \<and> adds_dirs fs fs' (target_dir bm table new_id now) \<and> bm_wf fs' bm' \<and> bm' = bm\<lparr>buckets := im_insert (fst (target_bucket bm table new_id)) b' (buckets bm)\<rparr>
    \<and> b_dir b' = snd (target_bucket bm table new_id)
    \<and> sstables b' = (case map_of (buckets bm) (fst (target_bucket bm table new_id)) of
         None \<Rightarrow> [sst] | Some b \<Rightarrow> map increase_hotness (sstables b @ [sst]))"
proof -
  have fresh: "\<forall>name. files fs (target_dir bm table new_id now @ [name]) = None"
    using rdy by (simp add: insert_ready_def)
  obtain F b ty where call: "insert_to_appropriate_bucket fs bm table new_id now now' = insert_to_bucket F bm b table ty now now'"
    and F: "files F = files fs" "F = fs \<or> adds_dirs fs F (b_dir b)"
    and b: "(b_id b, b_dir b) = target_bucket bm table new_id" "tables_exist fs (sstables b)"
    and ts: "map_of (buckets bm) (b_id b) = (if ty = New then None else Some b)" "ty = New \<longrightarrow> sstables b = []"
  proof (cases "find (\<lambda>(_, b). fits_into_bucket b table) (buckets bm)")
    case None
    then show ?thesis
      using new by (intro that [of "create_dir_all fs (bm_dir bm @ [BUCKET_DIRECTORY_PREFIX @ new_id])"
          "snd (bucket_new fs (bm_dir bm) new_id)" New])
        (simp_all add: insert_to_appropriate_bucket_def bucket_new_def target_bucket_def tables_exist_def
          map_of_eq_None_iff Let_def adds_dirs_create)
  next
    case (Some e)
    obtain i b where e: "e = (i, b)" by force
    have mem: "(i, b) \<in> set (buckets bm)" using find_bucket [of table "buckets bm" i b] Some e by simp
    then have "b_id b = i" "tables_exist fs (sstables b)" "map_of (buckets bm) i = Some b"
      using wf by (auto simp: bm_wf_def intro: map_of_is_SomeI)
    then show ?thesis
      using Some by (intro that [of fs b Exisiting])
        (simp_all add: insert_to_appropriate_bucket_def target_bucket_def e)
  qed
  have rdy': "insert_ready P F (b_dir b @ [sst_dir_name now]) table"
    using rdy by (simp add: insert_ready_def F flip: b(1))
  have ex: "tables_exist F (sstables b)" using b(2) by (simp add: tables_exist_def F)
  obtain fs' sst b' where w: "insert_to_bucket F bm b table ty now now' =
      Ok (fs', bm\<lparr>buckets := im_insert (b_id b) b' (buckets bm)\<rparr>, sst)"
    "new_table P fs' (b_dir b @ [sst_dir_name now]) table sst" "t_created_at sst = now'"
    "\<forall>p. butlast p \<noteq> b_dir b @ [sst_dir_name now] \<longrightarrow> files fs' p = files F p"
    "b_id b' = b_id b" "b_dir b' = b_dir b" "adds_dirs F fs' (b_dir b @ [sst_dir_name now])"
    "sstables b' = (if ty = New then sstables b @ [sst] else map increase_hotness (sstables b @ [sst]))"
    "tables_exist fs' (sstables b')"
    using insert_to_bucket_ok [OF rdy' ex, of bm ty now'] by metis
  have t: "fst (target_bucket bm table new_id) = b_id b" "snd (target_bucket bm table new_id) = b_dir b"
    using b(1) by (metis fst_conv, metis snd_conv)
  have "bm_wf fs' (bm\<lparr>buckets := im_insert (b_id b) b' (buckets bm)\<rparr>)"
    using bm_wf_insert [OF wf fresh _ w(9)] w(4,5) by (simp add: t F)
  moreover have "adds_dirs fs fs' (b_dir b @ [sst_dir_name now])"
    using F(2) w(7) by (auto intro: adds_dirs_trans)
  ultimately show ?thesis
    using call w ts F
    by (intro exI [of _ fs'] exI [of _ "bm\<lparr>buckets := im_insert (b_id b) b' (buckets bm)\<rparr>"] exI [of _ sst] exI [of _ b'])
      (auto simp: t)
qed

section \<open>Deleting the compacted tables\<close>

definition bucket_count :: "(BucketID, Bucket) indexmap \<Rightarrow> BucketID \<Rightarrow> nat" where
  "bucket_count m i = (case map_of m i of None \<Rightarrow> 0 | Some b \<Rightarrow> length (sstables b))"

lemma im_shift_remove_lookup: "map_of (im_shift_remove k m) = (map_of m)(k := None)"
  by (induction m) (auto simp: im_shift_remove_def fun_eq_iff)

lemma im_shift_remove_distinct: "distinct (map fst m) \<Longrightarrow> distinct (map fst (im_shift_remove k m))"
  by (simp add: im_shift_remove_def distinct_map_filter)

lemma im_shift_remove_insert:
  "i \<noteq> j \<Longrightarrow> im_shift_remove j (im_insert i v m) = im_insert i v (im_shift_remove j m)"
  by (induction m) (auto simp: im_shift_remove_def)

lemma removes_facts:
  assumes "i \<notin> set td"
  shows "fold im_shift_remove td (im_insert i v m) = im_insert i v (fold im_shift_remove td m)"
    and "map_of (fold im_shift_remove td m) i = map_of m i"
  using assms by (induction td arbitrary: m) (auto simp: im_shift_remove_insert im_shift_remove_lookup)

lemma removes_distinct: "distinct (map fst m) \<Longrightarrow> distinct (map fst (fold im_shift_remove td m))"
  by (induction td arbitrary: m) (auto simp: im_shift_remove_distinct)

lemma delete_step_count:
  assumes "delete_step (i, ss) (fs, bs, a, td) = Ok (fs', bs', a', td')"
    and "distinct (map fst bs)" and "i \<notin> set td" and "length ss \<le> bucket_count bs i"
  shows "table_count (fold im_shift_remove td' bs') + length ss = table_count (fold im_shift_remove td bs)"
    and "distinct (map fst bs')" and "set td' \<subseteq> insert i (set td)"
    and "\<And>j. j \<noteq> i \<Longrightarrow> map_of bs' j = map_of bs j"
proof -
  consider (none) "map_of bs i = None" "bs' = bs" "td' = td"
    | (keep) b b' where "map_of bs i = Some b" "bs' = im_insert i b' bs" "sstables b' = drop (length ss) (sstables b)" "td' = td"
    | (empty) b where "map_of bs i = Some b" "drop (length ss) (sstables b) = []" "bs' = bs" "td' = td @ [i]"
    using assms(1) by (auto simp: delete_step_def Let_def case_prod_beta split: option.splits if_splits)
  then have "table_count (fold im_shift_remove td' bs') + length ss = table_count (fold im_shift_remove td bs)
    \<and> distinct (map fst bs') \<and> set td' \<subseteq> insert i (set td) \<and> (\<forall>j. j \<noteq> i \<longrightarrow> map_of bs' j = map_of bs j)"
  proof cases
    case none
    then show ?thesis using assms(2,4) by (auto simp: bucket_count_def)
  next
    case keep
    have "table_count (im_insert i b' (fold im_shift_remove td bs)) + length (sstables b) =
        table_count (fold im_shift_remove td bs) + length (sstables b')"
      using im_insert_count [OF removes_distinct [OF assms(2)], of i b' td]
      by (simp add: keep(1) removes_facts(2) [OF assms(3)])
    then show ?thesis
      using keep assms(2,4)
      by (auto simp: bucket_count_def im_insert_distinct im_insert_lookup removes_facts(1) [OF assms(3)])
  next
    case empty
    have "table_count (im_shift_remove i (fold im_shift_remove td bs)) + length (sstables b) =
        table_count (fold im_shift_remove td bs)"
      using im_shift_remove_count [OF removes_distinct [OF assms(2)], of i td]
      by (simp add: empty(1) removes_facts(2) [OF assms(3)])
    then show ?thesis
      using empty assms(2,4) by (auto simp: bucket_count_def)
  qed
  then show "table_count (fold im_shift_remove td' bs') + length ss = table_count (fold im_shift_remove td bs)"
    "distinct (map fst bs')" "set td' \<subseteq> insert i (set td)" "\<And>j. j \<noteq> i \<Longrightarrow> map_of bs' j = map_of bs j"
    by blast+
qed

lemma delete_fold_count:
  assumes "fold_res delete_step del (fs, bs, a, td) = Ok (fs', bs', a', td')"
    and "distinct (map fst bs)" and "distinct (map fst del)" and "set td \<inter> fst ` set del = {}"
    and "\<forall>(i, ss) \<in> set del. length ss \<le> bucket_count bs i"
  shows "table_count (fold im_shift_remove td' bs') + sum_list (map (\<lambda>(i, ss). length ss) del) =
    table_count (fold im_shift_remove td bs)"
  using assms
proof (induction del arbitrary: fs bs a td)
  case (Cons e del)
  obtain i ss where e: "e = (i, ss)" by force
  obtain fs1 bs1 a1 td1 where s: "delete_step (i, ss) (fs, bs, a, td) = Ok (fs1, bs1, a1, td1)"
    "fold_res delete_step del (fs1, bs1, a1, td1) = Ok (fs', bs', a', td')"
    using Cons.prems(1) by (auto simp: e)
  have i: "i \<notin> set td" "length ss \<le> bucket_count bs i" "i \<notin> fst ` set del"
    using Cons.prems(3-5) by (auto simp: e)
  note step = delete_step_count [OF s(1) Cons.prems(2) i(1,2)]
  have "\<forall>(j, ss) \<in> set del. length ss \<le> bucket_count bs1 j"
  proof clarify
    fix j ss' assume j: "(j, ss') \<in> set del"
    then have "j \<noteq> i" using i(3) by force
    then show "length ss' \<le> bucket_count bs1 j"
      using step(4) Cons.prems(5) j by (auto simp: bucket_count_def)
  qed
  moreover have "set td1 \<inter> fst ` set del = {}"
    using step(3) Cons.prems(4) i(3) by (auto simp: e)
  ultimately have "table_count (fold im_shift_remove td' bs') + sum_list (map (\<lambda>(i, ss). length ss) del) =
      table_count (fold im_shift_remove td1 bs1)"
    using Cons.IH [OF s(2) step(2)] Cons.prems(3) by (simp add: e)
  with step(1) show ?case by (simp add: e)
qed simp

lemma delete_ssts_count:
  assumes "delete_ssts fs bm del = Ok (fs', bm', a)"
    and "distinct (map fst (buckets bm))" and "distinct (map fst del)"
    and "\<forall>(i, ss) \<in> set del. length ss \<le> bucket_count (buckets bm) i"
  shows "table_count (buckets bm') + sum_list (map (\<lambda>(i, ss). length ss) del) = table_count (buckets bm)"
  using assms(1) delete_fold_count [OF _ assms(2,3) _ assms(4)]
  by (auto simp: delete_ssts_def)


text \<open>The tables of a bucket by its id; deleting drops the compacted prefix of each bucket.\<close>

definition tables_of :: "(BucketID, Bucket) indexmap \<Rightarrow> BucketID \<Rightarrow> Table list" where
  "tables_of m i = (case map_of m i of None \<Rightarrow> [] | Some b \<Rightarrow> sstables b)"

lemma tables_of_removes: "tables_of (fold im_shift_remove td m) i = (if i \<in> set td then [] else tables_of m i)"
  by (induction td arbitrary: m) (auto simp: tables_of_def im_shift_remove_lookup)

lemma delete_step_tables:
  assumes "delete_step (i, ss) (fs, bs, a, td) = Ok (fs', bs', a', td')" and "i \<notin> set td"
  shows "tables_of (fold im_shift_remove td' bs') j =
    (if j = i then drop (length ss) (tables_of (fold im_shift_remove td bs) j)
     else tables_of (fold im_shift_remove td bs) j)"
    and "set td' \<subseteq> insert i (set td)"
  using assms
  by (auto simp: delete_step_def Let_def case_prod_beta tables_of_removes split: option.splits if_splits)
    (auto simp: tables_of_def im_insert_lookup)

lemma delete_fold_tables:
  assumes "fold_res delete_step del (fs, bs, a, td) = Ok (fs', bs', a', td')"
    and "distinct (map fst del)" and "set td \<inter> fst ` set del = {}"
  shows "tables_of (fold im_shift_remove td' bs') j =
    drop (case map_of del j of None \<Rightarrow> 0 | Some ss \<Rightarrow> length ss) (tables_of (fold im_shift_remove td bs) j)"
  using assms
proof (induction del arbitrary: fs bs a td)
  case (Cons e del)
  obtain i ss where e: "e = (i, ss)" by force
  obtain fs1 bs1 a1 td1 where s: "delete_step (i, ss) (fs, bs, a, td) = Ok (fs1, bs1, a1, td1)"
    "fold_res delete_step del (fs1, bs1, a1, td1) = Ok (fs', bs', a', td')"
    using Cons.prems(1) by (auto simp: e)
  have i: "i \<notin> set td" "i \<notin> fst ` set del"
    using Cons.prems(2,3) by (auto simp: e)
  note step = delete_step_tables [OF s(1) i(1)]
  have "set td1 \<inter> fst ` set del = {}"
    using step(2) Cons.prems(3) i(2) by (auto simp: e)
  with Cons.IH [OF s(2)] Cons.prems(2) step(1) [of j] i(2) show ?case
    by (auto simp: e map_of_eq_None_iff [THEN iffD2] split: option.splits)
qed simp

section \<open>Properties\<close>

text \<open>C7. Inserting a table into the bucket it fits (or a new one) keeps the bucket map well formed, writes
  the table with its entries, adds one table to the map and changes no existing file.\<close>

theorem bucket_insert:
  assumes "bm_wf fs bm" and "new_id \<notin> fst ` set (buckets bm)"
    and "insert_ready P fs (target_dir bm table new_id now) table"
  shows "\<exists>fs' bm' sst. insert_to_appropriate_bucket fs bm table new_id now now' = Ok (fs', bm', sst)
    \<and> bm_wf fs' bm' \<and> table_on_disk P fs' sst (get_entries table)
    \<and> table_count (buckets bm') = Suc (table_count (buckets bm))
    \<and> (\<forall>p. files fs p \<noteq> None \<and> p \<noteq> [] \<longrightarrow> files fs' p = files fs p)"
proof -
  obtain fs' bm' sst b' where w: "insert_to_appropriate_bucket fs bm table new_id now now' = Ok (fs', bm', sst)"
    and n: "new_table P fs' (target_dir bm table new_id now) table sst"
    and fr: "\<forall>p. butlast p \<noteq> target_dir bm table new_id now \<longrightarrow> files fs' p = files fs p"
    and wf: "bm_wf fs' bm'"
    and bm': "bm' = bm\<lparr>buckets := im_insert (fst (target_bucket bm table new_id)) b' (buckets bm)\<rparr>"
    and ts: "sstables b' = (case map_of (buckets bm) (fst (target_bucket bm table new_id)) of
         None \<Rightarrow> [sst] | Some b \<Rightarrow> map increase_hotness (sstables b @ [sst]))"
    using insert_appropriate_ok [OF assms, of now'] by blast
  have fresh: "\<forall>name. files fs (target_dir bm table new_id now @ [name]) = None"
    using assms(3) by (simp add: insert_ready_def)
  have "table_count (buckets bm') = Suc (table_count (buckets bm))"
    using im_insert_count [of "buckets bm" "fst (target_bucket bm table new_id)" b'] assms(1)
    by (auto simp: bm' ts bm_wf_def split: option.splits)
  moreover have "\<forall>p. files fs p \<noteq> None \<and> p \<noteq> [] \<longrightarrow> files fs' p = files fs p"
    using fresh_dir_frame [OF fresh fr] by blast
  ultimately show ?thesis
    using w wf n by (auto simp: new_table_def)
qed

definition sample_insertable :: Insertable where
  "sample_insertable = \<lparr>get_entries = [([1], sample_value 3), ([4], sample_value 5)], ins_size = 42,
     get_filter = sample_filter\<rparr>"

lemma sample_insert_ready:
  "(\<And>name. files fs (d @ [name]) = None) \<Longrightarrow> insert_ready sample_platform fs d sample_insertable"
  by (simp add: insert_ready_def sample_insertable_def file_names sm_sorted_def
      entry_ok_def field_ok_def wf_time_def sample_platform_def sample_value_def timestamp_millis_def
      constants data_file_of_def length_data_bytes)

theorem bucket_insert_witness:
  "\<exists>fs' bm' sst. insert_to_appropriate_bucket sample_fs (snd (bucket_map_new sample_fs [''t'']))
      sample_insertable ''b'' 7000000 8000000 = Ok (fs', bm', sst) \<and> table_count (buckets bm') = 1"
proof -
  let ?bm = "snd (bucket_map_new sample_fs [''t''])"
  have "bm_wf sample_fs ?bm" "''b'' \<notin> fst ` set (buckets ?bm)"
    by (simp_all add: bm_wf_def bucket_map_new_def)
  moreover have "insert_ready sample_platform sample_fs (target_dir ?bm sample_insertable ''b'' 7000000) sample_insertable"
    by (rule sample_insert_ready) (simp add: sample_fs_def)
  moreover have "table_count (buckets ?bm) = 0"
    by (simp add: bucket_map_new_def table_count_def)
  ultimately show ?thesis
    using bucket_insert [of sample_fs ?bm "''b''" sample_platform sample_insertable 7000000 8000000] by auto
qed

text \<open>C14. The buckets handed to a compaction are exactly those with at least four tables, each with its
  oldest tables, at most thirty-two of them; there are none if and only if the map is balanced.\<close>

theorem bucket_extract:
  assumes "bm_wf fs bm"
  shows "\<exists>imb del. extract_imbalanced_buckets fs bm = Ok (imb, del)
    \<and> del = map (\<lambda>(i, b). (i, take MAX_TRESHOLD (sstables b)))
        (filter (\<lambda>(i, b). MIN_TRESHOLD \<le> length (sstables b)) (buckets bm))
    \<and> map (\<lambda>b. (b_id b, sstables b)) imb = del
    \<and> (imb = [] \<longleftrightarrow> is_balanced bm)"
proof -
  have "\<forall>(i, b) \<in> set (buckets bm). tables_exist fs (sstables b)"
    using assms by (auto simp: bm_wf_def)
  from extract_imbalanced_ok [OF this] obtain imb where
    e: "extract_imbalanced_buckets fs bm = Ok (imb, map (\<lambda>(i, b). (i, take 32 (sstables b)))
          (filter (\<lambda>(i, b). 4 \<le> length (sstables b)) (buckets bm)))"
    and i: "map (\<lambda>b. (b_id b, sstables b)) imb = map (\<lambda>(i, b). (i, take 32 (sstables b)))
          (filter (\<lambda>(i, b). 4 \<le> length (sstables b)) (buckets bm))"
    by blast
  have "imb = [] \<longleftrightarrow> filter (\<lambda>(i, b). 4 \<le> length (sstables b)) (buckets bm) = []"
    using arg_cong [OF i, of "\<lambda>xs. xs = []"] by simp
  also have "\<dots> \<longleftrightarrow> is_balanced bm"
    by (auto simp: is_balanced_def sstable_count_exceeds_threshhold_def filter_empty_conv constants)
  finally show ?thesis
    using e i by (simp add: constants)
qed

definition sample_buckets :: BucketMap where
  "sample_buckets = \<lparr>bm_dir = [''t''], buckets =
     [(''a'', \<lparr>b_id = ''a'', b_dir = [''t'', ''a''], b_size = 0, avarage_size = 0, sstables = replicate 5 sample_table\<rparr>),
      (''b'', \<lparr>b_id = ''b'', b_dir = [''t'', ''b''], b_size = 0, avarage_size = 0, sstables = [sample_table]\<rparr>)]\<rparr>"

lemma sample_buckets_wf: "bm_wf sample_table_fs sample_buckets"
  by (simp add: bm_wf_def sample_buckets_def tables_exist_def sample_table_def sample_table_fs_def file_names)

theorem bucket_extract_witness:
  "\<exists>imb. extract_imbalanced_buckets sample_table_fs sample_buckets =
     Ok (imb, [(''a'', replicate 5 sample_table)]) \<and> imb \<noteq> []"
  using bucket_extract [OF sample_buckets_wf]
  by (auto simp: sample_buckets_def constants is_balanced_def sstable_count_exceeds_threshhold_def)

text \<open>C15. Deleting the tables of a compaction takes exactly as many of the oldest tables from each listed
  bucket as were listed, so the tables added since stay and every other bucket keeps
  all of its tables.\<close>

theorem bucket_delete:
  assumes "delete_ssts fs bm del = Ok (fs', bm', ok)" and "distinct (map fst del)"
  shows "tables_of (buckets bm') i =
    drop (case map_of del i of None \<Rightarrow> 0 | Some ss \<Rightarrow> length ss) (tables_of (buckets bm) i)"
  using assms(1) delete_fold_tables [OF _ assms(2), of fs "buckets bm" True "[]" _ _ _ _ i]
  by (auto simp: delete_ssts_def)

theorem bucket_delete_witness:
  "\<exists>fs' bm' ok. delete_ssts sample_table_fs sample_buckets [(''a'', replicate 4 sample_table)] = Ok (fs', bm', ok)
    \<and> tables_of (buckets bm') ''a'' = [sample_table]"
proof -
  obtain fs' bm' ok where d: "delete_ssts sample_table_fs sample_buckets [(''a'', replicate 4 sample_table)] = Ok (fs', bm', ok)"
    by (auto simp: delete_ssts_def delete_step_def sample_buckets_def Let_def cal_average_size_def file_size_def
        sample_table_def sample_table_fs_def file_names case_prod_beta)
  from bucket_delete [OF d, of "''a''"] have "tables_of (buckets bm') ''a'' = [sample_table]"
    by (simp add: sample_buckets_def tables_of_def)
  with d show ?thesis by blast
qed

end
