(* ===== verification/Table_Merge.thy ===== *)
theory Table_Merge
  imports Key_Range Bucket_Manager
begin

text \<open>
  The merge of the sized-tier compaction (\<^verbatim>\<open>src/compactors/sized.rs\<close>, \<^verbatim>\<open>src/compactors/insertor.rs\<close> and
  the data of \<^verbatim>\<open>src/compactors/compact.rs\<close>). The clock and the random ids are functions of the number of
  readings so far; every check of an entry takes one reading, whether or not it looks at the clock. The
  pointer loops are proved equal to a recursion on the two lists, and a fold of merges is related to its
  specification: the newest entry of a key wins.
\<close>

section \<open>Configuration\<close>

datatype Strategy = STCS

datatype CompactionReason = MaxSize | Manual

record TtlParams =
  tp_entry_ttl :: u64
  tp_tombstone_ttl :: u64

record IntervalParams =
  ip_background_interval :: u64
  ip_flush_listener_interval :: u64
  ip_tombstone_compaction_interval :: u64

text \<open>Durations are in milliseconds.\<close>

record CompConfig =
  use_ttl :: bool
  entry_ttl :: u64
  tombstone_ttl :: u64
  flush_listener_interval :: u64
  background_interval :: u64
  tombstone_compaction_interval :: u64
  strategy :: Strategy
  filter_false_positive :: f64

definition comp_config_new :: "bool \<Rightarrow> TtlParams \<Rightarrow> IntervalParams \<Rightarrow> Strategy \<Rightarrow> f64 \<Rightarrow> CompConfig" where
  "comp_config_new use ttl intervals strat rate =
     \<lparr>use_ttl = use, entry_ttl = tp_entry_ttl ttl, tombstone_ttl = tp_tombstone_ttl ttl,
      flush_listener_interval = ip_flush_listener_interval intervals,
      background_interval = ip_background_interval intervals,
      tombstone_compaction_interval = ip_tombstone_compaction_interval intervals,
      strategy = strat, filter_false_positive = rate\<rparr>"

text \<open>What the environment supplies: the clock, fresh uuids and random alphanumeric characters.\<close>

record environment =
  clock :: "nat \<Rightarrow> datetime"
  uuid :: "nat \<Rightarrow> string"
  alphanumeric :: "nat \<Rightarrow> bytes"

section \<open>Merging two tables\<close>

type_synonym merge_state = "(Key, datetime) hashmap \<times> nat"

definition entry_of :: "Key \<times> SkipMapValue \<Rightarrow> Entry" where
  "entry_of = (\<lambda>(k, v). Entry_new k (sv_offset v) (sv_created_at v) (sv_is_tombstone v))"

definition tombstone_check ::
  "environment \<Rightarrow> CompConfig \<Rightarrow> Entry \<Rightarrow> merge_state \<times> Entry list \<Rightarrow> merge_state \<times> Entry list" where
  "tombstone_check env cfg e = (\<lambda>((tombs, n), merged_entries).
     let now = clock env n;
         (tombs', should_insert) =
           (case map_of tombs (e_key e) of
              Some tomb_insert_time \<Rightarrow>
                if tomb_insert_time < e_created_at e
                then if e_is_tombstone e
                     then (hm_insert (e_key e) (e_created_at e) tombs, \<not> has_expired now e (tombstone_ttl cfg))
                     else if use_ttl cfg then (tombs, \<not> has_expired now e (entry_ttl cfg))
                     else (tombs, True)
                else (tombs, False)
            | None \<Rightarrow>
                if e_is_tombstone e
                then (hm_insert (e_key e) (e_created_at e) tombs, \<not> has_expired now e (tombstone_ttl cfg))
                else if use_ttl cfg then (tombs, \<not> has_expired now e (entry_ttl cfg))
                else (tombs, True))
     in ((tombs', Suc n), if should_insert then merged_entries @ [e] else merged_entries))"

record MergePointer =
  ptr1 :: nat
  ptr2 :: nat

definition merge_pointer_new :: MergePointer where
  "merge_pointer_new = \<lparr>ptr1 = 0, ptr2 = 0\<rparr>"

definition increment_ptr1 :: "MergePointer \<Rightarrow> MergePointer" where
  "increment_ptr1 p = p\<lparr>ptr1 := ptr1 p + 1\<rparr>"

definition increment_ptr2 :: "MergePointer \<Rightarrow> MergePointer" where
  "increment_ptr2 p = p\<lparr>ptr2 := ptr2 p + 1\<rparr>"

text \<open>The three loops of \<^verbatim>\<open>merge_sstables\<close>.\<close>

function merge_loop ::
  "environment \<Rightarrow> CompConfig \<Rightarrow> Entry list \<Rightarrow> Entry list \<Rightarrow> MergePointer \<Rightarrow> merge_state \<times> Entry list
     \<Rightarrow> MergePointer \<times> merge_state \<times> Entry list" where
  "merge_loop env cfg entries1 entries2 p s =
     (if ptr1 p < length entries1 \<and> ptr2 p < length entries2
      then let a = entries1 ! ptr1 p; b = entries2 ! ptr2 p
           in if e_key a < e_key b
              then merge_loop env cfg entries1 entries2 (increment_ptr1 p) (tombstone_check env cfg a s)
              else if e_key a = e_key b
              then merge_loop env cfg entries1 entries2 (increment_ptr2 (increment_ptr1 p))
                     (if e_created_at b < e_created_at a then tombstone_check env cfg a s
                      else tombstone_check env cfg b s)
              else merge_loop env cfg entries1 entries2 (increment_ptr2 p) (tombstone_check env cfg b s)
      else (p, s))"
  by pat_completeness auto
termination
  by (relation "measure (\<lambda>(env, cfg, es1, es2, p, s). (length es1 - ptr1 p) + (length es2 - ptr2 p))")
    (auto simp: increment_ptr1_def increment_ptr2_def)

function drain_loop1 ::
  "environment \<Rightarrow> CompConfig \<Rightarrow> Entry list \<Rightarrow> MergePointer \<Rightarrow> merge_state \<times> Entry list
     \<Rightarrow> MergePointer \<times> merge_state \<times> Entry list" where
  "drain_loop1 env cfg entries1 p s =
     (if ptr1 p < length entries1
      then drain_loop1 env cfg entries1 (increment_ptr1 p) (tombstone_check env cfg (entries1 ! ptr1 p) s)
      else (p, s))"
  by pat_completeness auto
termination
  by (relation "measure (\<lambda>(env, cfg, es1, p, s). length es1 - ptr1 p)") (auto simp: increment_ptr1_def)

function drain_loop2 ::
  "environment \<Rightarrow> CompConfig \<Rightarrow> Entry list \<Rightarrow> MergePointer \<Rightarrow> merge_state \<times> Entry list
     \<Rightarrow> MergePointer \<times> merge_state \<times> Entry list" where
  "drain_loop2 env cfg entries2 p s =
     (if ptr2 p < length entries2
      then drain_loop2 env cfg entries2 (increment_ptr2 p) (tombstone_check env cfg (entries2 ! ptr2 p) s)
      else (p, s))"
  by pat_completeness auto
termination
  by (relation "measure (\<lambda>(env, cfg, es2, p, s). length es2 - ptr2 p)") (auto simp: increment_ptr2_def)

declare merge_loop.simps [simp del] drain_loop1.simps [simp del] drain_loop2.simps [simp del]

record TableInsertor =
  ti_entries :: entries
  ti_size :: nat
  ti_filter :: BloomFilter

definition table_insertor_default :: TableInsertor where
  "table_insertor_default = \<lparr>ti_entries = [], ti_size = 0, ti_filter = bf_default\<rparr>"

definition entries_size :: "entries \<Rightarrow> nat" where
  "entries_size es = sum_list (map (\<lambda>(k, v). length k + SIZE_OF_USIZE + SIZE_OF_U64 + SIZE_OF_U8) es)"

definition ti_set_sst_size_from_entries :: "TableInsertor \<Rightarrow> TableInsertor" where
  "ti_set_sst_size_from_entries ti = ti\<lparr>ti_size := entries_size (ti_entries ti)\<rparr>"

definition ti_set_entries :: "TableInsertor \<Rightarrow> entries \<Rightarrow> TableInsertor" where
  "ti_set_entries ti entries = ti_set_sst_size_from_entries (ti\<lparr>ti_entries := entries\<rparr>)"

definition table_insertor_from :: "entries \<Rightarrow> BloomFilter \<Rightarrow> TableInsertor" where
  "table_insertor_from entries bf =
     \<lparr>ti_entries = entries, ti_size = entries_size entries, ti_filter = bf\<rparr>"

definition insertable_insertor :: "TableInsertor \<Rightarrow> Insertable" where
  "insertable_insertor ti =
     \<lparr>get_entries = ti_entries ti, ins_size = ti_size ti, get_filter = ti_filter ti\<rparr>"

definition merge_sstables ::
  "environment \<Rightarrow> CompConfig \<Rightarrow> entries \<Rightarrow> entries \<Rightarrow> merge_state \<Rightarrow> merge_state \<times> TableInsertor" where
  "merge_sstables env cfg sst1 sst2 ms =
     (let entries1 = map entry_of sst1;
          entries2 = map entry_of sst2;
          (p, s) = merge_loop env cfg entries1 entries2 merge_pointer_new (ms, []);
          (p', s') = drain_loop1 env cfg entries1 p s;
          (p'', (ms', merged_entries)) = drain_loop2 env cfg entries2 p' s';
          new_sst_map = fold (\<lambda>e m. sm_insert (e_key e)
              (SkipMapValue_new (e_offset e) (e_created_at e) (e_is_tombstone e)) m) merged_entries []
      in (ms', ti_set_entries table_insertor_default new_sst_map))"

section \<open>Merging the tables of a bucket\<close>

text \<open>Of the boxed table only the entries are ever read.\<close>

record MergedSSTable =
  ms_sstable :: entries
  ms_hotness :: u64
  ms_filter :: BloomFilter

text \<open>What \<^verbatim>\<open>merged_sst.clone().sstable\<close> is.\<close>

definition merged_clone :: "MergedSSTable \<Rightarrow> TableInsertor" where
  "merged_clone m = table_insertor_from (ms_sstable m) (ms_filter m)"

definition merge_next ::
  "environment \<Rightarrow> platform \<Rightarrow> CompConfig \<Rightarrow> filesys \<Rightarrow> Table \<Rightarrow> merge_state \<times> u64 \<times> entries
     \<Rightarrow> (merge_state \<times> u64 \<times> entries) res" where
  "merge_next env P cfg fs sst = (\<lambda>(ms, hot, merged_sst).
     and_then (map_err CompactionFailed (load_entries_from_file P fs sst)) (\<lambda>insertable_sst.
       let (ms', ti) = merge_sstables env cfg merged_sst (t_entries insertable_sst) ms
       in Ok (ms', hot + hotness sst, ti_entries ti)))"

definition merge_bucket ::
  "environment \<Rightarrow> platform \<Rightarrow> CompConfig \<Rightarrow> filesys \<Rightarrow> Bucket \<Rightarrow> merge_state \<times> MergedSSTable list
     \<Rightarrow> (merge_state \<times> MergedSSTable list) res" where
  "merge_bucket env P cfg fs b = (\<lambda>(ms, merged_ssts).
     case sstables b of
       [] \<Rightarrow> Panic
     | first # tables \<Rightarrow>
         and_then (fold_res (merge_next env P cfg fs) tables (ms, 0, t_entries first)) (\<lambda>(ms', hot, entries).
         and_then (bf_new P (filter_false_positive cfg) (length entries)) (\<lambda>bf.
         and_then (build_filter_from_entries P bf entries) (\<lambda>bf'.
           Ok (ms', merged_ssts @ [\<lparr>ms_sstable = entries, ms_hotness = hot, ms_filter = bf'\<rparr>])))))"

definition merge_ssts_in_buckets ::
  "environment \<Rightarrow> platform \<Rightarrow> CompConfig \<Rightarrow> filesys \<Rightarrow> merge_state \<Rightarrow> Bucket list
     \<Rightarrow> (merge_state \<times> MergedSSTable list) res" where
  "merge_ssts_in_buckets env P cfg fs ms bs =
     and_then (fold_res (merge_bucket env P cfg fs) bs (ms, [])) (\<lambda>(ms', merged_ssts).
       if merged_ssts = [] then Err (CompactionFailed MergeSSTContainsZeroEntries) else Ok (ms', merged_ssts))"

section \<open>The pointer loops as a recursion on lists\<close>

lemma hm_insert_lookup: "map_of (hm_insert k v m) = (map_of m)(k \<mapsto> v)"
proof
  fix j
  have "j \<noteq> k \<Longrightarrow> map_of (filter (\<lambda>e. fst e \<noteq> k) m) j = map_of m j"
    by (induction m) auto
  then show "map_of (hm_insert k v m) j = ((map_of m)(k \<mapsto> v)) j"
    by (simp add: hm_insert_def)
qed

text \<open>The entries a merge looks at, in order: of two entries with the same key the newer one.\<close>

fun merge_picks :: "entries \<Rightarrow> entries \<Rightarrow> entries" where
  "merge_picks [] bs = bs"
| "merge_picks as [] = as"
| "merge_picks ((k, v) # as) ((k', v') # bs) =
     (if k < k' then (k, v) # merge_picks as ((k', v') # bs)
      else if k = k' then (k, if sv_created_at v' < sv_created_at v then v else v') # merge_picks as bs
      else (k', v') # merge_picks ((k, v) # as) bs)"

lemma merge_picks_Nil2 [simp]: "merge_picks as [] = as"
  by (cases as) simp_all

lemma entry_of_simps [simp]:
  "e_key (entry_of (k, v)) = k" "e_offset (entry_of (k, v)) = sv_offset v"
  "e_created_at (entry_of (k, v)) = sv_created_at v" "e_is_tombstone (entry_of (k, v)) = sv_is_tombstone v"
  by (simp_all add: entry_of_def Entry_new_def)

lemma drop_nth: "i < length xs \<Longrightarrow> drop i xs = xs ! i # drop (Suc i) xs"
  by (simp add: Cons_nth_drop_Suc)

lemma drain_loop1_eq:
  "snd (drain_loop1 env cfg es p s) = fold (tombstone_check env cfg) (drop (ptr1 p) es) s"
  "ptr2 (fst (drain_loop1 env cfg es p s)) = ptr2 p"
  by (induction env cfg es p s rule: drain_loop1.induct; subst drain_loop1.simps;
      simp add: increment_ptr1_def drop_nth)+

lemma drain_loop2_eq:
  "snd (drain_loop2 env cfg es p s) = fold (tombstone_check env cfg) (drop (ptr2 p) es) s"
  by (induction env cfg es p s rule: drain_loop2.induct; subst drain_loop2.simps;
      simp add: increment_ptr2_def drop_nth)

lemma merge_loop_eq:
  assumes "merge_loop env cfg (map entry_of as) (map entry_of bs) p s = (p', s')"
  shows "fold (tombstone_check env cfg) (map entry_of (drop (ptr2 p') bs))
      (fold (tombstone_check env cfg) (map entry_of (drop (ptr1 p') as)) s') =
    fold (tombstone_check env cfg) (map entry_of (merge_picks (drop (ptr1 p) as) (drop (ptr2 p) bs))) s"
  using assms
proof (induction env cfg "map entry_of as" "map entry_of bs" p s rule: merge_loop.induct)
  case (1 env cfg p s)
  note IH = 1(1-3) and run = 1(4)
  show ?case
  proof (cases "ptr1 p < length as \<and> ptr2 p < length bs")
    case True
    obtain k v k' v' where a: "as ! ptr1 p = (k, v)" and b: "bs ! ptr2 p = (k', v')"
      by fastforce
    have d: "drop (ptr1 p) as = (k, v) # drop (Suc (ptr1 p)) as" "drop (ptr2 p) bs = (k', v') # drop (Suc (ptr2 p)) bs"
      using True a b by (simp_all add: drop_nth)
    note step = run [unfolded merge_loop.simps [of env cfg _ _ p s]]
    consider (less) "k < k'" | (first) "k = k'" "sv_created_at v' < sv_created_at v" | (second) "k = k'" "\<not> sv_created_at v' < sv_created_at v"
      | (greater) "k' < k" by fastforce
    then show ?thesis
    proof cases
      case less
      with True a b step IH(1) show ?thesis
        by (simp add: d increment_ptr1_def increment_ptr2_def Let_def)
    next
      case first
      with True a b step IH(2) show ?thesis
        by (simp add: d increment_ptr1_def increment_ptr2_def Let_def)
    next
      case second
      with True a b step IH(2) show ?thesis
        by (simp add: d increment_ptr1_def increment_ptr2_def Let_def)
    next
      case greater
      then have "\<not> k < k'" "k \<noteq> k'" by auto
      with True a b step IH(3) show ?thesis
        by (simp add: d increment_ptr1_def increment_ptr2_def Let_def)
    qed
  next
    case False
    then have "p' = p" "s' = s"
      using run merge_loop.simps [of env cfg "map entry_of as" "map entry_of bs" p s] by (simp_all only: length_map if_False prod.inject)
    with False show ?thesis by auto
  qed
qed


text \<open>What a check decides for an entry, given the newest tombstone known for its key.\<close>

definition check_keep :: "CompConfig \<Rightarrow> datetime \<Rightarrow> datetime option \<Rightarrow> SkipMapValue \<Rightarrow> bool" where
  "check_keep cfg now t v \<longleftrightarrow> (case t of None \<Rightarrow> True | Some t \<Rightarrow> t < sv_created_at v)
     \<and> (if sv_is_tombstone v then \<not> has_expired now (entry_of ([], v)) (tombstone_ttl cfg)
        else use_ttl cfg \<longrightarrow> \<not> has_expired now (entry_of ([], v)) (entry_ttl cfg))"

definition check_tomb :: "datetime option \<Rightarrow> SkipMapValue \<Rightarrow> datetime option" where
  "check_tomb t v = (if sv_is_tombstone v \<and> (case t of None \<Rightarrow> True | Some t \<Rightarrow> t < sv_created_at v)
     then Some (sv_created_at v) else t)"

lemma tombstone_check_eq:
  "\<exists>T'. tombstone_check env cfg (entry_of (k, v)) ((T, n), m) =
      ((T', Suc n), if check_keep cfg (clock env n) (map_of T k) v then m @ [entry_of (k, v)] else m)
    \<and> map_of T' = (map_of T)(k := check_tomb (map_of T k) v)"
proof -
  define T' where "T' = (if sv_is_tombstone v \<and> (case map_of T k of None \<Rightarrow> True | Some t \<Rightarrow> t < sv_created_at v)
    then hm_insert k (sv_created_at v) T else T)"
  have "tombstone_check env cfg (entry_of (k, v)) ((T, n), m) =
      ((T', Suc n), if check_keep cfg (clock env n) (map_of T k) v then m @ [entry_of (k, v)] else m)"
    by (cases "map_of T k"; simp add: tombstone_check_def check_keep_def T'_def has_expired_def Let_def)
  moreover have "map_of T' = (map_of T)(k := check_tomb (map_of T k) v)"
    by (simp add: T'_def check_tomb_def hm_insert_lookup)
  ultimately show ?thesis by blast
qed

lemma checks_eq:
  assumes "sm_sorted es"
  shows "\<exists>T' kept. fold (tombstone_check env cfg) (map entry_of es) ((T, n), m) =
      ((T', n + length es), m @ map entry_of kept)
    \<and> sm_sorted kept \<and> fst ` set kept \<subseteq> fst ` set es
    \<and> (\<forall>k. case sm_get es k of
         None \<Rightarrow> sm_get kept k = None \<and> map_of T' k = map_of T k
       | Some v \<Rightarrow> map_of T' k = check_tomb (map_of T k) v
           \<and> (\<exists>i \<ge> n. sm_get kept k = (if check_keep cfg (clock env i) (map_of T k) v then Some v else None)))"
  using assms
proof (induction es arbitrary: T n m)
  case Nil
  then show ?case by (intro exI [of _ T] exI [of _ "[]"]) simp
next
  case (Cons e es)
  obtain k v where e: "e = (k, v)" by force
  define b where "b = check_keep cfg (clock env n) (map_of T k) v"
  obtain T1 where T1: "tombstone_check env cfg (entry_of (k, v)) ((T, n), m) =
      ((T1, Suc n), if b then m @ [entry_of (k, v)] else m)" "map_of T1 = (map_of T)(k := check_tomb (map_of T k) v)"
    using tombstone_check_eq unfolding b_def by blast
  have sorted: "sm_sorted es" "\<forall>j \<in> fst ` set es. k < j"
    using Cons.prems by (auto simp: sm_sorted_def e)
  have k: "sm_get es k = None"
    using sorted(2) by (force simp: sm_get_def map_of_eq_None_iff)
  obtain T' kept where IH: "fold (tombstone_check env cfg) (map entry_of es) ((T1, Suc n), if b then m @ [entry_of (k, v)] else m) =
      ((T', Suc n + length es), (if b then m @ [entry_of (k, v)] else m) @ map entry_of kept)"
    "sm_sorted kept" "fst ` set kept \<subseteq> fst ` set es"
    "\<forall>j. case sm_get es j of
         None \<Rightarrow> sm_get kept j = None \<and> map_of T' j = map_of T1 j
       | Some w \<Rightarrow> map_of T' j = check_tomb (map_of T1 j) w
           \<and> (\<exists>i \<ge> Suc n. sm_get kept j = (if check_keep cfg (clock env i) (map_of T1 j) w then Some w else None))"
    using Cons.IH [OF sorted(1)] by blast
  define kept' where "kept' = (if b then [(k, v)] else []) @ kept"
  have "fold (tombstone_check env cfg) (map entry_of (e # es)) ((T, n), m) =
      ((T', n + length (e # es)), m @ map entry_of kept')"
    using T1(1) IH(1) by (simp add: e kept'_def)
  moreover have "\<forall>j \<in> fst ` set kept. k < j"
    using sorted(2) IH(3) by blast
  then have "sm_sorted kept'"
    using IH(2) by (simp add: kept'_def sm_sorted_def)
  moreover have "fst ` set kept' \<subseteq> fst ` set (e # es)"
    using IH(3) by (auto simp: kept'_def e)
  moreover have "case sm_get (e # es) j of
         None \<Rightarrow> sm_get kept' j = None \<and> map_of T' j = map_of T j
       | Some w \<Rightarrow> map_of T' j = check_tomb (map_of T j) w
           \<and> (\<exists>i \<ge> n. sm_get kept' j = (if check_keep cfg (clock env i) (map_of T j) w then Some w else None))" for j
  proof (cases "j = k")
    case True
    with spec [OF IH(4), of k] k show ?thesis
      by (auto simp: e sm_get_def kept'_def b_def T1(2) simp del: map_of_eq_Some_iff map_of_eq_None_iff intro!: exI [of _ n])
  next
    case False
    then have "sm_get (e # es) j = sm_get es j" "sm_get kept' j = sm_get kept j" "map_of T1 j = map_of T j"
      by (simp_all add: e sm_get_def kept'_def T1(2))
    with spec [OF IH(4), of j] show ?thesis
      by (auto split: option.splits intro: Suc_leD)
  qed
  ultimately show ?case by blast
qed


section \<open>What a merge keeps\<close>

fun newer :: "SkipMapValue option \<Rightarrow> SkipMapValue option \<Rightarrow> SkipMapValue option" where
  "newer None y = y"
| "newer x None = x"
| "newer (Some v) (Some w) = (if sv_created_at w < sv_created_at v then Some v else Some w)"

lemma newer_None2 [simp]: "newer x None = x"
  by (cases x) simp_all

lemma merge_picks_keys: "fst ` set (merge_picks as bs) = fst ` set as \<union> fst ` set bs"
  by (induction as bs rule: merge_picks.induct) auto

lemma merge_picks_sorted: "sm_sorted as \<Longrightarrow> sm_sorted bs \<Longrightarrow> sm_sorted (merge_picks as bs)"
proof (induction as bs rule: merge_picks.induct)
  case (3 k v as k' v' bs)
  have keys: "\<forall>j \<in> fst ` set as. k < j" "\<forall>j \<in> fst ` set bs. k' < j" "sm_sorted as" "sm_sorted bs"
    using "3.prems" by (simp_all add: sm_sorted_def)
  consider "k < k'" | "k = k'" | "k' < k" by fastforce
  then show ?case
  proof cases
    assume "k < k'"
    then have "\<forall>j \<in> fst ` set (merge_picks as ((k', v') # bs)). k < j"
      using keys unfolding merge_picks_keys by auto
    with "3.IH"(1) "3.prems" keys \<open>k < k'\<close> show ?case by (simp add: sm_sorted_def)
  next
    assume "k = k'"
    then have "\<forall>j \<in> fst ` set (merge_picks as bs). k < j"
      using keys unfolding merge_picks_keys by auto
    with "3.IH"(2) keys \<open>k = k'\<close> show ?case by (simp add: sm_sorted_def)
  next
    assume "k' < k"
    then have "\<not> k < k'" "k \<noteq> k'" "\<forall>j \<in> fst ` set (merge_picks ((k, v) # as) bs). k' < j"
      using keys unfolding merge_picks_keys by auto
    with "3.IH"(3) "3.prems" keys show ?case by (simp add: sm_sorted_def)
  qed
qed simp_all

lemma sm_get_Cons: "sm_get ((k, v) # m) j = (if j = k then Some v else sm_get m j)"
  by (simp add: sm_get_def)

lemma sm_sorted_head: "sm_sorted ((k, v) # m) \<Longrightarrow> j \<le> k \<Longrightarrow> sm_get m j = None"
  by (force simp: sm_sorted_def sm_get_def map_of_eq_None_iff)

lemma merge_picks_get:
  "sm_sorted as \<Longrightarrow> sm_sorted bs \<Longrightarrow> sm_get (merge_picks as bs) j = newer (sm_get as j) (sm_get bs j)"
proof (induction as bs rule: merge_picks.induct)
  case (3 k v as k' v' bs)
  have s: "sm_sorted as" "sm_sorted bs" using "3.prems" by (simp_all add: sm_sorted_def)
  note h = sm_sorted_head [OF "3.prems"(1), of j] sm_sorted_head [OF "3.prems"(2), of j]
  consider "k < k'" | "k = k'" | "k' < k" by fastforce
  then show ?case
  proof cases
    assume "k < k'"
    with "3.IH"(1) "3.prems" s h show ?case by (auto simp: sm_get_Cons)
  next
    assume "k = k'"
    with "3.IH"(2) s h show ?case by (auto simp: sm_get_Cons)
  next
    assume "k' < k"
    then have "\<not> k < k'" "k \<noteq> k'" by auto
    with "3.IH"(3) "3.prems" s h \<open>k' < k\<close> show ?case by (auto simp: sm_get_Cons)
  qed
qed simp_all

lemma skip_value_eta: "SkipMapValue_new (sv_offset v) (sv_created_at v) (sv_is_tombstone v) = v"
  by (simp add: SkipMapValue_new_def)

lemma merge_sstables_eq:
  assumes "sm_sorted as" and "sm_sorted bs"
  shows "\<exists>T' n' es. merge_sstables env cfg as bs (T, n) = ((T', n'), table_insertor_from es bf_default)
    \<and> sm_sorted es \<and> n \<le> n'
    \<and> (\<forall>k. case newer (sm_get as k) (sm_get bs k) of
         None \<Rightarrow> sm_get es k = None \<and> map_of T' k = map_of T k
       | Some v \<Rightarrow> map_of T' k = check_tomb (map_of T k) v
           \<and> (\<exists>i \<ge> n. sm_get es k = (if check_keep cfg (clock env i) (map_of T k) v then Some v else None)))"
proof -
  let ?picks = "merge_picks as bs"
  obtain T' es where f: "fold (tombstone_check env cfg) (map entry_of ?picks) ((T, n), []) =
      ((T', n + length ?picks), map entry_of es)" and s: "sm_sorted es"
    and g: "\<forall>k. case sm_get ?picks k of
         None \<Rightarrow> sm_get es k = None \<and> map_of T' k = map_of T k
       | Some v \<Rightarrow> map_of T' k = check_tomb (map_of T k) v
           \<and> (\<exists>i \<ge> n. sm_get es k = (if check_keep cfg (clock env i) (map_of T k) v then Some v else None))"
    using checks_eq [OF merge_picks_sorted [OF assms], of env cfg T n "[]"] unfolding append_Nil by blast
  obtain p s1 where m: "merge_loop env cfg (map entry_of as) (map entry_of bs) merge_pointer_new ((T, n), []) = (p, s1)"
    by (metis surj_pair)
  obtain p2 s2 where d1: "drain_loop1 env cfg (map entry_of as) p s1 = (p2, s2)" by (metis surj_pair)
  obtain p3 s3 where d2: "drain_loop2 env cfg (map entry_of bs) p2 s2 = (p3, s3)" by (metis surj_pair)
  have "s2 = fold (tombstone_check env cfg) (map entry_of (drop (ptr1 p) as)) s1" "ptr2 p2 = ptr2 p"
    using drain_loop1_eq [of env cfg "map entry_of as" p s1] by (simp_all add: d1 drop_map)
  moreover have "s3 = fold (tombstone_check env cfg) (map entry_of (drop (ptr2 p2) bs)) s2"
    using drain_loop2_eq [of env cfg "map entry_of bs" p2 s2] by (simp add: d2 drop_map)
  ultimately have s3: "s3 = ((T', n + length ?picks), map entry_of es)"
    using merge_loop_eq [OF m] f by (simp add: merge_pointer_new_def)
  have "fold (\<lambda>e m. sm_insert (e_key e) (SkipMapValue_new (e_offset e) (e_created_at e) (e_is_tombstone e)) m)
      (map entry_of es) [] = fold (\<lambda>(k, v). sm_insert k v) es []"
    unfolding fold_map by (rule fold_cong) (auto simp: skip_value_eta)
  then have "merge_sstables env cfg as bs (T, n) = ((T', n + length ?picks), table_insertor_from es bf_default)"
    by (simp add: merge_sstables_def m d1 d2 s3 sm_rebuild [OF s] ti_set_entries_def ti_set_sst_size_from_entries_def
        table_insertor_default_def table_insertor_from_def)
  moreover note s g [unfolded merge_picks_get [OF assms]]
  ultimately show ?thesis
    by (intro exI [of _ T'] exI [of _ "n + length ?picks"] exI [of _ es]) simp
qed

section \<open>Newest entry wins\<close>

text \<open>
  For one key: \<open>S\<close> are the values merged so far, \<open>a\<close> the one kept, \<open>t\<close> the newest tombstone recorded and
  \<open>t0\<close> the one recorded before. Every value is dominated by the one kept or by a tombstone.
\<close>

definition key_inv :: "SkipMapValue set \<Rightarrow> datetime option \<Rightarrow> datetime option \<Rightarrow> SkipMapValue option \<Rightarrow> bool" where
  "key_inv S t0 t a \<longleftrightarrow>
     (\<forall>v. a = Some v \<longrightarrow> v \<in> S \<and> (if sv_is_tombstone v then t = Some (sv_created_at v)
        else \<forall>t'. t = Some t' \<longrightarrow> t' < sv_created_at v))
     \<and> (\<forall>w \<in> S. (\<exists>v. a = Some v \<and> sv_created_at w \<le> sv_created_at v) \<or> (\<exists>t'. t = Some t' \<and> sv_created_at w \<le> t'))
     \<and> (\<forall>t'. t = Some t' \<longrightarrow> t0 = Some t' \<or> (\<exists>w \<in> S. sv_is_tombstone w \<and> sv_created_at w = t'))"

lemma key_inv_init: "key_inv {} t0 t0 None"
  by (simp add: key_inv_def)

lemma newer_None: "newer a b = None \<longleftrightarrow> a = None \<and> b = None"
  by (cases a; cases b) auto

lemma newer_Some:
  assumes "newer a b = Some v"
  shows "a = Some v \<or> b = Some v" and "\<And>w. a = Some w \<or> b = Some w \<Longrightarrow> sv_created_at w \<le> sv_created_at v"
  using assms by (cases a; cases b; auto split: if_splits)+

lemma key_inv_step:
  assumes "key_inv S t0 t a" and "\<not> use_ttl cfg" and "newer a b = Some v"
  shows "key_inv (S \<union> set_option b) t0 (check_tomb t v) (if check_keep cfg now t v then Some v else None)"
proof -
  note n = newer_Some [OF assms(3)]
  have v: "v \<in> S \<union> set_option b"
    using n(1) assms(1) by (auto simp: key_inv_def)
  have dom: "sv_created_at w \<le> sv_created_at v \<or> (\<exists>t'. t = Some t' \<and> sv_created_at w \<le> t')" if "w \<in> S \<union> set_option b" for w
  proof (cases "w \<in> S")
    case True
    then consider v' where "a = Some v'" "sv_created_at w \<le> sv_created_at v'" | t' where "t = Some t'" "sv_created_at w \<le> t'"
      using assms(1) unfolding key_inv_def by blast
    then show ?thesis using n(2) by cases (auto intro: order_trans)
  next
    case False
    then show ?thesis using that n(2) [of w] by simp
  qed
  have old: "t0 = Some t' \<or> (\<exists>w \<in> S. sv_is_tombstone w \<and> sv_created_at w = t')" if "t = Some t'" for t'
    using assms(1) that by (simp add: key_inv_def)
  show ?thesis
  proof (cases "case t of None \<Rightarrow> True | Some t \<Rightarrow> t < sv_created_at v")
    case True
    have "sv_created_at w \<le> sv_created_at v" if "w \<in> S \<union> set_option b" for w
      using dom [OF that] True by (auto split: option.splits)
    then show ?thesis
      using True v old assms(2)
      by (cases t; cases "sv_is_tombstone v"; simp add: key_inv_def check_tomb_def check_keep_def; blast?)
  next
    case False
    then obtain t' where "t = Some t'" "sv_created_at v \<le> t'" by (auto split: option.splits)
    moreover from this have "sv_created_at w \<le> t'" if "w \<in> S \<union> set_option b" for w
      using dom [OF that] by auto
    ultimately show ?thesis
      using old by (auto simp: key_inv_def check_tomb_def check_keep_def)
  qed
qed

definition merge_all :: "environment \<Rightarrow> CompConfig \<Rightarrow> entries list \<Rightarrow> merge_state \<times> entries \<Rightarrow> merge_state \<times> entries" where
  "merge_all env cfg = fold (\<lambda>es (ms, acc). let (ms', ti) = merge_sstables env cfg acc es ms in (ms', ti_entries ti))"

definition seen_values :: "entries list \<Rightarrow> Key \<Rightarrow> SkipMapValue set" where
  "seen_values ess k = {v. \<exists>es \<in> set ess. sm_get es k = Some v}"

lemma merge_all_inv:
  assumes "\<not> use_ttl cfg" and "\<forall>es \<in> set ess. sm_sorted es" and "sm_sorted acc"
    and "\<forall>k. key_inv (S k) (T0 k) (map_of T k) (sm_get acc k)"
  shows "\<exists>T' n' es. merge_all env cfg ess ((T, n), acc) = ((T', n'), es) \<and> sm_sorted es \<and> n \<le> n'
    \<and> (\<forall>k. key_inv (S k \<union> seen_values ess k) (T0 k) (map_of T' k) (sm_get es k))"
  using assms(2-4)
proof (induction ess arbitrary: S T n acc)
  case Nil
  then show ?case by (simp add: merge_all_def seen_values_def)
next
  case (Cons es ess)
  obtain T1 n1 acc1 where m: "merge_sstables env cfg acc es (T, n) = ((T1, n1), table_insertor_from acc1 bf_default)"
    "sm_sorted acc1" "n \<le> n1"
    "\<forall>k. case newer (sm_get acc k) (sm_get es k) of
         None \<Rightarrow> sm_get acc1 k = None \<and> map_of T1 k = map_of T k
       | Some v \<Rightarrow> map_of T1 k = check_tomb (map_of T k) v
           \<and> (\<exists>i \<ge> n. sm_get acc1 k = (if check_keep cfg (clock env i) (map_of T k) v then Some v else None))"
    using merge_sstables_eq [of acc es env cfg T n] Cons.prems(1,2) unfolding list.set by blast
  have "key_inv (S k \<union> set_option (sm_get es k)) (T0 k) (map_of T1 k) (sm_get acc1 k)" for k
  proof (cases "newer (sm_get acc k) (sm_get es k)")
    case None
    with spec [OF m(4), of k] spec [OF Cons.prems(3), of k] show ?thesis
      by (simp add: newer_None del: map_of_eq_Some_iff)
  next
    case (Some v)
    with spec [OF m(4), of k] key_inv_step [OF spec [OF Cons.prems(3)] assms(1) Some] show ?thesis
      by (auto simp del: map_of_eq_Some_iff)
  qed
  then have "\<exists>T' n' es'. merge_all env cfg ess ((T1, n1), acc1) = ((T', n'), es') \<and> sm_sorted es' \<and> n1 \<le> n'
    \<and> (\<forall>k. key_inv ((S k \<union> set_option (sm_get es k)) \<union> seen_values ess k) (T0 k) (map_of T' k) (sm_get es' k))"
    using Cons.IH [of acc1 "\<lambda>k. S k \<union> set_option (sm_get es k)" T1 n1] Cons.prems(1) m(2) by simp
  moreover have "S k \<union> set_option (sm_get es k) \<union> seen_values ess k = S k \<union> seen_values (es # ess) k" for k
    by (auto simp: seen_values_def)
  moreover have "merge_all env cfg (es # ess) ((T, n), acc) = merge_all env cfg ess ((T1, n1), acc1)"
    by (simp add: merge_all_def m(1) table_insertor_from_def)
  ultimately show ?case
    using m(3) by (auto intro: le_trans)
qed

section \<open>Merging the tables of a bucket from disk\<close>

definition loaded :: "entries \<Rightarrow> entries" where
  "loaded es = map (\<lambda>(k, v). (k, stored_value v)) es"

lemma loaded_sorted: "sm_sorted (loaded es) \<longleftrightarrow> sm_sorted es"
  by (simp add: loaded_def sm_sorted_def case_prod_beta' comp_def)

lemma loaded_get: "sm_get (loaded es) k = map_option stored_value (sm_get es k)"
  by (simp add: loaded_def sm_get_def map_of_map)

lemma merge_next_fold:
  assumes "\<forall>t \<in> set ts. table_on_disk P fs t (C t)"
  shows "\<exists>hot'. fold_res (merge_next env P cfg fs) ts (ms, hot, acc) =
    (let (ms', es) = merge_all env cfg (map (\<lambda>t. loaded (C t)) ts) (ms, acc) in Ok (ms', hot', es))"
  using assms
proof (induction ts arbitrary: ms hot acc)
  case Nil
  then show ?case by (simp add: merge_all_def)
next
  case (Cons t ts)
  obtain ms1 ti where m: "merge_sstables env cfg acc (loaded (C t)) ms = (ms1, ti)" by (metis surj_pair)
  have "load_entries_from_file P fs t = Ok (t\<lparr>t_entries := loaded (C t), t_size := length (data_file_of (C t))\<rparr>)"
    using load_entries_on_disk [of P fs t "C t"] Cons.prems by (simp add: loaded_def)
  then have "merge_next env P cfg fs t (ms, hot, acc) = Ok (ms1, hot + hotness t, ti_entries ti)"
    by (simp add: merge_next_def m)
  with Cons.IH [of ms1 "hot + hotness t" "ti_entries ti"] Cons.prems show ?case
    by (simp add: merge_all_def m)
qed

text \<open>The configured false positive rate gives filters with at least one bit.\<close>

definition rate_ok :: "platform \<Rightarrow> f64 \<Rightarrow> bool" where
  "rate_ok P rate \<longleftrightarrow> f64_ge P rate (f64_of_nat P 0) \<and> (\<forall>n > 0. calculate_no_of_bits P n rate \<noteq> 0)"

lemma filter_of_entries:
  assumes "rate_ok P rate" and "es \<noteq> []"
  shows "\<exists>bf bf'. bf_new P rate (length es) = Ok bf \<and> build_filter_from_entries P bf es = Ok bf' \<and> bf_ok bf'
    \<and> bf_sst_dir bf' = None \<and> (\<forall>k \<in> fst ` set es. bf_contains P bf' k = Ok True)"
proof -
  obtain bf where bf: "bf_new P rate (length es) = Ok bf" "bf_sst_dir bf = None"
    using assms by (simp add: bf_new_def rate_ok_def Let_def)
  have "bf_ok bf" using bf_new_ok [OF bf(1)] assms by (simp add: rate_ok_def)
  with build_filter_complete [OF this, of P es] build_filter_sst_dir bf show ?thesis by fastforce
qed

lemma merge_bucket_eq:
  assumes "rate_ok P (filter_false_positive cfg)"
    and "sstables b = first # tables" and "\<forall>t \<in> set tables. table_on_disk P fs t (C t)"
    and "merge_all env cfg (map (\<lambda>t. loaded (C t)) tables) (ms, t_entries first) = (ms', es)"
  shows "if es = [] then merge_bucket env P cfg fs b (ms, merged) = Panic
    else \<exists>m. merge_bucket env P cfg fs b (ms, merged) = Ok (ms', merged @ [m]) \<and> ms_sstable m = es
      \<and> bf_ok (ms_filter m) \<and> bf_sst_dir (ms_filter m) = None
      \<and> (\<forall>k \<in> fst ` set es. bf_contains P (ms_filter m) k = Ok True)"
proof -
  obtain hot where f: "fold_res (merge_next env P cfg fs) tables (ms, 0, t_entries first) = Ok (ms', hot, es)"
    using merge_next_fold [OF assms(3), of env cfg ms 0 "t_entries first"] assms(4) by auto
  show ?thesis
  proof (cases "es = []")
    case True
    then show ?thesis
      by (simp add: merge_bucket_def assms(2) f bf_new_def)
  next
    case False
    then obtain bf bf' where "bf_new P (filter_false_positive cfg) (length es) = Ok bf"
      "build_filter_from_entries P bf es = Ok bf'" "bf_ok bf'" "bf_sst_dir bf' = None"
      "\<forall>k \<in> fst ` set es. bf_contains P bf' k = Ok True"
      using filter_of_entries [OF assms(1)] by blast
    with False show ?thesis
      by (intro if_not_P [THEN iffD2] exI [of _ "\<lparr>ms_sstable = es, ms_hotness = hot, ms_filter = bf'\<rparr>"])
        (simp_all add: merge_bucket_def assms(2) f del: and_then_eq_Ok)
  qed
qed

lemma key_inv_newest:
  assumes "key_inv S t0 t (Some v)"
  shows "v \<in> S" and "w \<in> S \<Longrightarrow> sv_created_at w \<le> sv_created_at v"
proof -
  note h = assms [unfolded key_inv_def]
  show "v \<in> S" using h by blast
  assume "w \<in> S"
  then consider "sv_created_at w \<le> sv_created_at v" | t' where "t = Some t'" "sv_created_at w \<le> t'"
    using h by blast
  then show "sv_created_at w \<le> sv_created_at v"
    using h by cases (auto split: if_splits)
qed

lemma key_inv_live:
  assumes "key_inv S t0 t a" and "v \<in> S" and "\<not> sv_is_tombstone v"
    and "\<forall>w \<in> S. sv_created_at w \<le> sv_created_at v \<and> (sv_is_tombstone w \<longrightarrow> sv_created_at w < sv_created_at v)"
    and "\<forall>t'. t0 = Some t' \<longrightarrow> t' < sv_created_at v"
  shows "\<exists>v'. a = Some v' \<and> sv_created_at v' = sv_created_at v"
proof -
  note h = assms(1) [unfolded key_inv_def]
  have t: "t' < sv_created_at v" if "t = Some t'" for t'
  proof -
    have "t0 = Some t' \<or> (\<exists>w \<in> S. sv_is_tombstone w \<and> sv_created_at w = t')"
      using h [THEN conjunct2, THEN conjunct2] that by simp
    then show ?thesis using assms(4,5) by auto
  qed
  consider v' where "a = Some v'" "sv_created_at v \<le> sv_created_at v'" | t' where "t = Some t'" "sv_created_at v \<le> t'"
    using h assms(2) by blast
  then show ?thesis
  proof cases
    case 1
    then have "v' \<in> S" using h by blast
    with 1 assms(4) show ?thesis by (simp add: order_antisym)
  next
    case 2
    with t show ?thesis by fastforce
  qed
qed

text \<open>
  The contract of a merge: in order, and for every key the newest value merged, unless that value is a
  tombstone or is older than a tombstone recorded before.
\<close>

definition newest_spec :: "entries list \<Rightarrow> (Key \<Rightarrow> datetime option) \<Rightarrow> entries \<Rightarrow> bool" where
  "newest_spec ess T es \<longleftrightarrow> sm_sorted es
     \<and> (\<forall>k v. sm_get es k = Some v \<longrightarrow> v \<in> seen_values ess k
          \<and> (\<forall>w \<in> seen_values ess k. sv_created_at w \<le> sv_created_at v))
     \<and> (\<forall>k. \<forall>v \<in> seen_values ess k. \<not> sv_is_tombstone v
          \<and> (\<forall>w \<in> seen_values ess k. sv_created_at w \<le> sv_created_at v \<and> (sv_is_tombstone w \<longrightarrow> sv_created_at w < sv_created_at v))
          \<and> (\<forall>t. T k = Some t \<longrightarrow> t < sv_created_at v)
          \<longrightarrow> (\<exists>v'. sm_get es k = Some v' \<and> sv_created_at v' = sv_created_at v))"

lemma newest_spec_live:
  assumes "newest_spec ess T es" and "v \<in> seen_values ess k" and "\<not> sv_is_tombstone v"
    and "\<And>w. w \<in> seen_values ess k \<Longrightarrow> sv_created_at w \<le> sv_created_at v \<and> (sv_is_tombstone w \<longrightarrow> sv_created_at w < sv_created_at v)"
    and "\<And>t. T k = Some t \<Longrightarrow> t < sv_created_at v"
  shows "\<exists>v'. sm_get es k = Some v' \<and> sv_created_at v' = sv_created_at v"
  using assms unfolding newest_spec_def by blast

lemma merge_all_newest:
  assumes "\<not> use_ttl cfg" and "\<forall>es \<in> set ess. sm_sorted es"
  shows "\<exists>T' n' es. merge_all env cfg ess ((T, n), []) = ((T', n'), es) \<and> newest_spec ess (map_of T) es"
proof -
  have init: "\<forall>k. key_inv {} (map_of T k) (map_of T k) (sm_get [] k)" "sm_sorted ([] :: entries)"
    using key_inv_init by (simp_all add: sm_sorted_def)
  obtain T' n' es where m: "merge_all env cfg ess ((T, n), []) = ((T', n'), es)" "sm_sorted es"
    "\<forall>k. key_inv ({} \<union> seen_values ess k) (map_of T k) (map_of T' k) (sm_get es k)"
    using merge_all_inv [OF assms init(2,1), of env n] by blast
  have inv: "key_inv (seen_values ess k) (map_of T k) (map_of T' k) (sm_get es k)" for k
    using m(3) unfolding Un_empty_left by blast
  have "newest_spec ess (map_of T) es"
    unfolding newest_spec_def
  proof (intro conjI allI impI ballI)
    fix k v assume v: "sm_get es k = Some v"
    note new = key_inv_newest [OF inv [of k, unfolded v]]
    show "v \<in> seen_values ess k" by (rule new(1))
    show "sv_created_at w \<le> sv_created_at v" if "w \<in> seen_values ess k" for w by (rule new(2) [OF that])
  next
    fix k v assume "v \<in> seen_values ess k" "\<not> sv_is_tombstone v \<and> (\<forall>w \<in> seen_values ess k.
        sv_created_at w \<le> sv_created_at v \<and> (sv_is_tombstone w \<longrightarrow> sv_created_at w < sv_created_at v))
      \<and> (\<forall>t. map_of T k = Some t \<longrightarrow> t < sv_created_at v)"
    then show "\<exists>v'. sm_get es k = Some v' \<and> sv_created_at v' = sv_created_at v"
      by (intro key_inv_live [OF inv]) blast+
  qed (rule m(2))
  with m(1) show ?thesis by blast
qed

section \<open>Examples on disk\<close>

text \<open>Small tables of one block each, written under the directories of the given names.\<close>

definition disk_table :: "string \<Rightarrow> Table" where
  "disk_table d = \<lparr>t_dir = [d], hotness = 0, t_size = 0, t_created_at = 0, data_file = [d, DATA_FILE],
     index_file = [d, INDEX_FILE], t_entries = [], t_filter = Some sample_filter, t_summary = None\<rparr>"

definition disk_of :: "(string \<times> entries) list \<Rightarrow> filesys" where
  "disk_of ts = fold (\<lambda>(d, es) fs. with_file (with_file fs [d, DATA_FILE] (data_file_of es))
     [d, INDEX_FILE] (concat (map index_bytes (index_of 0 [es])))) ts sample_fs"

definition merge_platform :: platform where
  "merge_platform = sample_platform\<lparr>f64_to_u32 := (\<lambda>_. 8)\<rparr>"

definition merge_config :: CompConfig where
  "merge_config = comp_config_new False \<lparr>tp_entry_ttl = 0, tp_tombstone_ttl = 1000\<rparr>
     \<lparr>ip_background_interval = 1, ip_flush_listener_interval = 1, ip_tombstone_compaction_interval = 1\<rparr> STCS 4"

definition merge_env :: environment where
  "merge_env = \<lparr>clock = (\<lambda>n. 9000000), uuid = (\<lambda>n. replicate n (CHR ''b'')),
     alphanumeric = (\<lambda>n. le_bytes 5 n)\<rparr>"

lemma merge_rate_ok: "rate_ok merge_platform (filter_false_positive merge_config)"
  by (simp add: rate_ok_def merge_platform_def merge_config_def comp_config_new_def sample_platform_def calculate_no_of_bits_def)

definition small_entries :: "entries \<Rightarrow> bool" where
  "small_entries es \<longleftrightarrow> es \<noteq> [] \<and> sm_sorted es \<and> length (data_file_of es) \<le> BLOCK_SIZE
     \<and> (\<forall>e \<in> set es. entry_ok merge_platform e)"

lemma disk_of_files:
  assumes "map_of ts d = Some es" and "distinct (map fst ts)"
  shows "files (disk_of ts) [d, DATA_FILE] = Some (data_file_of es)"
    and "files (disk_of ts) [d, INDEX_FILE] = Some (concat (map index_bytes (index_of 0 [es])))"
proof -
  have "files (fold (\<lambda>(d, es) fs. with_file (with_file fs [d, DATA_FILE] (data_file_of es))
     [d, INDEX_FILE] (concat (map index_bytes (index_of 0 [es])))) ts fs0) [d, f] =
     (case map_of ts d of None \<Rightarrow> files fs0 [d, f] | Some es \<Rightarrow>
        if f = DATA_FILE then Some (data_file_of es)
        else if f = INDEX_FILE then Some (concat (map index_bytes (index_of 0 [es]))) else files fs0 [d, f])" for f fs0
    using assms(2)
  proof (induction ts arbitrary: fs0)
    case (Cons e ts)
    then show ?case
      by (cases e) (auto simp: file_names map_of_eq_None_iff [THEN iffD2] split: option.splits)
  qed simp
  from this [of sample_fs] show "files (disk_of ts) [d, DATA_FILE] = Some (data_file_of es)"
    "files (disk_of ts) [d, INDEX_FILE] = Some (concat (map index_bytes (index_of 0 [es])))"
    using assms(1) by (simp_all add: disk_of_def file_names)
qed

lemma disk_table_on_disk:
  assumes "map_of ts d = Some es" and "distinct (map fst ts)" and "small_entries es"
  shows "table_on_disk merge_platform (disk_of ts) (disk_table d) es"
  unfolding table_on_disk_def disk_table_def
  using disk_of_files [OF assms(1,2)] assms(3)
  by (auto simp: small_entries_def constants blocks_ok_def intro!: exI [of _ "[es]"])


definition sample_tomb :: "nat \<Rightarrow> SkipMapValue" where
  "sample_tomb n = (sample_value n)\<lparr>sv_is_tombstone := True\<rparr>"

lemmas small_entries_simps = small_entries_def sm_sorted_def data_file_of_def length_data_bytes constants entry_ok_def
  field_ok_def merge_platform_def sample_platform_def sample_value_def sample_tomb_def wf_time_def timestamp_millis_def

text \<open>Three tables: a value, a second value with a tombstone for a third key, and a newer second value.\<close>

definition merge_tables :: "(string \<times> entries) list" where
  "merge_tables = [(''a'', [([7], sample_value 2)]), (''b'', [([1], sample_value 3), ([2], sample_tomb 4)]),
     (''c'', [([1], sample_value 5)])]"

definition merge_sample_bucket :: Bucket where
  "merge_sample_bucket = \<lparr>b_id = ''x'', b_dir = [''x''], b_size = 0, avarage_size = 0,
     sstables = map disk_table [''a'', ''b'', ''c'']\<rparr>"

abbreviation merge_contents :: "Table \<Rightarrow> entries" where
  "merge_contents t \<equiv> the (map_of merge_tables (hd (t_dir t)))"

lemma merge_tables_on_disk:
  assumes "d \<in> fst ` set merge_tables"
  shows "table_on_disk merge_platform (disk_of merge_tables) (disk_table d) (merge_contents (disk_table d))"
proof -
  obtain es where es: "map_of merge_tables d = Some es" using assms by (auto simp: merge_tables_def)
  then have "small_entries es"
    by (auto simp: merge_tables_def small_entries_simps split: if_splits)
  with es have "table_on_disk merge_platform (disk_of merge_tables) (disk_table d) es"
    by (intro disk_table_on_disk) (simp_all add: merge_tables_def)
  then show ?thesis by (simp add: es disk_table_def)
qed

lemma sample_merge_setup:
  "\<not> use_ttl merge_config" "sstables merge_sample_bucket = disk_table ''a'' # [disk_table ''b'', disk_table ''c'']"
  "t_entries (disk_table ''a'') = []"
  "\<forall>t \<in> set [disk_table ''b'', disk_table ''c'']. table_on_disk merge_platform (disk_of merge_tables) t (merge_contents t)"
  using merge_tables_on_disk [of "''b''"] merge_tables_on_disk [of "''c''"]
  by (simp_all add: merge_config_def comp_config_new_def merge_sample_bucket_def disk_table_def merge_tables_def)

lemma sample_newest:
  assumes "newest_spec (map (\<lambda>t. loaded (merge_contents t)) [disk_table ''b'', disk_table ''c'']) (map_of []) es"
  shows "\<exists>v. sm_get es [1] = Some v \<and> sv_created_at v = 5000000" and "es \<noteq> []"
proof -
  let ?v = "stored_value (sample_value 5)"
  have seen: "seen_values (map (\<lambda>t. loaded (merge_contents t)) [disk_table ''b'', disk_table ''c'']) [1] = {stored_value (sample_value 3), ?v}"
    by (auto simp: seen_values_def disk_table_def merge_tables_def loaded_get sm_get_Cons)
  have v: "sv_created_at ?v = 5000000" "\<not> sv_is_tombstone ?v"
    "sv_created_at (stored_value (sample_value 3)) = 3000000" "\<not> sv_is_tombstone (stored_value (sample_value 3))"
    by (simp_all add: stored_value_def sample_value_def truncate_millis_def timestamp_millis_def)
  have "\<exists>v'. sm_get es [1] = Some v' \<and> sv_created_at v' = sv_created_at ?v"
    by (rule newest_spec_live [OF assms, of ?v "[1]", unfolded seen]) (auto simp: v)
  then show "\<exists>v. sm_get es [1] = Some v \<and> sv_created_at v = 5000000" "es \<noteq> []"
    using v(1) by auto
qed

lemma sample_merge_ok:
  "\<exists>m ms'. merge_bucket merge_env merge_platform merge_config (disk_of merge_tables) merge_sample_bucket (([], 0), []) = Ok (ms', [m])"
proof -
  let ?ess = "map (\<lambda>t. loaded (merge_contents t)) [disk_table ''b'', disk_table ''c'']"
  have "\<forall>es \<in> set ?ess. sm_sorted es"
    using sample_merge_setup(4) by (auto simp: loaded_sorted table_on_disk_def)
  then obtain T' n' es where m: "merge_all merge_env merge_config ?ess (([], 0), []) = ((T', n'), es)" "newest_spec ?ess (map_of []) es"
    using merge_all_newest [OF sample_merge_setup(1), of ?ess merge_env "[]" 0] by blast
  from merge_bucket_eq [OF merge_rate_ok sample_merge_setup(2,4), of merge_env "([], 0)" "(T', n')" es "[]",
      unfolded sample_merge_setup(3), OF m(1)] sample_newest(2) [OF m(2)]
  show ?thesis by auto
qed

section \<open>Properties\<close>

text \<open>C17. Merging the tables of a bucket, whose entries are on disk only, keeps the newest entry of every
  key of the second to the last table: what it keeps for a key is the entry of one of these tables and none
  of them has a newer one, and a value that is newest, not deleted and not older than a tombstone met
  before is kept. The merged entries are in order, and the new filter finds them. If nothing is left the
  merge panics. (Without a time to live for entries.)\<close>

theorem bucket_merge_newest:
  assumes "\<not> use_ttl cfg" and "rate_ok P (filter_false_positive cfg)"
    and "sstables b = first # tables" and "t_entries first = []"
    and "\<forall>t \<in> set tables. table_on_disk P fs t (C t)"
  shows "\<exists>es ms'. newest_spec (map (\<lambda>t. loaded (C t)) tables) (map_of T) es
    \<and> (if es = [] then merge_bucket env P cfg fs b ((T, n), merged) = Panic
       else \<exists>m. merge_bucket env P cfg fs b ((T, n), merged) = Ok (ms', merged @ [m]) \<and> ms_sstable m = es
         \<and> (\<forall>k \<in> fst ` set es. bf_contains P (ms_filter m) k = Ok True))"
proof -
  let ?ess = "map (\<lambda>t. loaded (C t)) tables"
  have sorted: "\<forall>es \<in> set ?ess. sm_sorted es"
    using assms(5) by (auto simp: loaded_sorted table_on_disk_def)
  obtain T' n' es where m: "merge_all env cfg ?ess ((T, n), []) = ((T', n'), es)" "newest_spec ?ess (map_of T) es"
    using merge_all_newest [OF assms(1) sorted] by blast
  note b = merge_bucket_eq [OF assms(2,3,5), of env "(T, n)" "(T', n')" es merged, unfolded assms(4), OF m(1)]
  show ?thesis
  proof (cases "es = []")
    case True
    with b m(2) show ?thesis by auto
  next
    case False
    show ?thesis
      by (rule exI [of _ es], rule exI [of _ "(T', n')"]) (use b m(2) False in \<open>simp only: if_False simp_thms, blast\<close>)
  qed
qed

theorem bucket_merge_newest_witness:
  "\<exists>m ms'. merge_bucket merge_env merge_platform merge_config (disk_of merge_tables) merge_sample_bucket (([], 0), []) =
     Ok (ms', [m]) \<and> (\<exists>v. sm_get (ms_sstable m) [1] = Some v \<and> sv_created_at v = 5000000)"
proof -
  obtain es ms' where es: "newest_spec (map (\<lambda>t. loaded (merge_contents t)) [disk_table ''b'', disk_table ''c'']) (map_of []) es"
    and run: "if es = [] then merge_bucket merge_env merge_platform merge_config (disk_of merge_tables) merge_sample_bucket (([], 0), []) = Panic
       else \<exists>m. merge_bucket merge_env merge_platform merge_config (disk_of merge_tables) merge_sample_bucket (([], 0), []) = Ok (ms', [] @ [m])
         \<and> ms_sstable m = es \<and> (\<forall>k \<in> fst ` set es. bf_contains merge_platform (ms_filter m) k = Ok True)"
    using bucket_merge_newest [OF sample_merge_setup(1) merge_rate_ok sample_merge_setup(2-4), of "[]" merge_env 0 "[]"] by blast
  from sample_newest [OF es] run show ?thesis by auto
qed

text \<open>A key that no merged table has is not in the result, and its tombstone is not touched.\<close>

lemma merge_all_absent:
  assumes "\<forall>es \<in> set ess. sm_sorted es \<and> sm_get es k = None" and "sm_sorted acc" and "sm_get acc k = None"
  shows "\<exists>T' n' es. merge_all env cfg ess ((T, n), acc) = ((T', n'), es) \<and> sm_get es k = None"
  using assms
proof (induction ess arbitrary: T n acc)
  case Nil
  then show ?case by (simp add: merge_all_def)
next
  case (Cons es ess)
  obtain T1 n1 acc1 where m: "merge_sstables env cfg acc es (T, n) = ((T1, n1), table_insertor_from acc1 bf_default)"
    "sm_sorted acc1"
    "\<forall>k. case newer (sm_get acc k) (sm_get es k) of
         None \<Rightarrow> sm_get acc1 k = None \<and> map_of T1 k = map_of T k
       | Some v \<Rightarrow> map_of T1 k = check_tomb (map_of T k) v
           \<and> (\<exists>i \<ge> n. sm_get acc1 k = (if check_keep cfg (clock env i) (map_of T k) v then Some v else None))"
    using merge_sstables_eq [of acc es env cfg T n] Cons.prems(1,2) unfolding list.set by blast
  have "sm_get acc1 k = None" using spec [OF m(3), of k] Cons.prems(1,3) by simp
  with Cons.IH [OF _ m(2), of T1 n1] Cons.prems(1) show ?case
    by (simp add: merge_all_def m(1) table_insertor_from_def)
qed

lemma merge_all_drops_tombstone:
  assumes "sm_sorted es1" and "sm_sorted es2" and "\<forall>es \<in> set ess. sm_sorted es \<and> sm_get es k = None"
    and "sm_get es1 k = Some v" and "sv_is_tombstone v" and "sm_get es2 k = None"
  shows "\<exists>T' n' es. merge_all env cfg (es1 # es2 # ess) ((T, n), []) = ((T', n'), es) \<and> sm_get es k = None"
proof -
  have nil: "sm_sorted ([] :: entries)" by (simp add: sm_sorted_def)
  obtain T1 n1 acc1 where m: "merge_sstables env cfg [] es1 (T, n) = ((T1, n1), table_insertor_from acc1 bf_default)"
    "sm_sorted acc1" "map_of T1 k = check_tomb (map_of T k) v" "sm_get acc1 k = None \<or> sm_get acc1 k = Some v"
    using merge_sstables_eq [OF nil assms(1), of env cfg T n] assms(4) by (force split: option.splits if_splits)
  obtain T2 n2 acc2 where m2: "merge_sstables env cfg acc1 es2 (T1, n1) = ((T2, n2), table_insertor_from acc2 bf_default)"
    "sm_sorted acc2"
    "\<forall>k. case newer (sm_get acc1 k) (sm_get es2 k) of
         None \<Rightarrow> sm_get acc2 k = None \<and> map_of T2 k = map_of T1 k
       | Some v \<Rightarrow> map_of T2 k = check_tomb (map_of T1 k) v
           \<and> (\<exists>i \<ge> n1. sm_get acc2 k = (if check_keep cfg (clock env i) (map_of T1 k) v then Some v else None))"
    using merge_sstables_eq [OF m(2) assms(2), of env cfg T1 n1] by blast
  have "\<not> check_keep cfg now (map_of T1 k) v" for now
    using m(3) assms(5) by (auto simp: check_tomb_def check_keep_def split: option.splits if_splits)
  then have "sm_get acc2 k = None"
    using spec [OF m2(3), of k] m(4) assms(6) by auto
  from merge_all_absent [OF assms(3) m2(2) this, of env cfg T2 n2] show ?thesis
    by (simp add: merge_all_def m(1) m2(1) table_insertor_from_def)
qed

text \<open>C21. The first table of a bucket is never read during a compaction, although it is deleted afterwards: a
  key that only this table has is not in the merged table.\<close>

theorem bucket_merge_loses_first:
  assumes "rate_ok P (filter_false_positive cfg)"
    and "sstables b = first # tables" and "t_entries first = []"
    and "\<forall>t \<in> set tables. table_on_disk P fs t (C t) \<and> sm_get (C t) k = None"
  shows "\<exists>es ms'. sm_get es k = None
    \<and> (if es = [] then merge_bucket env P cfg fs b (ms, merged) = Panic
       else \<exists>m. merge_bucket env P cfg fs b (ms, merged) = Ok (ms', merged @ [m]) \<and> ms_sstable m = es)"
proof -
  let ?ess = "map (\<lambda>t. loaded (C t)) tables"
  have ess: "\<forall>es \<in> set ?ess. sm_sorted es \<and> sm_get es k = None"
    using assms(4) by (auto simp: loaded_sorted loaded_get table_on_disk_def)
  obtain T n where ms: "ms = (T, n)" by force
  obtain T' n' es where m: "merge_all env cfg ?ess ((T, n), []) = ((T', n'), es)" "sm_get es k = None"
    using merge_all_absent [OF ess, of "[]" env cfg T n] by (auto simp: sm_sorted_def)
  have disk: "\<forall>t \<in> set tables. table_on_disk P fs t (C t)" using assms(4) by blast
  show ?thesis
    using merge_bucket_eq [OF assms(1,2) disk, of env "(T, n)" "(T', n')" es merged, unfolded assms(3), OF m(1)] m(2)
    by (intro exI [of _ es] exI [of _ "(T', n')"]) (auto simp: ms split: if_splits)
qed

theorem bucket_merge_loses_first_witness:
  "sm_get (merge_contents (disk_table ''a'')) [7] \<noteq> None
   \<and> (\<exists>m ms'. merge_bucket merge_env merge_platform merge_config (disk_of merge_tables) merge_sample_bucket (([], 0), []) =
        Ok (ms', [m]) \<and> sm_get (ms_sstable m) [7] = None)"
proof -
  have "\<forall>t \<in> set [disk_table ''b'', disk_table ''c''].
      table_on_disk merge_platform (disk_of merge_tables) t (merge_contents t) \<and> sm_get (merge_contents t) [7] = None"
    using sample_merge_setup(4) by (simp add: disk_table_def merge_tables_def sm_get_Cons)
  from bucket_merge_loses_first [OF merge_rate_ok sample_merge_setup(2,3) this, of merge_env "([], 0)" "[]"] sample_merge_ok
  show ?thesis by (auto simp: disk_table_def merge_tables_def sm_get_Cons split: if_splits)
qed

text \<open>C22. A tombstone of the second table is dropped by the merge with the third even when it has not
  expired, so that an older value of the key in another bucket is visible again; the documentation of the
  compactor promises to keep it.\<close>

theorem bucket_merge_drops_tombstone:
  assumes "rate_ok P (filter_false_positive cfg)"
    and "sstables b = first # second # third # tables" and "t_entries first = []"
    and "\<forall>t \<in> set (second # third # tables). table_on_disk P fs t (C t)"
    and "sm_get (C second) k = Some v" and "sv_is_tombstone v"
    and "\<forall>t \<in> set (third # tables). sm_get (C t) k = None"
  shows "\<exists>es ms'. sm_get es k = None
    \<and> (if es = [] then merge_bucket env P cfg fs b (ms, merged) = Panic
       else \<exists>m. merge_bucket env P cfg fs b (ms, merged) = Ok (ms', merged @ [m]) \<and> ms_sstable m = es)"
proof -
  have ess: "sm_sorted (loaded (C second))" "sm_sorted (loaded (C third))"
    "\<forall>es \<in> set (map (\<lambda>t. loaded (C t)) tables). sm_sorted es \<and> sm_get es k = None"
    "sm_get (loaded (C second)) k = Some (stored_value v)" "sv_is_tombstone (stored_value v)"
    "sm_get (loaded (C third)) k = None"
    using assms(4-7) by (auto simp: loaded_sorted loaded_get table_on_disk_def stored_value_def)
  obtain T n where ms: "ms = (T, n)" by force
  obtain T' n' es where m: "merge_all env cfg (map (\<lambda>t. loaded (C t)) (second # third # tables)) ((T, n), []) = ((T', n'), es)"
    "sm_get es k = None"
    using merge_all_drops_tombstone [OF ess, of env cfg T n] by auto
  show ?thesis
    using merge_bucket_eq [OF assms(1,2,4), of env "(T, n)" "(T', n')" es merged, unfolded assms(3), OF m(1)] m(2)
    by (intro exI [of _ es] exI [of _ "(T', n')"]) (auto simp: ms split: if_splits)
qed


theorem bucket_merge_drops_tombstone_witness:
  "sm_get (merge_contents (disk_table ''b'')) [2] = Some (sample_tomb 4)
   \<and> (\<exists>m ms'. merge_bucket merge_env merge_platform merge_config (disk_of merge_tables) merge_sample_bucket (([], 0), []) =
        Ok (ms', [m]) \<and> sm_get (ms_sstable m) [2] = None)"
proof -
  have c: "sm_get (merge_contents (disk_table ''b'')) [2] = Some (sample_tomb 4)" "sv_is_tombstone (sample_tomb 4)"
    "\<forall>t \<in> set [disk_table ''c'']. sm_get (merge_contents t) [2] = None"
    by (simp_all add: disk_table_def merge_tables_def sm_get_Cons sample_tomb_def)
  from bucket_merge_drops_tombstone [OF merge_rate_ok sample_merge_setup(2-4) c, of merge_env "([], 0)" "[]"] sample_merge_ok c(1)
  show ?thesis by (auto split: if_splits)
qed

end
