(* ===== verification/Compaction.thy ===== *)
theory Compaction
  imports Table_Merge
begin

text \<open>
  The compaction loop (\<^verbatim>\<open>run_compaction\<close> of \<^verbatim>\<open>src/compactors/sized.rs\<close>) and the two background tasks that
  trigger it (\<^verbatim>\<open>src/compactors/compact.rs\<close>). The loop has no bound in the code; it is a partial function
  whose value is \<open>None\<close> if it runs forever, and is proved to return because every round leaves fewer
  tables. The background tasks are a step relation over the shared state \<^verbatim>\<open>is_active\<close>.
\<close>

section \<open>The runner\<close>

text \<open>The handles of the runner, the file system, and the number of readings of the environment.\<close>

record SizedTierRunner =
  sr_fs :: filesys
  sr_bucket_map :: BucketMap
  sr_key_range :: KeyRange
  sr_config :: CompConfig
  sr_tombstones :: "(Key, datetime) hashmap"
  sr_reads :: nat

definition sized_tier_runner_new :: "filesys \<Rightarrow> nat \<Rightarrow> BucketMap \<Rightarrow> KeyRange \<Rightarrow> CompConfig \<Rightarrow> SizedTierRunner" where
  "sized_tier_runner_new fs n bm kr cfg =
     \<lparr>sr_fs = fs, sr_bucket_map = bm, sr_key_range = kr, sr_config = cfg, sr_tombstones = [], sr_reads = n\<rparr>"

definition fetch_imbalanced_buckets :: "SizedTierRunner \<Rightarrow> (Bucket list \<times> SSTablesToRemove) res" where
  "fetch_imbalanced_buckets r = extract_imbalanced_buckets (sr_fs r) (sr_bucket_map r)"

text \<open>
  \<^verbatim>\<open>sst.entries.clear()\<close> empties the skip map that the table shares with its copy in the bucket, which is
  the one with the same directory.
\<close>

definition clear_shared_entries :: "path \<Rightarrow> BucketMap \<Rightarrow> BucketMap" where
  "clear_shared_entries dir bm = bm\<lparr>buckets := map (\<lambda>(i, b). (i, b\<lparr>sstables :=
     map (\<lambda>t. if t_dir t = dir then t\<lparr>t_entries := []\<rparr> else t) (sstables b)\<rparr>)) (buckets bm)\<rparr>"

record WriteTracker =
  wt_actual :: nat
  wt_expected :: nat

definition write_tracker_new :: "nat \<Rightarrow> WriteTracker" where
  "write_tracker_new expected = \<lparr>wt_actual = 0, wt_expected = expected\<rparr>"

text \<open>Steps 3 to 5 for one merged table; the new table takes two readings of the clock.\<close>

definition insert_merged ::
  "environment \<Rightarrow> MergedSSTable \<Rightarrow> SizedTierRunner \<times> WriteTracker \<Rightarrow> (SizedTierRunner \<times> WriteTracker) res" where
  "insert_merged env merged_sst = (\<lambda>(r, tracker).
     let table = insertable_insertor (merged_clone merged_sst); n = sr_reads r
     in and_then (map_err CompactionFailed (insert_to_appropriate_bucket (sr_fs r) (sr_bucket_map r) table
            (uuid env n) (clock env n) (clock env (n + 1)))) (\<lambda>(fs', bm', sst).
        case t_summary sst of
          None \<Rightarrow> Err TableSummaryIsNone
        | Some summary \<Rightarrow>
            if t_filter sst = None then Err FilterNotProvidedForFlush
            else Ok (r\<lparr>sr_fs := fs', sr_bucket_map := clear_shared_entries (t_dir sst) bm',
                       sr_key_range := fst (key_range_set (sr_key_range r) (t_dir sst) (smallest_key summary)
                         (biggest_key summary) (sst\<lparr>t_entries := []\<rparr>)), sr_reads := n + 2\<rparr>,
                     tracker\<lparr>wt_actual := wt_actual tracker + 1\<rparr>)))"

definition clean_up_after_compaction :: "SizedTierRunner \<Rightarrow> SSTablesToRemove \<Rightarrow> SizedTierRunner option res" where
  "clean_up_after_compaction r ssts_to_delete =
     and_then (delete_ssts (sr_fs r) (sr_bucket_map r) ssts_to_delete) (\<lambda>(fs', bm', all_deleted).
       if all_deleted
       then Ok (Some (r\<lparr>sr_fs := fs', sr_bucket_map := bm',
              sr_key_range := fold (\<lambda>(_, ssts) kr. fold (\<lambda>s kr'. fst (key_range_remove kr' (t_dir s))) ssts kr)
                ssts_to_delete (sr_key_range r)\<rparr>))
       else Ok None)"

definition compaction_round ::
  "environment \<Rightarrow> platform \<Rightarrow> SizedTierRunner \<Rightarrow> (SizedTierRunner, SizedTierRunner) flow res" where
  "compaction_round env P r =
     and_then (fetch_imbalanced_buckets r) (\<lambda>(imbalanced_buckets, ssts_to_remove).
       if imbalanced_buckets = [] then Ok (Return (r\<lparr>sr_tombstones := []\<rparr>))
       else and_then (map_err CompactionFailed (merge_ssts_in_buckets env P (sr_config r) (sr_fs r)
               (sr_tombstones r, sr_reads r) imbalanced_buckets)) (\<lambda>((tombs, n), merged_sstables).
            and_then (fold_res (insert_merged env) merged_sstables
               (r\<lparr>sr_tombstones := tombs, sr_reads := n\<rparr>, write_tracker_new (length merged_sstables)))
              (\<lambda>(r', tracker).
                if wt_expected tracker = wt_actual tracker
                then case clean_up_after_compaction r' ssts_to_remove of
                       Ok None \<Rightarrow> Err (CompactionPartiallyFailed CompactionCleanupPartial)
                     | Err e \<Rightarrow> Err (CompactionCleanup e)
                     | Ok (Some r'') \<Rightarrow> Ok (Continue r'')
                     | Panic \<Rightarrow> Panic
                else Ok (Continue r'))))"

partial_function (option) compaction_loop ::
  "environment \<Rightarrow> platform \<Rightarrow> SizedTierRunner \<Rightarrow> SizedTierRunner res option" where
  "compaction_loop env P r =
     (case compaction_round env P r of
        Ok (Return r') \<Rightarrow> Some (Ok r')
      | Ok (Continue r') \<Rightarrow> compaction_loop env P r'
      | Err e \<Rightarrow> Some (Err e)
      | Panic \<Rightarrow> Some Panic)"

definition run_compaction :: "environment \<Rightarrow> platform \<Rightarrow> SizedTierRunner \<Rightarrow> SizedTierRunner res option" where
  "run_compaction env P r = (if is_balanced (sr_bucket_map r) then Some (Ok r) else compaction_loop env P r)"

text \<open>The part of the store a compaction works on.\<close>

record tables_state =
  ts_fs :: filesys
  ts_reads :: nat
  ts_buckets :: BucketMap
  ts_key_range :: KeyRange

definition handle_compaction ::
  "environment \<Rightarrow> platform \<Rightarrow> CompConfig \<Rightarrow> tables_state \<Rightarrow> tables_state res option" where
  "handle_compaction env P cfg s =
     (case strategy cfg of STCS \<Rightarrow>
        map_option (\<lambda>res. and_then res (\<lambda>r. Ok \<lparr>ts_fs = sr_fs r, ts_reads = sr_reads r,
            ts_buckets = sr_bucket_map r, ts_key_range = sr_key_range r\<rparr>))
          (run_compaction env P
            (sized_tier_runner_new (ts_fs s) (ts_reads s) (ts_buckets s) (ts_key_range s) cfg)))"

section \<open>Every round leaves fewer tables\<close>

text \<open>Each bucket is stored once, under its own id, and the ids still to come are new.\<close>

definition ids_ok :: "(BucketID, Bucket) indexmap \<Rightarrow> bool" where
  "ids_ok bs \<longleftrightarrow> distinct (map fst bs) \<and> (\<forall>(i, b) \<in> set bs. b_id b = i)"

definition uuids_fresh :: "environment \<Rightarrow> nat \<Rightarrow> (BucketID, Bucket) indexmap \<Rightarrow> bool" where
  "uuids_fresh env n bs \<longleftrightarrow> inj (uuid env) \<and> (\<forall>m \<ge> n. uuid env m \<notin> fst ` set bs)"

lemma ids_ok_insert: "ids_ok bs \<Longrightarrow> b_id b = i \<Longrightarrow> ids_ok (im_insert i b bs)"
  using im_insert_set [of i b bs] by (fastforce simp: ids_ok_def im_insert_distinct)

lemma insert_to_bucket_shape:
  assumes "insert_to_bucket fs bm b table ty now now' = Ok (fs', bm', sst)"
  shows "\<exists>b'. bm' = bm\<lparr>buckets := im_insert (b_id b) b' (buckets bm)\<rparr> \<and> b_id b' = b_id b
    \<and> length (sstables b') = Suc (length (sstables b))"
  using assms unfolding insert_to_bucket_eq by (cases ty) auto

lemma insert_appropriate_shape:
  assumes "insert_to_appropriate_bucket fs bm table new_id now now' = Ok (fs', bm', sst)"
    and "ids_ok (buckets bm)" and "new_id \<notin> fst ` set (buckets bm)"
  shows "\<exists>i b'. bm' = bm\<lparr>buckets := im_insert i b' (buckets bm)\<rparr> \<and> b_id b' = i
    \<and> length (sstables b') = Suc (bucket_count (buckets bm) i) \<and> (i = new_id \<or> i \<in> fst ` set (buckets bm))"
proof (cases "find (\<lambda>(_, b). fits_into_bucket b table) (buckets bm)")
  case None
  have "bucket_count (buckets bm) new_id = 0"
    using assms(3) by (simp add: bucket_count_def map_of_eq_None_iff [THEN iffD2])
  with None show ?thesis
    using assms(1) insert_to_bucket_shape
    by (fastforce simp: insert_to_appropriate_bucket_def bucket_new_def Let_def)
next
  case (Some e)
  obtain i b where e: "e = (i, b)" by force
  have mem: "(i, b) \<in> set (buckets bm)" using find_bucket [of table "buckets bm" i b] Some e by simp
  then have b: "b_id b = i" "bucket_count (buckets bm) i = length (sstables b)"
    using assms(2) by (auto simp: ids_ok_def bucket_count_def)
  have "insert_to_bucket fs bm b table Exisiting now now' = Ok (fs', bm', sst)"
    using assms(1) Some by (simp add: insert_to_appropriate_bucket_def e)
  from insert_to_bucket_shape [OF this] obtain b' where
    "bm' = bm\<lparr>buckets := im_insert i b' (buckets bm)\<rparr>" "b_id b' = i" "length (sstables b') = Suc (bucket_count (buckets bm) i)"
    using b by auto
  then show ?thesis using mem by (intro exI [of _ i] exI [of _ b']) force
qed

lemma clear_shared_facts:
  "table_count (buckets (clear_shared_entries d bm)) = table_count (buckets bm)"
  "map fst (buckets (clear_shared_entries d bm)) = map fst (buckets bm)"
  "ids_ok (buckets (clear_shared_entries d bm)) = ids_ok (buckets bm)"
  "bucket_count (buckets (clear_shared_entries d bm)) = bucket_count (buckets bm)"
proof -
  show k: "map fst (buckets (clear_shared_entries d bm)) = map fst (buckets bm)"
    by (simp add: clear_shared_entries_def comp_def case_prod_beta)
  show "table_count (buckets (clear_shared_entries d bm)) = table_count (buckets bm)"
    by (simp add: clear_shared_entries_def table_count_def comp_def case_prod_beta')
  show "ids_ok (buckets (clear_shared_entries d bm)) = ids_ok (buckets bm)"
    unfolding ids_ok_def k by (auto simp: clear_shared_entries_def)
  show "bucket_count (buckets (clear_shared_entries d bm)) = bucket_count (buckets bm)"
    by (rule ext) (simp add: clear_shared_entries_def bucket_count_def map_of_map option.case_eq_if option.map_sel)
qed

lemma insert_merged_count:
  assumes "insert_merged env m (r, tracker) = Ok (r', tracker')"
    and "ids_ok (buckets (sr_bucket_map r))" and "uuids_fresh env (sr_reads r) (buckets (sr_bucket_map r))"
  shows "ids_ok (buckets (sr_bucket_map r'))" "uuids_fresh env (sr_reads r') (buckets (sr_bucket_map r'))"
    "table_count (buckets (sr_bucket_map r')) = Suc (table_count (buckets (sr_bucket_map r)))"
    "bucket_count (buckets (sr_bucket_map r)) i \<le> bucket_count (buckets (sr_bucket_map r')) i"
    "tracker' = tracker\<lparr>wt_actual := wt_actual tracker + 1\<rparr>" "sr_config r' = sr_config r"
proof -
  let ?n = "sr_reads r" and ?bm = "sr_bucket_map r"
  obtain fs' bm' sst where w: "insert_to_appropriate_bucket (sr_fs r) ?bm (insertable_insertor (merged_clone m))
      (uuid env ?n) (clock env ?n) (clock env (?n + 1)) = Ok (fs', bm', sst)"
    and r': "sr_bucket_map r' = clear_shared_entries (t_dir sst) bm'" "sr_reads r' = ?n + 2"
      "tracker' = tracker\<lparr>wt_actual := wt_actual tracker + 1\<rparr>" "sr_config r' = sr_config r"
    using assms(1) by (auto simp: insert_merged_def Let_def split: option.splits if_splits)
  have new: "uuid env ?n \<notin> fst ` set (buckets ?bm)" using assms(3) by (simp add: uuids_fresh_def)
  obtain j b' where b': "bm' = ?bm\<lparr>buckets := im_insert j b' (buckets ?bm)\<rparr>" "b_id b' = j"
    "length (sstables b') = Suc (bucket_count (buckets ?bm) j)" "j = uuid env ?n \<or> j \<in> fst ` set (buckets ?bm)"
    using insert_appropriate_shape [OF w assms(2) new] by blast
  have keys: "fst ` set (buckets (sr_bucket_map r')) = insert j (fst ` set (buckets ?bm))"
    using arg_cong [OF clear_shared_facts(2) [of "t_dir sst" bm'], of set] by (simp add: r'(1) b'(1) im_insert_keys)
  show "ids_ok (buckets (sr_bucket_map r'))"
    using ids_ok_insert [OF assms(2) b'(2)] by (simp add: r'(1) clear_shared_facts b'(1))
  show "uuids_fresh env (sr_reads r') (buckets (sr_bucket_map r'))"
    unfolding uuids_fresh_def keys r'(2)
  proof (intro conjI allI impI)
    show inj: "inj (uuid env)" using assms(3) by (simp add: uuids_fresh_def)
    fix k assume k: "?n + 2 \<le> k"
    then have "uuid env k \<noteq> uuid env ?n" using injD [OF inj, of k ?n] by auto
    moreover have "uuid env k \<notin> fst ` set (buckets ?bm)" using assms(3) k by (simp add: uuids_fresh_def)
    ultimately show "uuid env k \<notin> insert j (fst ` set (buckets ?bm))" using b'(4) by auto
  qed
  show "table_count (buckets (sr_bucket_map r')) = Suc (table_count (buckets ?bm))"
    using im_insert_count [of "buckets ?bm" j b'] assms(2) b'(3)
    by (simp add: r'(1) clear_shared_facts b'(1) ids_ok_def bucket_count_def)
  show "bucket_count (buckets ?bm) i \<le> bucket_count (buckets (sr_bucket_map r')) i"
    using b'(3) by (auto simp: r'(1) clear_shared_facts b'(1) bucket_count_def im_insert_lookup)
  show "tracker' = tracker\<lparr>wt_actual := wt_actual tracker + 1\<rparr>" "sr_config r' = sr_config r" by (rule r')+
qed

lemma inserts_count:
  assumes "fold_res (insert_merged env) ms (r, tracker) = Ok (r', tracker')"
    and "ids_ok (buckets (sr_bucket_map r))" and "uuids_fresh env (sr_reads r) (buckets (sr_bucket_map r))"
  shows "ids_ok (buckets (sr_bucket_map r')) \<and> uuids_fresh env (sr_reads r') (buckets (sr_bucket_map r'))
    \<and> table_count (buckets (sr_bucket_map r')) = table_count (buckets (sr_bucket_map r)) + length ms
    \<and> (\<forall>i. bucket_count (buckets (sr_bucket_map r)) i \<le> bucket_count (buckets (sr_bucket_map r')) i)
    \<and> tracker' = tracker\<lparr>wt_actual := wt_actual tracker + length ms\<rparr>"
  using assms
proof (induction ms arbitrary: r tracker)
  case (Cons m ms)
  obtain r1 tracker1 where s: "insert_merged env m (r, tracker) = Ok (r1, tracker1)"
    "fold_res (insert_merged env) ms (r1, tracker1) = Ok (r', tracker')"
    using Cons.prems(1) by auto
  note one = insert_merged_count [OF s(1) Cons.prems(2,3)]
  from Cons.IH [OF s(2) one(1,2)] one(3,4,5) show ?case
    by (auto intro: le_trans)
qed simp


lemma extract_sstables_Ok:
  "extract_sstables fs b = Ok (ssts, avg) \<Longrightarrow> ssts = (if length (sstables b) < 4 then [] else take 32 (sstables b))"
  by (auto simp: extract_sstables_def Let_def constants split: if_splits)

lemma extract_imbalanced_Ok:
  assumes "extract_imbalanced_buckets fs bm = Ok (imb, del)"
  shows "del = map (\<lambda>(i, b). (i, take 32 (sstables b))) (filter (\<lambda>(i, b). 4 \<le> length (sstables b)) (buckets bm))
    \<and> length imb = length del"
proof -
  let ?big = "filter (\<lambda>(i, b). 4 \<le> length (sstables b))"
  let ?f = "\<lambda>(bucket_id, b) (imbalanced_buckets, ssts_to_delete).
         and_then (extract_sstables fs b) (\<lambda>(ssts, avg).
           Ok (if ssts \<noteq> []
               then (imbalanced_buckets @ [\<lparr>b_id = bucket_id, b_dir = b_dir b, b_size = avg * length ssts,
                       avarage_size = avg, sstables = ssts\<rparr>],
                     ssts_to_delete @ [(bucket_id, ssts)])
               else (imbalanced_buckets, ssts_to_delete)))"
  have "del = del0 @ map (\<lambda>(i, b). (i, take 32 (sstables b))) (?big bs) \<and> length imb + length del0 = length imb0 + length del"
    if "fold_res ?f bs (imb0, del0) = Ok (imb, del)" for bs :: "(BucketID, Bucket) indexmap" and imb0 del0
    using that
  proof (induction bs arbitrary: imb0 del0)
    case (Cons e bs)
    obtain i b where e: "e = (i, b)" by force
    obtain ssts avg where ex: "extract_sstables fs b = Ok (ssts, avg)"
      using Cons.prems by (auto simp: e)
    have ssts: "ssts = (if length (sstables b) < 4 then [] else take 32 (sstables b))"
      by (rule extract_sstables_Ok [OF ex])
    show ?case
    proof (cases "length (sstables b) < 4")
      case True
      with Cons.IH [of imb0 del0] Cons.prems ssts ex show ?thesis by (simp add: e)
    next
      case False
      then have "take 32 (sstables b) \<noteq> []" by auto
      with False Cons.prems ssts ex show ?thesis by (auto simp: e dest!: Cons.IH)
    qed
  qed simp
  from this [of "buckets bm" "[]" "[]"] assms show ?thesis
    unfolding extract_imbalanced_buckets_def by simp
qed

lemma merge_buckets_length:
  "fold_res (merge_bucket env P cfg fs) bs (ms, merged) = Ok (ms', merged') \<Longrightarrow> length merged' = length merged + length bs"
proof (induction bs arbitrary: ms merged)
  case (Cons b bs)
  obtain ms1 merged1 where s: "merge_bucket env P cfg fs b (ms, merged) = Ok (ms1, merged1)"
    "fold_res (merge_bucket env P cfg fs) bs (ms1, merged1) = Ok (ms', merged')"
    using Cons.prems by auto
  have "length merged1 = Suc (length merged)"
    using s(1) by (auto simp: merge_bucket_def split: list.splits)
  with Cons.IH [OF s(2)] show ?case by simp
qed simp

text \<open>The number of readings never decreases.\<close>

lemma check_reads: "snd (fst (tombstone_check env cfg e s)) = Suc (snd (fst s))"
  by (cases s; cases "fst s") (auto simp: tombstone_check_def Let_def split: prod.splits)

lemma checks_reads: "snd (fst s) \<le> snd (fst (fold (tombstone_check env cfg) es s))"
proof (induction es arbitrary: s)
  case (Cons e es)
  from Cons [of "tombstone_check env cfg e s"] show ?case by (simp add: check_reads)
qed simp

lemma merge_loop_reads: "snd (fst s) \<le> snd (fst (snd (merge_loop env cfg es1 es2 p s)))"
proof (induction env cfg es1 es2 p s rule: merge_loop.induct)
  case (1 env cfg es1 es2 p s)
  let ?a = "es1 ! ptr1 p" and ?b = "es2 ! ptr2 p"
  show ?case
  proof (cases "ptr1 p < length es1 \<and> ptr2 p < length es2")
    case True
    note IH = 1 [OF True refl refl]
    consider "e_key ?a < e_key ?b" | "\<not> e_key ?a < e_key ?b" "e_key ?a = e_key ?b" | "\<not> e_key ?a < e_key ?b" "e_key ?a \<noteq> e_key ?b"
      by blast
    then show ?thesis
    proof cases
      case 1
      from IH(1) [OF this] True 1 show ?thesis by (subst merge_loop.simps) (simp add: Let_def check_reads)
    next
      case 2
      from IH(2) [OF this] True 2 show ?thesis
        by (subst merge_loop.simps) (simp add: Let_def check_reads split: if_splits)
    next
      case 3
      from IH(3) [OF this] True 3 show ?thesis by (subst merge_loop.simps) (simp add: Let_def check_reads)
    qed
  next
    case False
    then show ?thesis by (subst merge_loop.simps) (simp only: if_False fst_conv snd_conv order_refl)
  qed
qed

lemma merge_sstables_reads: "snd ms \<le> snd (fst (merge_sstables env cfg as bs ms))"
proof -
  let ?e1 = "map entry_of as" and ?e2 = "map entry_of bs"
  obtain p s where m: "merge_loop env cfg ?e1 ?e2 merge_pointer_new (ms, []) = (p, s)" by (metis surj_pair)
  obtain p2 s2 where d1: "drain_loop1 env cfg ?e1 p s = (p2, s2)" by (metis surj_pair)
  obtain p3 ms3 m3 where d2: "drain_loop2 env cfg ?e2 p2 s2 = (p3, ms3, m3)" by (metis surj_pair)
  have "snd ms \<le> snd (fst s)"
    using merge_loop_reads [of "(ms, [])" env cfg ?e1 ?e2 merge_pointer_new] m by simp
  also have "\<dots> \<le> snd (fst s2)"
    using drain_loop1_eq(1) [of env cfg ?e1 p s] checks_reads [of s env cfg "drop (ptr1 p) ?e1"] d1 by simp
  also have "\<dots> \<le> snd ms3"
    using drain_loop2_eq [of env cfg ?e2 p2 s2] checks_reads [of s2 env cfg "drop (ptr2 p2) ?e2"] d2
    by (metis fst_conv snd_conv)
  finally show ?thesis by (simp add: merge_sstables_def m d1 d2)
qed

lemma merge_next_reads:
  assumes "merge_next env P cfg fs t s = Ok s'"
  shows "snd (fst s) \<le> snd (fst s')"
proof -
  obtain ms h acc where s: "s = (ms, h, acc)" by (metis surj_pair)
  obtain t' :: Table where "s' = (fst (merge_sstables env cfg acc (t_entries t') ms), h + hotness t,
      ti_entries (snd (merge_sstables env cfg acc (t_entries t') ms)))"
    using assms by (simp add: s merge_next_def Let_def case_prod_beta) blast
  then show ?thesis
    using merge_sstables_reads [of ms env cfg acc "t_entries t'"] by (simp add: s)
qed

lemma merge_bucket_reads:
  assumes "merge_bucket env P cfg fs b s = Ok s'"
  shows "snd (fst s) \<le> snd (fst s')"
proof -
  obtain ms l where s: "s = (ms, l)" by (metis surj_pair)
  obtain first tables where "sstables b = first # tables"
    using assms by (auto simp: s merge_bucket_def split: list.splits)
  then obtain x where x: "fold_res (merge_next env P cfg fs) tables (ms, 0, t_entries first) = Ok x" "fst s' = fst x"
    using assms by (auto simp: s merge_bucket_def)
  show ?thesis
    using fold_res_mono [where size = "\<lambda>s. snd (fst s)", OF merge_next_reads x(1)] x(2) by (simp add: s)
qed

lemma merge_ssts_in_buckets_facts:
  assumes "merge_ssts_in_buckets env P cfg fs ms bs = Ok (ms', merged)"
  shows "snd ms \<le> snd ms'" "length merged = length bs"
proof -
  have f: "fold_res (merge_bucket env P cfg fs) bs (ms, []) = Ok (ms', merged)"
    using assms by (auto simp: merge_ssts_in_buckets_def split: if_splits)
  show "snd ms \<le> snd ms'"
    using fold_res_mono [where size = "\<lambda>s. snd (fst s)", OF merge_bucket_reads f] by simp
  show "length merged = length bs"
    using merge_buckets_length [OF f] by simp
qed

lemma delete_step_ids:
  assumes "delete_step (i, ss) (fs, bs, a, td) = Ok (fs', bs', a', td')" and "ids_ok bs"
  shows "ids_ok bs' \<and> fst ` set bs' \<subseteq> fst ` set bs"
proof -
  have id: "b_id b = i" if "map_of bs i = Some b" for b
    using assms(2) that by (auto simp: ids_ok_def)
  consider "bs' = bs" | b b' where "map_of bs i = Some b" "bs' = im_insert i b' bs" "b_id b' = b_id b"
    using assms(1) by (auto simp: delete_step_def Let_def case_prod_beta split: option.splits if_splits)
  then show ?thesis
  proof cases
    case 1
    with assms(2) show ?thesis by simp
  next
    case 2
    then have "i \<in> fst ` set bs" by (force dest: map_of_SomeD)
    with 2 id ids_ok_insert [OF assms(2), of b' i] show ?thesis by (auto simp: im_insert_keys)
  qed
qed

lemma delete_ssts_ids:
  assumes "delete_ssts fs bm del = Ok (fs', bm', a)" and "ids_ok (buckets bm)"
  shows "ids_ok (buckets bm') \<and> fst ` set (buckets bm') \<subseteq> fst ` set (buckets bm)"
proof -
  have fold: "ids_ok bs' \<and> fst ` set bs' \<subseteq> fst ` set bs"
    if "fold_res delete_step del (fs, bs, a, td) = Ok (fs', bs', a', td')" "ids_ok bs" for fs bs a td fs' bs' a' td'
    using that
  proof (induction del arbitrary: fs bs a td)
    case (Cons e del)
    obtain i ss where e: "e = (i, ss)" by (metis surj_pair)
    obtain fs1 bs1 a1 td1 where st: "delete_step (i, ss) (fs, bs, a, td) = Ok (fs1, bs1, a1, td1)"
      "fold_res delete_step del (fs1, bs1, a1, td1) = Ok (fs', bs', a', td')"
      using Cons.prems(1) by (auto simp: e)
    from delete_step_ids [OF st(1) Cons.prems(2)] Cons.IH [OF st(2)] show ?case by blast
  qed simp
  have rm: "ids_ok (fold im_shift_remove td bs) \<and> fst ` set (fold im_shift_remove td bs) \<subseteq> fst ` set bs"
    if "ids_ok bs" for td bs
    using that
  proof (induction td arbitrary: bs)
    case (Cons i td)
    have "ids_ok (im_shift_remove i bs)" "fst ` set (im_shift_remove i bs) \<subseteq> fst ` set bs"
      using Cons.prems im_shift_remove_distinct [of bs i] by (auto simp: ids_ok_def im_shift_remove_def)
    with Cons.IH [of "im_shift_remove i bs"] show ?case by (simp only: fold_Cons o_apply) blast
  qed simp
  obtain fs1 bs1 a1 td1 where s: "fold_res delete_step del (fs, buckets bm, True, []) = Ok (fs1, bs1, a1, td1)"
    "bm' = bm\<lparr>buckets := fold im_shift_remove td1 bs1\<rparr>"
    using assms(1) by (auto simp: delete_ssts_def)
  have "fst ` set (fold im_shift_remove td1 bs1) \<subseteq> fst ` set (buckets bm)" "ids_ok (fold im_shift_remove td1 bs1)"
    using fold [OF s(1) assms(2)] rm [of bs1 td1] by blast+
  then show ?thesis by (simp add: s(2))
qed


lemma big_buckets_sum:
  "4 * length (filter (\<lambda>(i, b). 4 \<le> length (sstables b)) bs) \<le>
   sum_list (map (\<lambda>(i, ss). length ss) (map (\<lambda>(i, b). (i, take 32 (sstables b))) (filter (\<lambda>(i, b). 4 \<le> length (sstables b)) bs)))"
  by (induction bs) auto

text \<open>What a round that continues has done: the invariant holds again and there are fewer tables.\<close>

lemma compaction_round_decreases:
  assumes "compaction_round env P r = Ok (Continue r')"
    and "ids_ok (buckets (sr_bucket_map r))" and "uuids_fresh env (sr_reads r) (buckets (sr_bucket_map r))"
  shows "ids_ok (buckets (sr_bucket_map r')) \<and> uuids_fresh env (sr_reads r') (buckets (sr_bucket_map r'))
    \<and> table_count (buckets (sr_bucket_map r')) < table_count (buckets (sr_bucket_map r))"
proof -
  let ?bs = "buckets (sr_bucket_map r)"
  obtain imb del where ex: "extract_imbalanced_buckets (sr_fs r) (sr_bucket_map r) = Ok (imb, del)" "imb \<noteq> []"
    using assms(1) by (auto simp: compaction_round_def fetch_imbalanced_buckets_def split: if_splits)
  note run1 = assms(1) [unfolded compaction_round_def fetch_imbalanced_buckets_def ex(1) and_then.simps prod.case if_not_P [OF ex(2)]]
  obtain tombs n merged where
    me: "merge_ssts_in_buckets env P (sr_config r) (sr_fs r) (sr_tombstones r, sr_reads r) imb = Ok ((tombs, n), merged)"
    using run1 by (auto simp del: if_split)
  note run2 = run1 [unfolded me map_err.simps and_then.simps prod.case]
  obtain r1 tracker where ins: "fold_res (insert_merged env) merged (r\<lparr>sr_tombstones := tombs, sr_reads := n\<rparr>,
      write_tracker_new (length merged)) = Ok (r1, tracker)"
    using run2 by (auto simp del: if_split)
  note run3 = run2 [unfolded ins and_then.simps prod.case]
  have last: "clean_up_after_compaction r1 del = Ok (Some r')" if "wt_expected tracker = wt_actual tracker"
    using run3 that by (simp split: result.splits option.splits)
  note E = extract_imbalanced_Ok [OF ex(1)]
  note M = merge_ssts_in_buckets_facts [OF me]
  have "uuids_fresh env (sr_reads (r\<lparr>sr_tombstones := tombs, sr_reads := n\<rparr>)) (buckets (sr_bucket_map (r\<lparr>sr_tombstones := tombs, sr_reads := n\<rparr>)))"
    using assms(3) M(1) by (auto simp: uuids_fresh_def)
  from inserts_count [OF ins _ this] assms(2)
  have I: "ids_ok (buckets (sr_bucket_map r1))" "uuids_fresh env (sr_reads r1) (buckets (sr_bucket_map r1))"
    "table_count (buckets (sr_bucket_map r1)) = table_count ?bs + length del"
    "bucket_count ?bs i \<le> bucket_count (buckets (sr_bucket_map r1)) i"
    "wt_expected tracker = wt_actual tracker" for i
    using E M(2) by (auto simp: write_tracker_new_def)
  from last [OF I(5)] obtain fs2 bm2 where d: "delete_ssts (sr_fs r1) (sr_bucket_map r1) del = Ok (fs2, bm2, True)"
    "sr_bucket_map r' = bm2" "sr_reads r' = sr_reads r1"
    by (auto simp: clean_up_after_compaction_def split: if_splits)
  have dist: "distinct (map fst del)"
    using E assms(2) by (simp add: ids_ok_def comp_def case_prod_beta distinct_map_filter)
  have len: "\<forall>(i, ss) \<in> set del. length ss \<le> bucket_count (buckets (sr_bucket_map r1)) i"
  proof clarify
    fix i ss assume "(i, ss) \<in> set del"
    then obtain b where "(i, b) \<in> set ?bs" "ss = take 32 (sstables b)" using E by auto
    moreover from this have "bucket_count ?bs i = length (sstables b)" using assms(2) by (simp add: ids_ok_def bucket_count_def)
    ultimately show "length ss \<le> bucket_count (buckets (sr_bucket_map r1)) i" using I(4) [of i] by simp
  qed
  have "0 < length del" using E ex(2) by auto
  moreover have "4 * length del \<le> sum_list (map (\<lambda>(i, ss). length ss) del)"
    using big_buckets_sum [of ?bs] E by simp
  moreover have "table_count (buckets bm2) + sum_list (map (\<lambda>(i, ss). length ss) del) = table_count (buckets (sr_bucket_map r1))"
    using delete_ssts_count [OF d(1) _ dist len] I(1) by (simp add: ids_ok_def)
  ultimately have less: "table_count (buckets bm2) < table_count ?bs"
    using I(3) by linarith
  have ids: "ids_ok (buckets bm2) \<and> fst ` set (buckets bm2) \<subseteq> fst ` set (buckets (sr_bucket_map r1))"
    by (rule delete_ssts_ids [OF d(1) I(1)])
  then have "uuids_fresh env (sr_reads r1) (buckets bm2)"
    using I(2) unfolding uuids_fresh_def by blast
  with ids less show ?thesis by (simp add: d(2,3))
qed


lemma compaction_round_return:
  assumes "compaction_round env P r = Ok (Return r')"
  shows "r' = r\<lparr>sr_tombstones := []\<rparr>" and "is_balanced (sr_bucket_map r)"
proof -
  obtain imb del where ex: "extract_imbalanced_buckets (sr_fs r) (sr_bucket_map r) = Ok (imb, del)"
    using assms by (auto simp: compaction_round_def fetch_imbalanced_buckets_def)
  have imb: "imb = []"
  proof (rule ccontr)
    assume "imb \<noteq> []"
    from assms [unfolded compaction_round_def fetch_imbalanced_buckets_def ex and_then.simps prod.case if_not_P [OF this]]
    show False by (auto split: if_splits result.splits option.splits)
  qed
  then show "r' = r\<lparr>sr_tombstones := []\<rparr>"
    using assms by (simp add: compaction_round_def fetch_imbalanced_buckets_def ex)
  show "is_balanced (sr_bucket_map r)"
    using extract_imbalanced_Ok [OF ex] imb
    by (auto simp: is_balanced_def sstable_count_exceeds_threshhold_def filter_empty_conv constants)
qed

lemma compaction_loop_returns:
  assumes "ids_ok (buckets (sr_bucket_map r))" and "uuids_fresh env (sr_reads r) (buckets (sr_bucket_map r))"
  shows "\<exists>res. compaction_loop env P r = Some res \<and>
    (\<forall>r'. res = Ok r' \<longrightarrow> is_balanced (sr_bucket_map r') \<and> sr_tombstones r' = []
       \<and> table_count (buckets (sr_bucket_map r')) \<le> table_count (buckets (sr_bucket_map r)))"
  using assms
proof (induction "table_count (buckets (sr_bucket_map r))" arbitrary: r rule: less_induct)
  case less
  show ?case
  proof (cases "compaction_round env P r")
    case (Ok fl)
    show ?thesis
    proof (cases fl)
      case (Continue r1)
      note d = compaction_round_decreases [OF Ok [unfolded Continue] less.prems]
      with less.hyps [of r1] obtain res where "compaction_loop env P r1 = Some res"
        "\<forall>r'. res = Ok r' \<longrightarrow> is_balanced (sr_bucket_map r') \<and> sr_tombstones r' = []
          \<and> table_count (buckets (sr_bucket_map r')) \<le> table_count (buckets (sr_bucket_map r1))"
        by blast
      with d show ?thesis
        by (subst compaction_loop.simps) (auto simp: Ok Continue intro: less_imp_le le_less_trans)
    next
      case (Return r1)
      from compaction_round_return [OF Ok [unfolded Return]] show ?thesis
        by (subst compaction_loop.simps) (simp add: Ok Return)
    qed
  qed (subst compaction_loop.simps, simp)+
qed

section \<open>Properties of the loop\<close>

text \<open>C18. The compaction loop, which the code does not bound, always comes to an end when the ids of new buckets are
  fresh: with a result or an error, and on success every bucket has fewer than four tables and there are
  not more tables than before.\<close>

theorem run_compaction_terminates:
  assumes "ids_ok (buckets (sr_bucket_map r))" and "uuids_fresh env (sr_reads r) (buckets (sr_bucket_map r))"
  shows "\<exists>res. run_compaction env P r = Some res \<and>
    (\<forall>r'. res = Ok r' \<longrightarrow> is_balanced (sr_bucket_map r')
       \<and> table_count (buckets (sr_bucket_map r')) \<le> table_count (buckets (sr_bucket_map r)))"
proof (cases "is_balanced (sr_bucket_map r)")
  case True
  then show ?thesis by (simp add: run_compaction_def)
next
  case False
  with compaction_loop_returns [OF assms, of P] show ?thesis by (auto simp: run_compaction_def)
qed

definition sample_runner :: SizedTierRunner where
  "sample_runner = sized_tier_runner_new sample_table_fs 2 sample_buckets key_range_new merge_config"

theorem run_compaction_terminates_witness:
  "\<not> is_balanced (sr_bucket_map sample_runner) \<and> (\<exists>res. run_compaction merge_env merge_platform sample_runner = Some res)"
proof -
  have "ids_ok (buckets (sr_bucket_map sample_runner))"
    by (simp add: sample_runner_def sized_tier_runner_new_def sample_buckets_def ids_ok_def)
  moreover have "uuids_fresh merge_env (sr_reads sample_runner) (buckets (sr_bucket_map sample_runner))"
  proof -
    have "inj (uuid merge_env)"
      by (rule injI, drule arg_cong [of _ _ length]) (simp add: merge_env_def)
    moreover have "replicate m CHR ''b'' \<noteq> ''a''" "replicate m CHR ''b'' \<noteq> ''b''" if "2 \<le> m" for m
      using that by (metis length_replicate list.size(3,4) add_0 One_nat_def Suc_1 not_less_eq_eq order_refl)+
    ultimately show ?thesis
      by (simp add: uuids_fresh_def sample_runner_def sized_tier_runner_new_def sample_buckets_def merge_env_def)
  qed
  moreover have "\<not> is_balanced (sr_bucket_map sample_runner)"
    by (simp add: sample_runner_def sized_tier_runner_new_def sample_buckets_def is_balanced_def
        sstable_count_exceeds_threshhold_def constants)
  ultimately show ?thesis
    using run_compaction_terminates [of sample_runner merge_env merge_platform] by blast
qed

section \<open>The background tasks\<close>

datatype CompState = Sleep | Active

record Compactor =
  comp_config :: CompConfig
  reason :: CompactionReason
  is_active :: CompState

definition compactor_new ::
  "bool \<Rightarrow> TtlParams \<Rightarrow> IntervalParams \<Rightarrow> Strategy \<Rightarrow> CompactionReason \<Rightarrow> f64 \<Rightarrow> Compactor" where
  "compactor_new use ttl intervals strat why rate =
     \<lparr>comp_config = comp_config_new use ttl intervals strat rate, reason = why, is_active = Sleep\<rparr>"

text \<open>What the flush listener receives, and where the two tasks are; a task that panics is gone.\<close>

datatype try_recv = Signal | Empty | Overflowed | Closed

datatype task = Waiting | Compacting | Dead

record comp_system =
  compactor :: Compactor
  tables :: tables_state
  flush_listener :: task
  compaction_worker :: task

text \<open>What a task does when its sleep is over and it has the lock of the state.\<close>

definition listener_wakes :: "try_recv \<Rightarrow> comp_system \<Rightarrow> comp_system" where
  "listener_wakes signal s =
     (case is_active (compactor s) of
        Sleep \<Rightarrow> (case signal of
            Signal \<Rightarrow> s\<lparr>compactor := (compactor s)\<lparr>is_active := Active\<rparr>, flush_listener := Compacting\<rparr>
          | _ \<Rightarrow> s)
      | Active \<Rightarrow> s)"

definition worker_wakes :: "comp_system \<Rightarrow> comp_system" where
  "worker_wakes s =
     (case is_active (compactor s) of
        Sleep \<Rightarrow> s\<lparr>compactor := (compactor s)\<lparr>is_active := Active\<rparr>, compaction_worker := Compacting\<rparr>
      | Active \<Rightarrow> s)"

text \<open>
  What a task does when its compaction has returned. The tables after a failure are whatever the failed
  compaction left. On failure the listener continues its loop before it resets the state.
\<close>

definition listener_returns :: "tables_state res \<Rightarrow> tables_state \<Rightarrow> comp_system \<Rightarrow> comp_system" where
  "listener_returns res left s =
     (case res of
        Ok t \<Rightarrow> s\<lparr>tables := t, compactor := (compactor s)\<lparr>is_active := Sleep\<rparr>, flush_listener := Waiting\<rparr>
      | Err e \<Rightarrow> s\<lparr>tables := left, flush_listener := Waiting\<rparr>
      | Panic \<Rightarrow> s\<lparr>tables := left, flush_listener := Dead\<rparr>)"

definition worker_returns :: "tables_state res \<Rightarrow> tables_state \<Rightarrow> comp_system \<Rightarrow> comp_system" where
  "worker_returns res left s =
     (case res of
        Ok t \<Rightarrow> s\<lparr>tables := t, compactor := (compactor s)\<lparr>is_active := Sleep\<rparr>, compaction_worker := Waiting\<rparr>
      | Err e \<Rightarrow> s\<lparr>tables := left, compactor := (compactor s)\<lparr>is_active := Sleep\<rparr>, compaction_worker := Waiting\<rparr>
      | Panic \<Rightarrow> s\<lparr>tables := left, compaction_worker := Dead\<rparr>)"

text \<open>The tables change also by flushes, at any time.\<close>

inductive comp_step :: "environment \<Rightarrow> platform \<Rightarrow> comp_system \<Rightarrow> comp_system \<Rightarrow> bool" for env P where
  listener_wake: "flush_listener s = Waiting \<Longrightarrow> comp_step env P s (listener_wakes signal s)"
| listener_return: "flush_listener s = Compacting \<Longrightarrow>
    handle_compaction env P (comp_config (compactor s)) (tables s) = Some res \<Longrightarrow> comp_step env P s (listener_returns res left s)"
| worker_wake: "compaction_worker s = Waiting \<Longrightarrow> comp_step env P s (worker_wakes s)"
| worker_return: "compaction_worker s = Compacting \<Longrightarrow>
    handle_compaction env P (comp_config (compactor s)) (tables s) = Some res \<Longrightarrow> comp_step env P s (worker_returns res left s)"
| tables_change: "comp_step env P s (s\<lparr>tables := t\<rparr>)"

inductive_cases comp_step_cases: "comp_step env P s s'"

definition comp_start :: "Compactor \<Rightarrow> tables_state \<Rightarrow> comp_system" where
  "comp_start c t = \<lparr>compactor = c, tables = t, flush_listener = Waiting, compaction_worker = Waiting\<rparr>"

definition exclusive :: "comp_system \<Rightarrow> bool" where
  "exclusive s \<longleftrightarrow> \<not> (flush_listener s = Compacting \<and> compaction_worker s = Compacting)
     \<and> (is_active (compactor s) = Sleep \<longrightarrow> flush_listener s \<noteq> Compacting \<and> compaction_worker s \<noteq> Compacting)"

lemmas comp_step_defs = listener_wakes_def worker_wakes_def listener_returns_def worker_returns_def

lemma exclusive_step: "comp_step env P s s' \<Longrightarrow> exclusive s \<Longrightarrow> exclusive s'"
  by (induction rule: comp_step.induct)
    (auto simp: exclusive_def comp_step_defs split: CompState.splits try_recv.splits result.splits)

text \<open>Both tasks are outside a compaction while the state says that one is running.\<close>

definition stuck :: "comp_system \<Rightarrow> bool" where
  "stuck s \<longleftrightarrow> is_active (compactor s) = Active \<and> flush_listener s \<noteq> Compacting \<and> compaction_worker s \<noteq> Compacting"

lemma stuck_step: "comp_step env P s s' \<Longrightarrow> stuck s \<Longrightarrow> stuck s'"
  by (induction rule: comp_step.induct) (auto simp: stuck_def comp_step_defs)

lemma exclusive_reachable:
  assumes "(comp_step env P)\<^sup>*\<^sup>* (comp_start (compactor_new use ttl intervals strat why rate) t) s"
  shows "exclusive s"
  using assms
proof (induction rule: rtranclp_induct)
  case base
  show ?case by (simp add: comp_start_def exclusive_def)
qed (rule exclusive_step)

text \<open>A system whose tables have lost their files, so that a compaction fails.\<close>

definition sample_system :: comp_system where
  "sample_system = comp_start
     (compactor_new False \<lparr>tp_entry_ttl = 0, tp_tombstone_ttl = 1000\<rparr>
       \<lparr>ip_background_interval = 1, ip_flush_listener_interval = 1, ip_tombstone_compaction_interval = 1\<rparr> STCS MaxSize 4)
     \<lparr>ts_fs = sample_fs, ts_reads = 2, ts_buckets = sample_buckets, ts_key_range = key_range_new\<rparr>"

lemma sample_compaction_fails:
  "run_compaction env P (sized_tier_runner_new sample_fs n sample_buckets kr cfg) = Some Panic"
proof -
  have "file_size sample_fs (data_file sample_table) = Panic"
    by (simp add: file_size_def sample_table_def sample_fs_def)
  moreover have "replicate 5 sample_table = sample_table # replicate 4 sample_table"
    by (simp add: eval_nat_numeral)
  ultimately have "cal_average_size sample_fs (replicate 5 sample_table) = Panic"
    by (simp add: cal_average_size_def)
  then have "extract_imbalanced_buckets sample_fs sample_buckets = Panic"
    by (simp add: extract_imbalanced_buckets_def sample_buckets_def extract_sstables_def constants)
  then have "compaction_round env P (sized_tier_runner_new sample_fs n sample_buckets kr cfg) = Panic"
    by (simp add: compaction_round_def fetch_imbalanced_buckets_def sized_tier_runner_new_def)
  then have "compaction_loop env P (sized_tier_runner_new sample_fs n sample_buckets kr cfg) = Some Panic"
    by (subst compaction_loop.simps) simp
  moreover have "\<not> is_balanced sample_buckets"
    by (simp add: sample_buckets_def is_balanced_def sstable_count_exceeds_threshhold_def constants)
  ultimately show ?thesis
    by (simp add: run_compaction_def) (simp add: sized_tier_runner_new_def)
qed

text \<open>C19. However the flush listener, the compaction worker and the flushes interleave, the two tasks
  never run a compaction at the same time.\<close>

theorem compactions_exclusive:
  assumes "(comp_step env P)\<^sup>*\<^sup>* (comp_start (compactor_new use ttl intervals strat why rate) t) s"
  shows "\<not> (flush_listener s = Compacting \<and> compaction_worker s = Compacting)"
  using exclusive_reachable assms by (simp add: exclusive_def)

theorem compactions_exclusive_witness:
  "flush_listener (listener_wakes Signal sample_system) = Compacting
   \<and> compaction_worker (listener_wakes Signal sample_system) \<noteq> Compacting"
proof -
  have "(comp_step merge_env merge_platform)\<^sup>*\<^sup>* sample_system (listener_wakes Signal sample_system)"
    by (intro r_into_rtranclp listener_wake) (simp add: sample_system_def comp_start_def)
  from compactions_exclusive [OF this [unfolded sample_system_def]]
  show ?thesis by (auto simp: sample_system_def comp_start_def listener_wakes_def compactor_new_def)
qed




end
