(* ===== verification/Flush.thy ===== *)
theory Flush
  imports Compaction
begin

text \<open>
  Flushing a read-only memtable (\<^verbatim>\<open>src/flush/flusher.rs\<close>). The table written to disk shares its skip map of
  entries with the memtable, so clearing the one empties the other. A flush is first one function, as the
  code has it; it is also split into the points between which a reader can look at the store.
\<close>

section \<open>The flusher\<close>

type_synonym ImmutableMemTables = "(bytes, MemTable) skipmap"

text \<open>The handles of the flusher are shared with the store.\<close>

record Flusher =
  read_only_memtable :: ImmutableMemTables
  fl_tables :: tables_state

definition flusher_new :: "ImmutableMemTables \<Rightarrow> tables_state \<Rightarrow> Flusher" where
  "flusher_new mts s = \<lparr>read_only_memtable = mts, fl_tables = s\<rparr>"

text \<open>The first half of \<^verbatim>\<open>flush\<close>: the table is written and added to its bucket.\<close>

definition flush_write :: "environment \<Rightarrow> Flusher \<Rightarrow> MemTable \<Rightarrow> (Flusher \<times> Table \<times> Summary) res" where
  "flush_write env f table =
     (if mt_entries table = [] then Err (FailedToInsertToBucket ''Cannot flush an empty table'')
      else let s = fl_tables f; n = ts_reads s
           in and_then (insert_to_appropriate_bucket (ts_fs s) (ts_buckets s) (insertable_memtable table)
                 (uuid env n) (clock env n) (clock env (n + 1))) (\<lambda>(fs', bm', sst).
              case t_summary sst of
                None \<Rightarrow> Err TableSummaryIsNone
              | Some summary \<Rightarrow>
                  if t_filter sst = None then Err FilterNotProvidedForFlush
                  else Ok (f\<lparr>fl_tables := s\<lparr>ts_fs := fs', ts_buckets := bm', ts_reads := n + 2\<rparr>\<rparr>, sst, summary)))"

text \<open>\<^verbatim>\<open>sst.entries.clear()\<close>: the skip map is that of the memtable \<open>table_id\<close> and of the table in the bucket.\<close>

definition flush_clear :: "bytes \<Rightarrow> Table \<Rightarrow> Flusher \<Rightarrow> Flusher" where
  "flush_clear table_id sst f =
     f\<lparr>read_only_memtable := map (\<lambda>(i, mt). (i, if i = table_id then mt\<lparr>mt_entries := []\<rparr> else mt)) (read_only_memtable f),
       fl_tables := (fl_tables f)\<lparr>ts_buckets := clear_shared_entries (t_dir sst) (ts_buckets (fl_tables f))\<rparr>\<rparr>"

definition flush_register :: "Table \<Rightarrow> Summary \<Rightarrow> Flusher \<Rightarrow> Flusher" where
  "flush_register sst summary f =
     f\<lparr>fl_tables := (fl_tables f)\<lparr>ts_key_range := fst (key_range_set (ts_key_range (fl_tables f)) (t_dir sst)
        (smallest_key summary) (biggest_key summary) (sst\<lparr>t_entries := []\<rparr>))\<rparr>\<rparr>"

definition flush :: "environment \<Rightarrow> Flusher \<Rightarrow> bytes \<Rightarrow> MemTable \<Rightarrow> Flusher res" where
  "flush env f table_id table =
     and_then (flush_write env f table) (\<lambda>(f', sst, summary).
       Ok (flush_register sst summary (flush_clear table_id sst f')))"

definition flush_remove :: "bytes \<Rightarrow> Flusher \<Rightarrow> Flusher" where
  "flush_remove table_id f = f\<lparr>read_only_memtable := sm_remove table_id (read_only_memtable f)\<rparr>"

text \<open>
  The task of \<^verbatim>\<open>flush_handler\<close>, with whether the flush signal is sent. A failure is logged; what a failed flush
  wrote is not modelled.
\<close>

definition flush_handler :: "environment \<Rightarrow> Flusher \<Rightarrow> bytes \<Rightarrow> MemTable \<Rightarrow> (Flusher \<times> bool) res" where
  "flush_handler env f table_id table_to_flush =
     (case flush env f table_id table_to_flush of
        Ok f' \<Rightarrow> Ok (flush_remove table_id f', True)
      | Err e \<Rightarrow> Ok (f, False)
      | Panic \<Rightarrow> Panic)"

end
