(* ===== verification/Garbage_Collector.thy ===== *)
theory Garbage_Collector
  imports Flush Value_Log
begin

text \<open>
  The garbage collector of the value log (\<^verbatim>\<open>src/gc/garbage_collector.rs\<close>), and the searches over read-only
  memtables and tables that it shares with the reads of the store. It takes a chunk of the log, looks up
  the newest version of each key, appends the entries that are still valid again and marks the chunk as a
  hole. The checks of a chunk run as parallel tasks; the order in which they finish is the argument \<open>sched\<close>.
\<close>

section \<open>UTF-8\<close>

definition is_continuation :: "8 word \<Rightarrow> bool" where
  "is_continuation b \<longleftrightarrow> 0x80 \<le> b \<and> b \<le> 0xBF"

text \<open>The second byte, by the first (Unicode standard, table 3-7).\<close>

definition second_byte_ok :: "8 word \<Rightarrow> 8 word \<Rightarrow> bool" where
  "second_byte_ok b0 b1 \<longleftrightarrow>
     (if b0 = 0xE0 then 0xA0 \<le> b1 \<and> b1 \<le> 0xBF
      else if b0 = 0xED then 0x80 \<le> b1 \<and> b1 \<le> 0x9F
      else if b0 = 0xF0 then 0x90 \<le> b1 \<and> b1 \<le> 0xBF
      else if b0 = 0xF4 then 0x80 \<le> b1 \<and> b1 \<le> 0x8F
      else is_continuation b1)"

text \<open>Whether \<^verbatim>\<open>std::str::from_utf8\<close> succeeds.\<close>

fun utf8_valid :: "bytes \<Rightarrow> bool" where
  "utf8_valid [] \<longleftrightarrow> True"
| "utf8_valid (b0 # bs) \<longleftrightarrow>
     (if b0 < 0x80 then utf8_valid bs
      else case bs of [] \<Rightarrow> False | b1 # bs1 \<Rightarrow>
        if 0xC2 \<le> b0 \<and> b0 \<le> 0xDF then is_continuation b1 \<and> utf8_valid bs1
        else case bs1 of [] \<Rightarrow> False | b2 # bs2 \<Rightarrow>
          if 0xE0 \<le> b0 \<and> b0 \<le> 0xEF then second_byte_ok b0 b1 \<and> is_continuation b2 \<and> utf8_valid bs2
          else case bs2 of [] \<Rightarrow> False | b3 # bs3 \<Rightarrow>
            0xF0 \<le> b0 \<and> b0 \<le> 0xF4 \<and> second_byte_ok b0 b1 \<and> is_continuation b2 \<and> is_continuation b3 \<and> utf8_valid bs3)"

section \<open>Searching memtables and tables\<close>

type_synonym search_state = "ValOffset \<times> datetime \<times> bool"

text \<open>The loop over the read-only memtables: the offset, the time and the tombstone flag of the newest entry.\<close>

definition search_read_only :: "platform \<Rightarrow> ImmutableMemTables \<Rightarrow> Key \<Rightarrow> search_state res" where
  "search_read_only P mts key =
     fold_res (\<lambda>(_, table) (offset, insert_time, is_deleted).
         and_then (mt_get P table key) (\<lambda>v.
           Ok (case v of
                 Some value \<Rightarrow>
                   if insert_time < sv_created_at value
                   then (sv_offset value, sv_created_at value, sv_is_tombstone value)
                   else (offset, insert_time, is_deleted)
               | None \<Rightarrow> (offset, insert_time, is_deleted))))
       mts (VLOG_START_OFFSET, default_datetime, False)"

text \<open>The loop over the tables on disk.\<close>

definition search_ssts :: "platform \<Rightarrow> filesys \<Rightarrow> Table list \<Rightarrow> Key \<Rightarrow> search_state res" where
  "search_ssts P fs ssts key =
     fold_res (\<lambda>sst (offset, insert_time, is_deleted).
         and_then (index_get P fs (index_new (index_file sst)) key) (\<lambda>block_handle.
           case block_handle of
             None \<Rightarrow> Ok (offset, insert_time, is_deleted)
           | Some handle \<Rightarrow>
               and_then (table_get P fs sst handle key) (\<lambda>sst_res.
                 Ok (case sst_res of
                       Some (val_offset, created_at, is_tombstone) \<Rightarrow>
                         if insert_time < created_at then (val_offset, created_at, is_tombstone)
                         else (offset, insert_time, is_deleted)
                     | None \<Rightarrow> (offset, insert_time, is_deleted)))))
       ssts (VLOG_START_OFFSET, default_datetime, False)"

definition found_in_table :: "datetime \<Rightarrow> datetime \<Rightarrow> bool" where
  "found_in_table insert_time lowest_insert_date \<longleftrightarrow> lowest_insert_date < insert_time"

section \<open>The garbage collector\<close>

record GcConfig =
  gc_online_gc_interval :: u64
  gc_gc_chunk_size :: nat

record PunchMarker =
  punch_hole_start_offset :: nat
  punch_hole_length :: nat

text \<open>
  The state a collection works on: the table and the log of the collector, the entries not yet synced with
  the store, the marker, and what the collector shares with the store.
\<close>

record gc_state =
  g_fs :: filesys
  g_reads :: nat
  g_table :: MemTable
  g_vlog :: ValueLog
  g_key_range :: KeyRange
  g_updated_entries :: entries
  g_marker :: PunchMarker

definition gc_get_value_from_vlog :: "platform \<Rightarrow> filesys \<Rightarrow> ValueLog \<Rightarrow> ValOffset \<Rightarrow> datetime \<Rightarrow> (Value \<times> datetime) res" where
  "gc_get_value_from_vlog P fs vl offset creation_at =
     and_then (vlog_get P fs vl offset) (\<lambda>res.
       case res of
         Some (value, is_tombstone) \<Rightarrow> if is_tombstone then Err NotFoundInDB else Ok (value, creation_at)
       | None \<Rightarrow> Err NotFoundInDB)"

definition gc_search_key_in_sstables ::
  "platform \<Rightarrow> filesys \<Rightarrow> Key \<Rightarrow> Table list \<Rightarrow> ValueLog \<Rightarrow> (Value \<times> datetime) res" where
  "gc_search_key_in_sstables P fs key ssts vl =
     and_then (search_ssts P fs ssts key) (\<lambda>(offset, insert_time, is_deleted).
       if found_in_table insert_time default_datetime
       then if is_deleted then Err NotFoundInDB else gc_get_value_from_vlog P fs vl offset insert_time
       else Err NotFoundInDB)"

text \<open>The value and its time, and the ranges that the search restored on the way.\<close>

definition gc_get ::
  "platform \<Rightarrow> gc_state \<Rightarrow> ImmutableMemTables \<Rightarrow> Key \<Rightarrow> (Value \<times> datetime) res \<times> (path, Range) hashmap" where
  "gc_get P s mts key =
     (case mt_get P (g_table s) key of
        Err e \<Rightarrow> (Err e, [])
      | Panic \<Rightarrow> (Panic, [])
      | Ok (Some value) \<Rightarrow>
          (if sv_is_tombstone value then Err NotFoundInDB
           else gc_get_value_from_vlog P (g_fs s) (g_vlog s) (sv_offset value) (sv_created_at value), [])
      | Ok None \<Rightarrow>
          (case search_read_only P mts key of
             Err e \<Rightarrow> (Err e, [])
           | Panic \<Rightarrow> (Panic, [])
           | Ok (offset, insert_time, is_deleted) \<Rightarrow>
               if found_in_table insert_time default_datetime
               then (if is_deleted then Err NotFoundInDB
                     else gc_get_value_from_vlog P (g_fs s) (g_vlog s) offset insert_time, [])
               else case filter_sstables_by_key_range P (g_fs s) (g_key_range s) key of
                      Ok (ssts, restored) \<Rightarrow> (gc_search_key_in_sstables P (g_fs s) key ssts (g_vlog s), restored)
                    | Err e \<Rightarrow> (Err e, [])
                    | Panic \<Rightarrow> (Panic, [])))"

datatype verdict = Valid Key Value | Invalid ValueLogEntry

definition handle_deleted_entries :: "ValueLogEntry \<Rightarrow> error \<Rightarrow> verdict res" where
  "handle_deleted_entries entry err = (if err = NotFoundInDB then Ok (Invalid entry) else Err err)"

text \<open>One of the parallel tasks; a task that panics gives a join error.\<close>

definition check_entry ::
  "platform \<Rightarrow> gc_state \<Rightarrow> ImmutableMemTables \<Rightarrow> ValueLogEntry \<Rightarrow> verdict res \<times> (path, Range) hashmap" where
  "check_entry P s mts entry =
     (if \<not> utf8_valid (vle_key entry) then (Err TokioJoin, [])
      else let (res, restored) = gc_get P s mts (vle_key entry)
           in (case res of
                 Ok (value, creation_time) \<Rightarrow>
                   Ok (if vle_created_at entry < creation_time \<or> value = TOMB_STONE_MARKER then Invalid entry
                       else Valid (vle_key entry) value)
               | Err err \<Rightarrow> handle_deleted_entries entry err
               | Panic \<Rightarrow> Err TokioJoin, restored))"

definition gc_put :: "environment \<Rightarrow> platform \<Rightarrow> Key \<Rightarrow> Value \<Rightarrow> ValOffset \<Rightarrow> gc_state \<Rightarrow> gc_state res" where
  "gc_put env P key value val_offset s =
     (let is_tombstone = (value = []);
          created_at = clock env (g_reads s)
      in and_then (mt_insert P (g_table s) (Entry_new key val_offset created_at is_tombstone)) (\<lambda>table.
           Ok (s\<lparr>g_reads := g_reads s + 1, g_table := table,
                 g_updated_entries := sm_insert key (SkipMapValue_new val_offset created_at is_tombstone)
                   (g_updated_entries s)\<rparr>)))"

definition gc_append :: "environment \<Rightarrow> Key \<Rightarrow> Value \<Rightarrow> gc_state \<Rightarrow> (gc_state \<times> ValOffset) res" where
  "gc_append env key value s =
     and_then (vlog_append (g_fs s) (g_vlog s) key value (clock env (g_reads s)) False) (\<lambda>(fs', vl', v_offset).
       Ok (s\<lparr>g_fs := fs', g_vlog := vl', g_reads := g_reads s + 1\<rparr>, v_offset))"

text \<open>\<^verbatim>\<open>new_tail_offset.to_le_bytes()\<close> has 8 bytes.\<close>

definition write_tail_to_disk :: "environment \<Rightarrow> nat \<Rightarrow> gc_state \<Rightarrow> (gc_state \<times> ValOffset) res" where
  "write_tail_to_disk env new_tail_offset s = gc_append env TAIL_ENTRY_KEY (le_bytes 8 new_tail_offset) s"

definition write_valid_entries_to_vlog ::
  "environment \<Rightarrow> (Key \<times> Value) list \<Rightarrow> gc_state \<times> (Key \<times> Value \<times> ValOffset) list
     \<Rightarrow> (gc_state \<times> (Key \<times> Value \<times> ValOffset) list) res" where
  "write_valid_entries_to_vlog env valid_entries =
     fold_res (\<lambda>(key, value) (s, synced_entries).
         and_then (gc_append env key value s) (\<lambda>(s', v_offset). Ok (s', synced_entries @ [(key, value, v_offset)])))
       valid_entries"

definition write_valid_entries_to_store ::
  "environment \<Rightarrow> platform \<Rightarrow> (Key \<times> Value \<times> ValOffset) list \<Rightarrow> gc_state \<Rightarrow> gc_state res" where
  "write_valid_entries_to_store env P valid_entries s =
     fold_res (\<lambda>(key, value, existing_v_offset) s.
         and_then (gc_put env P key value existing_v_offset s) (\<lambda>s'.
           Ok (if head_offset (g_vlog s') < existing_v_offset
               then s'\<lparr>g_vlog := vlog_set_head (g_vlog s') existing_v_offset\<rparr> else s')))
       valid_entries (s\<lparr>g_updated_entries := []\<rparr>)"

definition gc_handler ::
  "environment \<Rightarrow> platform \<Rightarrow> GcConfig \<Rightarrow> ((Key \<times> Value) list \<Rightarrow> (Key \<times> Value) list) \<Rightarrow> ImmutableMemTables
     \<Rightarrow> gc_state \<Rightarrow> gc_state res" where
  "gc_handler env P cfg sched mts s =
     and_then (vlog_read_chunk P (g_fs s) (g_vlog s) (gc_gc_chunk_size cfg)) (\<lambda>(entries, total_bytes_read).
       let checked = map (check_entry P s mts) entries;
           s1 = s\<lparr>g_key_range := fold (\<lambda>(_, restored) kr. publish_restored kr restored) checked (g_key_range s)\<rparr>
       in and_then (fold_res (\<lambda>(res, _) (valid, invalid). and_then res (\<lambda>verdict.
              Ok (case verdict of
                    Valid key value \<Rightarrow> (valid @ [(key, value)], invalid)
                  | Invalid entry \<Rightarrow> (valid, invalid @ [entry])))) checked ([], [])) (\<lambda>(valid_entries, invalid_entries).
          if invalid_entries = [] then Ok s1
          else let new_tail_offset = tail_offset (g_vlog s1) + total_bytes_read
               in and_then (write_tail_to_disk env new_tail_offset s1) (\<lambda>(s2, v_offset).
                  and_then (write_valid_entries_to_vlog env (sched valid_entries)
                      (s2, [(TAIL_ENTRY_KEY, le_bytes 8 new_tail_offset, v_offset)])) (\<lambda>(s3, synced_entries).
                  and_then (write_valid_entries_to_store env P synced_entries s3) (\<lambda>s4.
                    Ok (s4\<lparr>g_marker := \<lparr>punch_hole_start_offset = tail_offset (g_vlog s4),
                                          punch_hole_length = total_bytes_read\<rparr>\<rparr>))))))"

section \<open>Freeing space\<close>

text \<open>
  \<^verbatim>\<open>fallocate\<close> with the flags to punch a hole and keep the size: the bytes of the range read as zero
  afterwards. It refuses an empty range and, since the arguments are signed, ranges beyond 63 bits.
\<close>

definition punch :: "nat \<Rightarrow> nat \<Rightarrow> bytes \<Rightarrow> bytes" where
  "punch offset len bs =
     take offset bs @ replicate (min len (length bs - offset)) 0 @ drop (offset + len) bs"

definition punch_holes :: "filesys \<Rightarrow> path \<Rightarrow> nat \<Rightarrow> nat \<Rightarrow> filesys res" where
  "punch_holes fs file_path offset len =
     (case files fs file_path of
        None \<Rightarrow> Err (FileOpen file_path ''NotFound'')
      | Some bs \<Rightarrow>
          if len = 0 \<or> 2 ^ 63 \<le> len \<or> 2 ^ 63 \<le> offset
          then Err (GCErrorFailedToPunchHoleInVlogFile ''InvalidInput'')
          else Ok (fs\<lparr>files := (files fs)(file_path \<mapsto> punch offset len bs)\<rparr>))"

definition free_unused_space :: "gc_state \<Rightarrow> (gc_state \<times> nat \<times> nat) res" where
  "free_unused_space s =
     (if g_updated_entries s \<noteq> [] then Err GCErrorAttemptToRemoveUnsyncedEntries
      else and_then (punch_holes (g_fs s) (vl_path (g_vlog s)) (punch_hole_start_offset (g_marker s))
               (punch_hole_length (g_marker s))) (\<lambda>fs'.
           let vl' = (g_vlog s)\<lparr>tail_offset := tail_offset (g_vlog s) + punch_hole_length (g_marker s)\<rparr>
           in Ok (s\<lparr>g_fs := fs', g_vlog := vl'\<rparr>, head_offset vl', tail_offset vl')))"

text \<open>One turn of the loop of the background worker, after its sleep; failures are logged.\<close>

definition gc_worker_turn ::
  "environment \<Rightarrow> platform \<Rightarrow> GcConfig \<Rightarrow> ((Key \<times> Value) list \<Rightarrow> (Key \<times> Value) list) \<Rightarrow> ImmutableMemTables
     \<Rightarrow> gc_state \<Rightarrow> gc_state res" where
  "gc_worker_turn env P cfg sched mts s =
     (if g_updated_entries s \<noteq> [] then Ok s
      else case gc_handler env P cfg sched mts s of Ok s' \<Rightarrow> Ok s' | Err e \<Rightarrow> Ok s | Panic \<Rightarrow> Panic)"

section \<open>Properties\<close>

lemma length_punch: "length (punch offset len bs) = length bs"
  by (auto simp: punch_def)

lemma nth_punch:
  assumes "i < length bs"
  shows "punch offset len bs ! i = (if offset \<le> i \<and> i < offset + len then 0 else bs ! i)"
  using assms by (auto simp: punch_def nth_append min_def)


definition sample_gc_state :: gc_state where
  "sample_gc_state = \<lparr>g_fs = with_file sample_fs [''t'', ''v''] [1, 2, 3, 4, 5], g_reads = 0,
     g_table = \<lparr>mt_entries = [([1], sample_value 3)], mt_bloom_filter = bf_default, mt_size = 0, mt_created_at = 0,
        read_only = False, most_recent_entry = sample_entry [1] 3,
        mt_config = \<lparr>false_pos_rate = 0, cfg_capacity = 0, cfg_size_unit = Bytes\<rparr>\<rparr>,
     g_vlog = \<lparr>vl_path = [''t'', ''v''], head_offset = 4, tail_offset = 1, vl_size = 5\<rparr>,
     g_key_range = key_range_new, g_updated_entries = [],
     g_marker = \<lparr>punch_hole_start_offset = 1, punch_hole_length = 2\<rparr>\<rparr>"


text \<open>C24. The newest version of a key is discarded as garbage when it was written at a time that is not a
  whole millisecond: the log stores milliseconds, the memtable nanoseconds, and the two are compared.\<close>

theorem gc_discards_live_entry:
  assumes "utf8_valid (vle_key e)"
    and "mt_get P (g_table s) (vle_key e) = Ok (Some v)" and "\<not> sv_is_tombstone v"
    and "vlog_get P (g_fs s) (g_vlog s) (sv_offset v) = Ok (Some (value, False))"
    and "vle_created_at e = truncate_millis (sv_created_at v)" and "truncate_millis (sv_created_at v) \<noteq> sv_created_at v"
  shows "check_entry P s mts e = (Ok (Invalid e), [])"
proof -
  have "truncate_millis (sv_created_at v) < sv_created_at v"
    using truncate_le [of "sv_created_at v"] assms(6) by simp
  then show ?thesis
    using assms by (simp add: check_entry_def gc_get_def gc_get_value_from_vlog_def)
qed

text \<open>One entry in the log; the memtable has it with the nanosecond it was written at.\<close>

definition sample_vle :: ValueLogEntry where
  "sample_vle = ValueLogEntry_new 1 2 [65] [5, 6] 3000000 False"

definition sample_log_state :: gc_state where
  "sample_log_state = sample_gc_state\<lparr>g_fs := with_file sample_fs [''t'', ''v''] (vlog_file_of [sample_vle]),
     g_table := (g_table sample_gc_state)\<lparr>mt_entries := [([65], \<lparr>sv_offset = 0, sv_created_at = 3000001, sv_is_tombstone = False\<rparr>)]\<rparr>,
     g_vlog := \<lparr>vl_path = [''t'', ''v''], head_offset = 0, tail_offset = 0, vl_size = 0\<rparr>\<rparr>"

lemma sample_vle_ok: "vle_ok sample_platform sample_vle"
  by (simp add: vle_ok_def sample_vle_def ValueLogEntry_new_def field_ok_def wf_time_def sample_platform_def timestamp_millis_def)

lemma sample_log_file: "files (g_fs sample_log_state) (vl_path (g_vlog sample_log_state)) = Some (vlog_file_of ([] @ sample_vle # []))"
  by (simp add: sample_log_state_def)

theorem gc_discards_live_entry_witness:
  "check_entry sample_platform sample_log_state [] sample_vle = (Ok (Invalid sample_vle), [])"
proof (rule gc_discards_live_entry)
  let ?v = "\<lparr>sv_offset = 0, sv_created_at = 3000001, sv_is_tombstone = False\<rparr>"
  show "utf8_valid (vle_key sample_vle)"
    by (simp add: sample_vle_def ValueLogEntry_new_def)
  show "mt_get sample_platform (g_table sample_log_state) (vle_key sample_vle) = Ok (Some ?v)"
    by (simp add: sample_log_state_def sample_gc_state_def mt_get_def bf_contains_def bf_default_def sample_vle_def
        ValueLogEntry_new_def sm_get_def)
  show "vlog_get sample_platform (g_fs sample_log_state) (g_vlog sample_log_state) (sv_offset ?v) = Ok (Some ([5, 6], False))"
    using vlog_file_get_at [OF sample_vle_ok, of 0 "[]" "[]"] sample_log_file
    by (simp add: vlog_get_def node_bytes_def sample_vle_def ValueLogEntry_new_def)
qed (simp_all add: sample_vle_def ValueLogEntry_new_def truncate_millis_def timestamp_millis_def)

text \<open>C25. A log handle whose cached size is behind the file, as the one of the collector is after the first
  write of the store, returns an offset that is not that of the appended value: what is read there is an
  older entry.\<close>

theorem stale_log_handle_wrong_offset:
  assumes "files (g_fs s) (vl_path (g_vlog s)) = Some (vlog_file_of (before @ e # later))"
    and "\<forall>x \<in> set (before @ e # later). vle_ok P x" and "vl_size (g_vlog s) = log_offset before"
  shows "\<exists>s' off. gc_append env key value s = Ok (s', off)
    \<and> vlog_get P (g_fs s') (g_vlog s') off = Ok (Some (vle_value e, vle_is_tombstone e))"
proof -
  let ?x = "ValueLogEntry_new (length key) (length value) key value (clock env (g_reads s)) False"
  have "vlog_file_get P (vlog_file_of before @ vlog_bytes (vlog_record_of e) @ (vlog_file_of later @ vle_serialize ?x))
      (log_offset before) = Ok (Some (vle_value e, vle_is_tombstone e))"
    by (rule vlog_file_get_at) (use assms(2) in simp_all)
  then show ?thesis
    using assms(1,3)
    by (simp add: gc_append_def vlog_append_def file_write_all_def Let_def vlog_get_def node_bytes_def)
qed


theorem stale_log_handle_wrong_offset_witness:
  "\<exists>s' off. gc_append merge_env [66] [7] sample_log_state = Ok (s', off)
    \<and> vlog_get sample_platform (g_fs s') (g_vlog s') off = Ok (Some ([5, 6], False))"
  using stale_log_handle_wrong_offset [OF sample_log_file, of sample_platform merge_env "[66]" "[7]"] sample_vle_ok
  by (simp add: sample_log_state_def sample_vle_def ValueLogEntry_new_def)

end
