(* ===== verification/Meta_Manager.thy ===== *)
theory Meta_Manager
  imports Value_Log
begin

text \<open>
  The store's meta file of \<^verbatim>\<open>src/meta/meta_manager.rs\<close>: the head and the tail of the value log and
  two dates. Calls of \<^verbatim>\<open>Utc::now()\<close> are arguments.
\<close>

record Meta =
  meta_path :: path
  v_log_tail :: nat
  v_log_head :: nat
  meta_created_at :: datetime
  last_modified :: datetime

definition meta_new :: "filesys \<Rightarrow> path \<Rightarrow> datetime \<Rightarrow> datetime \<Rightarrow> (filesys \<times> Meta) res" where
  "meta_new fs dir now now' =
     (let file_path = dir @ [META_FILE]
      in and_then (file_node_unwrap (create_dir_all fs dir) file_path) (\<lambda>fs'.
           Ok (fs', \<lparr>meta_path = file_path, v_log_tail = 0, v_log_head = 0,
                     meta_created_at = now, last_modified = now'\<rparr>)))"

definition meta_serialize :: "Meta \<Rightarrow> bytes" where
  "meta_serialize m =
     u32_to_le_bytes (word_of_nat (v_log_head m)) @ u32_to_le_bytes (word_of_nat (v_log_tail m))
       @ millis_to_le_bytes (meta_created_at m) @ millis_to_le_bytes (last_modified m)"

definition meta_write :: "filesys \<Rightarrow> Meta \<Rightarrow> filesys res" where
  "meta_write fs m =
     (let serialized_data = meta_serialize m
      in and_then (file_clear fs (meta_path m)) (\<lambda>fs'. file_write_all fs' (meta_path m) serialized_data))"

definition meta_set_head :: "Meta \<Rightarrow> nat \<Rightarrow> Meta" where
  "meta_set_head m head = m\<lparr>v_log_head := head\<rparr>"

definition meta_set_tail :: "Meta \<Rightarrow> nat \<Rightarrow> Meta" where
  "meta_set_tail m tail = m\<lparr>v_log_tail := tail\<rparr>"

definition update_last_modified :: "datetime \<Rightarrow> Meta \<Rightarrow> Meta" where
  "update_last_modified now m = m\<lparr>last_modified := now\<rparr>"

definition meta_recover :: "platform \<Rightarrow> filesys \<Rightarrow> Meta \<Rightarrow> Meta res" where
  "meta_recover P fs m =
     and_then (meta_file_recover P fs (meta_path m)) (\<lambda>(head, tail, created, modified).
       Ok (m\<lparr>v_log_head := head, v_log_tail := tail, meta_created_at := created,
             last_modified := modified\<rparr>))"

section \<open>Writing and recovering\<close>

lemma load_millis [codec]:
  "8 \<le> max_read P \<Longrightarrow> load_field P SIZE_OF_U64 (millis_to_le_bytes t @ rest) = Ok (millis_to_le_bytes t, 8, rest)"
  by (simp add: millis_to_le_bytes_def codec)

lemma load_millis_end [codec]:
  "8 \<le> max_read P \<Longrightarrow> load_field P SIZE_OF_U64 (millis_to_le_bytes t) = Ok (millis_to_le_bytes t, 8, [])"
  using load_millis [of P t "[]"] by simp

lemma u64_from_millis [codec]:
  "u64_from_le_bytes (millis_to_le_bytes t) = word_of_int (timestamp_millis t)"
  by (simp add: millis_to_le_bytes_def codec)

lemma meta_file_recover_written:
  assumes "files fs p = Some (meta_serialize m)" and "8 \<le> max_read P"
    and "wf_time P (meta_created_at m)" and "wf_time P (last_modified m)"
  shows "meta_file_recover P fs p = Ok (v_log_head m mod 2 ^ 32, v_log_tail m mod 2 ^ 32,
    truncate_millis (meta_created_at m), truncate_millis (last_modified m))"
  using assms
  by (simp add: meta_file_recover_def open_small_file_def file_open_def meta_serialize_def codec
      unat_of_nat_u32)

text \<open>C11. Whatever the meta file held before, recovering from it after a write gives the head and the
  tail modulo \<open>2 ^ 32\<close> (so exactly, below 4 GiB) and the dates to the millisecond.\<close>

theorem meta_write_recover:
  assumes "files fs (meta_path m) = Some old" and "8 \<le> max_read P"
    and "wf_time P (meta_created_at m)" and "wf_time P (last_modified m)"
    and "meta_path restored = meta_path m"
  shows "\<exists>fs'. meta_write fs m = Ok fs' \<and>
    meta_recover P fs' restored = Ok (restored\<lparr>v_log_head := v_log_head m mod 2 ^ 32,
      v_log_tail := v_log_tail m mod 2 ^ 32, meta_created_at := truncate_millis (meta_created_at m),
      last_modified := truncate_millis (last_modified m)\<rparr>)"
proof -
  define fs' where "fs' = fs\<lparr>files := (files fs)(meta_path m \<mapsto> meta_serialize m)\<rparr>"
  have w: "meta_write fs m = Ok fs'"
    using assms(1) by (simp add: meta_write_def file_clear_def file_write_all_def fs'_def)
  have "files fs' (meta_path restored) = Some (meta_serialize m)"
    by (simp add: fs'_def assms(5))
  from meta_file_recover_written [OF this assms(2-4)] w show ?thesis
    by (simp add: meta_recover_def)
qed

theorem meta_write_recover_witness:
  "\<exists>fs m fs'. v_log_head m = 4294967301 \<and> meta_write fs m = Ok fs'
    \<and> meta_recover sample_platform fs' m = Ok (m\<lparr>v_log_head := 5, v_log_tail := 0,
        meta_created_at := 3000000, last_modified := 0\<rparr>)"
proof -
  define m where "m = \<lparr>meta_path = [''t'', META_FILE], v_log_tail = 0, v_log_head = 4294967301,
    meta_created_at = 3000042, last_modified = 7\<rparr>"
  define fs where "fs = sample_fs\<lparr>files := [[''t'', META_FILE] \<mapsto> [1, 2]]\<rparr>"
  have "\<exists>fs'. meta_write fs m = Ok fs' \<and>
    meta_recover sample_platform fs' m = Ok (m\<lparr>v_log_head := v_log_head m mod 2 ^ 32,
      v_log_tail := v_log_tail m mod 2 ^ 32, meta_created_at := truncate_millis (meta_created_at m),
      last_modified := truncate_millis (last_modified m)\<rparr>)"
    by (rule meta_write_recover)
      (simp_all add: fs_def m_def wf_time_def sample_platform_def timestamp_millis_def)
  then obtain fs' where "meta_write fs m = Ok fs'"
    "meta_recover sample_platform fs' m = Ok (m\<lparr>v_log_head := 5, v_log_tail := 0,
      meta_created_at := 3000000, last_modified := 0\<rparr>)"
    by (auto simp: m_def truncate_millis_def timestamp_millis_def)
  moreover have "v_log_head m = 4294967301"
    by (simp add: m_def)
  ultimately show ?thesis by blast
qed

end
