(* ===== verification/Data_Store.thy ===== *)
theory Data_Store
  imports Garbage_Collector Meta_Manager
begin

text \<open>
  The store of \<^verbatim>\<open>src/db/store.rs\<close>: writes go to the value log and the active memtable, full memtables become
  read-only and are flushed, reads look at the memtables from the newest to the oldest and then at the
  tables. What the code hands to \<^verbatim>\<open>tokio::spawn\<close> is a list of pending tasks in the state; a step of the store
  is an operation of its client or the run of any pending task.
\<close>

section \<open>Configuration\<close>

text \<open>Durations are in milliseconds.\<close>

record DbConfig =
  db_false_positive_rate :: f64
  allow_prefetch :: bool
  prefetch_size :: nat
  write_buffer_size :: nat
  max_buffer_write_number :: nat
  enable_ttl :: bool
  db_entry_ttl :: u64
  db_tombstone_ttl :: u64
  compactor_flush_listener_interval :: u64
  background_compaction_interval :: u64
  db_tombstone_compaction_interval :: u64
  compaction_strategy :: Strategy
  online_gc_interval :: u64
  gc_chunk_size :: nat
  open_files_limit :: nat

section \<open>State\<close>

record DirPath =
  dir_root :: path
  dir_val_log :: path
  dir_buckets :: path
  dir_meta :: path

definition dir_path_build :: "path \<Rightarrow> DirPath" where
  "dir_path_build root_path =
     \<lparr>dir_root = root_path, dir_val_log = root_path @ [VALUE_LOG_DIRECTORY_NAME],
      dir_buckets = root_path @ [BUCKETS_DIRECTORY_NAME], dir_meta = root_path @ [META_DIRECTORY_NAME]\<rparr>"

text \<open>
  The garbage collector of the store. The memtables that collector and store keep for the collection are
  cells of a list, since the store replaces its own and the collector keeps the first.
\<close>

record GC =
  gc_config :: GcConfig
  gc_cell :: nat
  gc_marker :: PunchMarker

definition gc_new :: "u64 \<Rightarrow> nat \<Rightarrow> nat \<Rightarrow> GC" where
  "gc_new interval chunk cell =
     \<lparr>gc_config = \<lparr>gc_online_gc_interval = interval, gc_gc_chunk_size = chunk\<rparr>, gc_cell = cell,
      gc_marker = \<lparr>punch_hole_start_offset = 0, punch_hole_length = 0\<rparr>\<rparr>"

text \<open>What the code spawns.\<close>

datatype bg_task =
    Gc_Table_Insert nat Entry
  | Gc_Log_Head nat
  | Meta_Write Meta
  | Flush_Task bytes MemTable
  | Publish_Ranges "(path, Range) hashmap"

record DataStore =
  keyspace :: string
  ds_dir :: DirPath
  active_memtable :: MemTable
  val_log :: ValueLog
  ds_tables :: tables_state
  ds_compactor :: Compactor
  ds_meta :: Meta
  ds_config :: DbConfig
  ds_gc :: GC
  read_only_memtables :: ImmutableMemTables
  gc_updated_entries :: entries
  gc_tables :: "MemTable list"
  gc_table :: nat
  gc_log :: ValueLog
  flush_stream :: "bytes list"
  ds_tasks :: "bg_task list"

abbreviation ds_fs :: "DataStore \<Rightarrow> filesys" where
  "ds_fs s \<equiv> ts_fs (ds_tables s)"

abbreviation ds_reads :: "DataStore \<Rightarrow> nat" where
  "ds_reads s \<equiv> ts_reads (ds_tables s)"

abbreviation ds_key_range :: "DataStore \<Rightarrow> KeyRange" where
  "ds_key_range s \<equiv> ts_key_range (ds_tables s)"

section \<open>Validation\<close>

definition validate_size :: "Key \<Rightarrow> Value option \<Rightarrow> unit res" where
  "validate_size key val =
     (if key = [] then Err KeySizeNone
      else if MAX_KEY_SIZE < length key then Err KeyMaxSizeExceeded
      else case val of
             None \<Rightarrow> Ok ()
           | Some v \<Rightarrow>
               if v = [] then Err ValueSizeNone
               else if MAX_VALUE_SIZE < length v then Err ValMaxSizeExceeded
               else Ok ())"

section \<open>Writing\<close>

definition flush_read_only_memtables :: "DataStore \<Rightarrow> DataStore" where
  "flush_read_only_memtables s =
     fold (\<lambda>(key, value) s.
         if key \<in> set (flush_stream s) then s
         else s\<lparr>flush_stream := flush_stream s @ [key], ds_tasks := ds_tasks s @ [Flush_Task key value]\<rparr>)
       (read_only_memtables s) s"

definition reset_memtables :: "environment \<Rightarrow> platform \<Rightarrow> DataStore \<Rightarrow> DataStore res" where
  "reset_memtables env P s =
     (let config = mt_config (active_memtable s); n = ds_reads s
      in and_then (with_specified_capacity_and_rate P (clock env n) (clock env (n + 1)) (cfg_size_unit config)
             (cfg_capacity config) (false_pos_rate config)) (\<lambda>active.
         and_then (with_specified_capacity_and_rate P (clock env (n + 2)) (clock env (n + 3)) (cfg_size_unit config)
             (cfg_capacity config) (false_pos_rate config)) (\<lambda>gc.
           Ok (s\<lparr>active_memtable := active, gc_tables := gc_tables s @ [gc], gc_table := length (gc_tables s),
                 ds_tables := (ds_tables s)\<lparr>ts_reads := n + 4\<rparr>\<rparr>))))"

definition update_meta_background :: "DataStore \<Rightarrow> DataStore" where
  "update_meta_background s = s\<lparr>ds_tasks := ds_tasks s @ [Meta_Write (ds_meta s)]\<rparr>"

definition migrate_memtable_to_read_only :: "environment \<Rightarrow> platform \<Rightarrow> DataStore \<Rightarrow> DataStore res" where
  "migrate_memtable_to_read_only env P s =
     (let head = get_most_recent_offset (active_memtable s);
          n = ds_reads s;
          s1 = s\<lparr>val_log := vlog_set_head (val_log s) head,
                 ds_meta := update_last_modified (clock env n) (meta_set_head (ds_meta s) head),
                 ds_tasks := ds_tasks s @ [Gc_Log_Head head],
                 ds_tables := (ds_tables s)\<lparr>ts_reads := n + 3\<rparr>\<rparr>;
          head_entry = Entry_new HEAD_ENTRY_KEY head (clock env (n + 1)) False
      in and_then (mt_insert P (active_memtable s1) head_entry) (\<lambda>active.
           let s2 = update_meta_background (s1\<lparr>active_memtable := mark_readonly active\<rparr>);
               s3 = (if read_only_memtables s2 = [] then s2\<lparr>flush_stream := []\<rparr> else s2);
               s4 = s3\<lparr>read_only_memtables :=
                        sm_insert (generate_table_id (alphanumeric env (n + 2))) (active_memtable s3)
                          (read_only_memtables s3)\<rparr>;
               s5 = (if max_buffer_write_number (ds_config s4) \<le> length (read_only_memtables s4)
                     then flush_read_only_memtables s4 else s4)
           in reset_memtables env P s5))"

text \<open>The state of the collector inside the store.\<close>

definition gc_view :: "DataStore \<Rightarrow> gc_state" where
  "gc_view s = \<lparr>g_fs = ds_fs s, g_reads = ds_reads s, g_table = gc_tables s ! gc_cell (ds_gc s), g_vlog = gc_log s,
     g_key_range = ds_key_range s, g_updated_entries = gc_updated_entries s, g_marker = gc_marker (ds_gc s)\<rparr>"

definition gc_update :: "gc_state \<Rightarrow> DataStore \<Rightarrow> DataStore" where
  "gc_update g s = s\<lparr>ds_tables := (ds_tables s)\<lparr>ts_fs := g_fs g, ts_reads := g_reads g, ts_key_range := g_key_range g\<rparr>,
     gc_tables := (gc_tables s)[gc_cell (ds_gc s) := g_table g], gc_log := g_vlog g,
     gc_updated_entries := g_updated_entries g, ds_gc := (ds_gc s)\<lparr>gc_marker := g_marker g\<rparr>\<rparr>"

definition sync_gc_update_with_store :: "environment \<Rightarrow> platform \<Rightarrow> DataStore \<Rightarrow> DataStore res" where
  "sync_gc_update_with_store env P s =
     and_then (fold_res (\<lambda>(key, v) mt. mt_insert P mt (Entry_new key (sv_offset v) (sv_created_at v) (sv_is_tombstone v)))
         (gc_updated_entries s) (active_memtable s)) (\<lambda>active.
       let s1 = s\<lparr>active_memtable := active, gc_updated_entries := []\<rparr>
       in and_then (free_unused_space (gc_view s1)) (\<lambda>(g, updated_head, updated_tail).
            let s2 = gc_update g s1; n = ds_reads s2
            in Ok (s2\<lparr>ds_meta := update_last_modified (clock env n)
                        (meta_set_tail (meta_set_head (ds_meta s2) updated_head) updated_tail),
                      val_log := vlog_set_tail (vlog_set_head (val_log s2) updated_head) updated_tail,
                      ds_tables := (ds_tables s2)\<lparr>ts_reads := n + 1\<rparr>\<rparr>)))"

definition put :: "environment \<Rightarrow> platform \<Rightarrow> DataStore \<Rightarrow> Key \<Rightarrow> Value \<Rightarrow> (DataStore \<times> bool) res" where
  "put env P s key val =
     and_then (validate_size key (Some val)) (\<lambda>_.
     and_then (if gc_updated_entries s \<noteq> [] then sync_gc_update_with_store env P s else Ok s) (\<lambda>s1.
     let s2 = s1\<lparr>ds_tables := (ds_tables s1)\<lparr>ts_key_range := update_key_range (ds_key_range s1)\<rparr>\<rparr>
     in if \<not> utf8_valid val then Panic
        else let is_tombstone = (val = TOMB_STONE_MARKER);
                 created_at = clock env (ds_reads s2)
             in and_then (vlog_append (ds_fs s2) (val_log s2) key val created_at is_tombstone) (\<lambda>(fs', vl', v_offset).
                let s3 = s2\<lparr>val_log := vl', ds_tables := (ds_tables s2)\<lparr>ts_fs := fs', ts_reads := ds_reads s2 + 1\<rparr>\<rparr>;
                    entry = Entry_new key v_offset created_at is_tombstone
                in and_then (if is_full (active_memtable s3) HEAD_KEY_SIZE
                             then migrate_memtable_to_read_only env P s3 else Ok s3) (\<lambda>s4.
                   and_then (mt_insert P (active_memtable s4) entry) (\<lambda>active.
                     Ok (s4\<lparr>active_memtable := active,
                            ds_tasks := ds_tasks s4 @ [Gc_Table_Insert (gc_table s4) entry]\<rparr>, True))))))"

section \<open>Reading\<close>

definition get_value_from_vlog :: "platform \<Rightarrow> DataStore \<Rightarrow> ValOffset \<Rightarrow> datetime \<Rightarrow> UserEntry option res" where
  "get_value_from_vlog P s offset created_at =
     and_then (vlog_get P (ds_fs s) (val_log s) offset) (\<lambda>res.
       Ok (case res of
             Some (value, is_tombstone) \<Rightarrow>
               if is_tombstone then None else Some \<lparr>ue_val = value, ue_created_at = created_at\<rparr>
           | None \<Rightarrow> None))"

definition search_gc_entries :: "platform \<Rightarrow> DataStore \<Rightarrow> Key \<Rightarrow> UserEntry option res" where
  "search_gc_entries P s key =
     (case sm_get (gc_updated_entries s) key of
        Some v \<Rightarrow>
          if sv_is_tombstone v then Ok None
          else get_value_from_vlog P s (sv_offset v) (sv_created_at v)
      | None \<Rightarrow> Ok None)"

definition search_key_in_sstables :: "platform \<Rightarrow> DataStore \<Rightarrow> Key \<Rightarrow> Table list \<Rightarrow> UserEntry option res" where
  "search_key_in_sstables P s key ssts =
     and_then (search_ssts P (ds_fs s) ssts key) (\<lambda>(offset, insert_time, is_deleted).
       if found_in_table insert_time default_datetime
       then if is_deleted then Ok None else get_value_from_vlog P s offset insert_time
       else Ok None)"

text \<open>The entry, and the ranges that the search restored on the way.\<close>

definition lookup :: "platform \<Rightarrow> DataStore \<Rightarrow> Key \<Rightarrow> (UserEntry option \<times> (path, Range) hashmap) res" where
  "lookup P s key =
     and_then (validate_size key None) (\<lambda>_.
     and_then (search_gc_entries P s key) (\<lambda>gc_entry.
     case gc_entry of
       Some val \<Rightarrow> Ok (Some val, [])
     | None \<Rightarrow>
         and_then (mt_get P (active_memtable s) key) (\<lambda>active_entry.
         case active_entry of
           Some val \<Rightarrow>
             if sv_is_tombstone val then Ok (None, [])
             else and_then (get_value_from_vlog P s (sv_offset val) (sv_created_at val)) (\<lambda>v. Ok (v, []))
         | None \<Rightarrow>
             and_then (search_read_only P (read_only_memtables s) key) (\<lambda>(offset, insert_time, is_deleted).
             if found_in_table insert_time default_datetime
             then if is_deleted then Ok (None, [])
                  else and_then (get_value_from_vlog P s offset insert_time) (\<lambda>v. Ok (v, []))
             else and_then (filter_sstables_by_key_range P (ds_fs s) (ds_key_range s) key) (\<lambda>(ssts, restored).
                  if ssts = [] then Ok (None, restored)
                  else and_then (search_key_in_sstables P s key ssts) (\<lambda>v. Ok (v, restored)))))))"

text \<open>The ranges are published by a task.\<close>

definition get :: "platform \<Rightarrow> DataStore \<Rightarrow> Key \<Rightarrow> (DataStore \<times> UserEntry option) res" where
  "get P s key =
     and_then (lookup P s key) (\<lambda>(v, restored).
       Ok (if restored \<noteq> [] then s\<lparr>ds_tasks := ds_tasks s @ [Publish_Ranges restored]\<rparr> else s, v))"

definition delete :: "environment \<Rightarrow> platform \<Rightarrow> DataStore \<Rightarrow> Key \<Rightarrow> (DataStore \<times> bool) res" where
  "delete env P s key =
     and_then (validate_size key None) (\<lambda>_.
     and_then (get P s key) (\<lambda>(s', _). put env P s' key TOMB_STONE_MARKER))"

definition update :: "environment \<Rightarrow> platform \<Rightarrow> DataStore \<Rightarrow> Key \<Rightarrow> Value \<Rightarrow> (DataStore \<times> bool) res" where
  "update env P s key value =
     and_then (validate_size key (Some value)) (\<lambda>_.
     and_then (get P s key) (\<lambda>(s', _). put env P s' key value))"

section \<open>Tasks\<close>

definition flusher_of :: "DataStore \<Rightarrow> Flusher" where
  "flusher_of s = flusher_new (read_only_memtables s) (ds_tables s)"

definition with_flusher :: "Flusher \<Rightarrow> DataStore \<Rightarrow> DataStore" where
  "with_flusher f s = s\<lparr>read_only_memtables := read_only_memtable f, ds_tables := fl_tables f\<rparr>"

definition run_task :: "environment \<Rightarrow> platform \<Rightarrow> bg_task \<Rightarrow> DataStore \<Rightarrow> DataStore res" where
  "run_task env P t s =
     (case t of
        Gc_Table_Insert cell entry \<Rightarrow>
          and_then (mt_insert P (gc_tables s ! cell) entry) (\<lambda>mt. Ok (s\<lparr>gc_tables := (gc_tables s)[cell := mt]\<rparr>))
      | Gc_Log_Head head \<Rightarrow> Ok (s\<lparr>gc_log := (gc_log s)\<lparr>head_offset := head\<rparr>\<rparr>)
      | Meta_Write m \<Rightarrow>
          (case meta_write (ds_fs s) m of
             Ok fs' \<Rightarrow> Ok (s\<lparr>ds_tables := (ds_tables s)\<lparr>ts_fs := fs'\<rparr>\<rparr>)
           | Err e \<Rightarrow> Ok s
           | Panic \<Rightarrow> Panic)
      | Flush_Task table_id table \<Rightarrow>
          and_then (flush_handler env (flusher_of s) table_id table) (\<lambda>(f, _). Ok (with_flusher f s))
      | Publish_Ranges restored \<Rightarrow>
          Ok (s\<lparr>ds_tables := (ds_tables s)\<lparr>ts_key_range := publish_restored (ds_key_range s) restored\<rparr>\<rparr>))"

definition store_run_compaction :: "environment \<Rightarrow> platform \<Rightarrow> DataStore \<Rightarrow> DataStore res option" where
  "store_run_compaction env P s =
     map_option (\<lambda>res. and_then res (\<lambda>t. Ok (s\<lparr>ds_tables := t, ds_compactor := (ds_compactor s)\<lparr>reason := Manual\<rparr>\<rparr>)))
       (handle_compaction env P (comp_config (ds_compactor s)) (ds_tables s))"

definition len_of_entries_in_memtable :: "DataStore \<Rightarrow> nat" where
  "len_of_entries_in_memtable s = length (mt_entries (active_memtable s))"

end
