(* ===== verification/Store_Layers.thy ===== *)
theory Store_Layers
  imports Data_Store
begin

text \<open>
  What a read of the store sees: three layers of maps (the active memtable, the read-only memtables, the
  tables on disk), searched in this order. A layered store represents the value log: each layer holds
  entries of the log only, the newest entry of each key is in some layer, and a key is never older in a
  layer than in the ones below. The lemmas say that a search of the layers finds exactly the newest entry,
  and which changes of the layers keep that.
\<close>

section \<open>Entries of the log\<close>

definition sv_millis :: "SkipMapValue \<Rightarrow> int" where
  "sv_millis v = timestamp_millis (sv_created_at v)"

definition vle_millis :: "ValueLogEntry \<Rightarrow> int" where
  "vle_millis e = timestamp_millis (vle_created_at e)"

text \<open>\<open>v\<close> points at the entry \<open>e\<close> of the log, which follows \<open>xs\<close>.\<close>

definition points_at :: "SkipMapValue \<Rightarrow> ValueLogEntry list \<Rightarrow> ValueLogEntry \<Rightarrow> bool" where
  "points_at v xs e \<longleftrightarrow> sv_offset v = log_offset xs \<and> sv_millis v = vle_millis e
     \<and> sv_is_tombstone v = vle_is_tombstone e"

definition logged :: "ValueLogEntry list \<Rightarrow> Key \<Rightarrow> SkipMapValue \<Rightarrow> bool" where
  "logged log k v \<longleftrightarrow> (\<exists>xs e ys. log = xs @ e # ys \<and> vle_key e = k \<and> points_at v xs e)"

definition newest :: "ValueLogEntry list \<Rightarrow> Key \<Rightarrow> SkipMapValue \<Rightarrow> bool" where
  "newest log k v \<longleftrightarrow> (\<exists>xs e ys. log = xs @ e # ys \<and> vle_key e = k \<and> points_at v xs e \<and> k \<notin> vle_key ` set ys)"

text \<open>Later entries of a key have a later time, to the millisecond.\<close>

definition log_ordered :: "ValueLogEntry list \<Rightarrow> bool" where
  "log_ordered log \<longleftrightarrow> sorted_wrt (\<lambda>e e'. vle_key e = vle_key e' \<longrightarrow> vle_millis e < vle_millis e') log"

text \<open>What the log says the store holds for a key.\<close>

definition log_value :: "ValueLogEntry list \<Rightarrow> Key \<Rightarrow> Value option" where
  "log_value log k =
     (case find (\<lambda>e. vle_key e = k) (rev log) of
        None \<Rightarrow> None
      | Some e \<Rightarrow> if vle_is_tombstone e then None else Some (vle_value e))"

lemma log_value_snoc [simp]:
  "log_value (log @ [e]) k =
     (if vle_key e = k then if vle_is_tombstone e then None else Some (vle_value e) else log_value log k)"
  by (simp add: log_value_def)

lemma log_value_at:
  assumes "log = xs @ e # ys" and "vle_key e = k" and "k \<notin> vle_key ` set ys"
  shows "log_value log k = (if vle_is_tombstone e then None else Some (vle_value e))"
proof -
  have "find (\<lambda>e. vle_key e = k) (rev ys) = None"
    using assms(3) by (auto simp: find_None_iff)
  then show ?thesis
    using assms(1,2) by (simp add: log_value_def find_append)
qed

lemma log_value_absent: "k \<notin> vle_key ` set log \<Longrightarrow> log_value log k = None"
proof -
  assume "k \<notin> vle_key ` set log"
  then have "find (\<lambda>e. vle_key e = k) (rev log) = None"
    by (auto simp: find_None_iff)
  then show ?thesis by (simp add: log_value_def)
qed

lemma newest_logged: "newest log k v \<Longrightarrow> logged log k v"
  by (auto simp: newest_def logged_def)

lemma logged_snoc:
  assumes "logged log k v"
  shows "logged (log @ [e]) k v"
proof -
  obtain xs e' ys where "log = xs @ e' # ys" "vle_key e' = k" "points_at v xs e'"
    using assms by (auto simp: logged_def)
  then show ?thesis
    unfolding logged_def by (intro exI [of _ xs] exI [of _ e'] exI [of _ "ys @ [e]"]) simp
qed

lemma newest_snoc_other:
  assumes "newest log k v" and "vle_key e \<noteq> k"
  shows "newest (log @ [e]) k v"
proof -
  obtain xs e' ys where "log = xs @ e' # ys" "vle_key e' = k" "points_at v xs e'" "k \<notin> vle_key ` set ys"
    using assms(1) by (auto simp: newest_def)
  with assms(2) show ?thesis
    unfolding newest_def by (intro exI [of _ xs] exI [of _ e'] exI [of _ "ys @ [e]"]) auto
qed

lemma newest_snoc_same: "vle_key e = k \<Longrightarrow> points_at v log e \<Longrightarrow> newest (log @ [e]) k v"
  unfolding newest_def by (intro exI [of _ log] exI [of _ e] exI [of _ "[]"]) simp

lemma logged_in: "logged log k v \<Longrightarrow> k \<in> vle_key ` set log"
  by (force simp: logged_def)

lemma last_occurrence:
  assumes "k \<in> vle_key ` set log"
  obtains xs e ys where "log = xs @ e # ys" "vle_key e = k" "k \<notin> vle_key ` set ys"
proof -
  have "\<exists>e \<in> set log. vle_key e = k" using assms by auto
  from split_list_last_prop [OF this] obtain xs e ys
    where "log = xs @ e # ys" "vle_key e = k" "\<forall>x \<in> set ys. vle_key x \<noteq> k" by blast
  then show thesis by (intro that) auto
qed

lemma logged_millis_le:
  assumes "log_ordered log" and "log = xs @ e # ys" and "vle_key e = k" and "k \<notin> vle_key ` set ys"
    and "logged log k w"
  shows "sv_millis w < vle_millis e \<or> points_at w xs e"
proof -
  obtain xs' e' ys' where w: "log = xs' @ e' # ys'" "vle_key e' = k" "points_at w xs' e'"
    using assms(5) by (auto simp: logged_def)
  from w(1) assms(2) have "xs' @ e' # ys' = xs @ e # ys" by simp
  then consider us where "xs = xs' @ e' # us" | "xs' = xs" "e' = e" | us where "xs' = xs @ e # us"
    by (auto simp: append_eq_append_conv2 Cons_eq_append_conv append_eq_Cons_conv)
  then show ?thesis
  proof cases
    case 1
    then have "vle_millis e' < vle_millis e"
      using assms(1-3) w(2) by (auto simp: log_ordered_def sorted_wrt_append)
    with w(3) show ?thesis by (simp add: points_at_def)
  next
    case 2
    with w(3) show ?thesis by simp
  next
    case 3
    then have "e' \<in> set ys" using w(1) assms(2) by simp
    with assms(4) w(2) show ?thesis by auto
  qed
qed

lemma logged_newest:
  assumes "log_ordered log" and "newest log k v" and "logged log k w"
  shows "sv_millis w \<le> sv_millis v" and "sv_millis v \<le> sv_millis w \<Longrightarrow> newest log k w"
proof -
  obtain xs e ys where v: "log = xs @ e # ys" "vle_key e = k" "points_at v xs e" "k \<notin> vle_key ` set ys"
    using assms(2) by (auto simp: newest_def)
  from logged_millis_le [OF assms(1) v(1,2,4) assms(3)]
  have w: "sv_millis w < vle_millis e \<or> points_at w xs e" .
  show "sv_millis w \<le> sv_millis v"
    using w v(3) by (auto simp: points_at_def)
  show "newest log k w" if "sv_millis v \<le> sv_millis w"
    using w v that by (auto simp: points_at_def newest_def)
qed

section \<open>Layers\<close>

type_synonym layer = "(Key \<rightharpoonup> SkipMapValue) set"

definition no_newer :: "(Key \<rightharpoonup> SkipMapValue) \<Rightarrow> (Key \<rightharpoonup> SkipMapValue) \<Rightarrow> bool" where
  "no_newer X Y \<longleftrightarrow> (\<forall>k v w. X k = Some v \<longrightarrow> Y k = Some w \<longrightarrow> sv_millis v \<le> sv_millis w)"

definition layered :: "layer list \<Rightarrow> bool" where
  "layered Ls = sorted_wrt (\<lambda>A B. \<forall>X \<in> A. \<forall>Y \<in> B. no_newer Y X) Ls"

text \<open>The keys under which the store itself keeps entries.\<close>

definition reserved :: "Key set" where
  "reserved = {HEAD_ENTRY_KEY, TAIL_ENTRY_KEY}"

lemma head_reserved [simp]: "HEAD_ENTRY_KEY \<in> reserved" "TAIL_ENTRY_KEY \<in> reserved"
  by (simp_all add: reserved_def)

definition represents :: "layer list \<Rightarrow> ValueLogEntry list \<Rightarrow> bool" where
  "represents Ls log \<longleftrightarrow> layered Ls
     \<and> (\<forall>X \<in> \<Union> (set Ls). \<forall>k v. X k = Some v \<longrightarrow> logged log k v)
     \<and> (\<forall>k \<in> vle_key ` set log. k \<notin> reserved \<longrightarrow> (\<exists>X \<in> \<Union> (set Ls). \<exists>v. X k = Some v \<and> newest log k v))"

lemma represents_read:
  assumes "represents (Ls @ A # Rs) log" and "log_ordered log" and "k \<notin> reserved"
    and "\<forall>X \<in> \<Union> (set Ls). X k = None"
    and "X \<in> A" and "X k = Some v" and "\<forall>Y \<in> A. \<forall>w. Y k = Some w \<longrightarrow> sv_millis w \<le> sv_millis v"
  shows "newest log k v"
proof -
  have v: "logged log k v"
    using assms(1,5,6) by (auto simp: represents_def)
  obtain Y w where w: "Y \<in> \<Union> (set (Ls @ A # Rs))" "Y k = Some w" "newest log k w"
    using assms(1,3) logged_in [OF v] by (meson represents_def)
  have "Y \<notin> \<Union> (set Ls)"
    using assms(4) w(2) by force
  then consider "Y \<in> A" | "Y \<in> \<Union> (set Rs)"
    using w(1) by auto
  then have "sv_millis w \<le> sv_millis v"
  proof cases
    case 1
    with assms(7) w(2) show ?thesis by blast
  next
    case 2
    then have "no_newer Y X"
      using assms(1,5) by (auto simp: represents_def layered_def sorted_wrt_append)
    with w(2) assms(6) show ?thesis by (auto simp: no_newer_def)
  qed
  with logged_newest [OF assms(2) w(3) v] show ?thesis by blast
qed

lemma represents_absent:
  assumes "represents Ls log" and "k \<notin> reserved" and "\<forall>X \<in> \<Union> (set Ls). X k = None"
  shows "k \<notin> vle_key ` set log"
  using assms by (force simp: represents_def)

section \<open>Changes of the layers\<close>

text \<open>A write: the entry goes to the end of the log and to the topmost map.\<close>

lemma represents_write:
  assumes "represents ({X} # Ls) log" and "points_at v log e"
    and "\<forall>e' \<in> set log. vle_key e' = vle_key e \<longrightarrow> vle_millis e' \<le> vle_millis e"
  shows "represents ({X(vle_key e \<mapsto> v)} # Ls) (log @ [e])"
proof -
  have le: "sv_millis w \<le> sv_millis v" if "Y \<in> \<Union> (set Ls)" "Y (vle_key e) = Some w" for Y w
  proof -
    have "logged log (vle_key e) w"
      using assms(1) that by (auto simp: represents_def)
    then obtain xs e' ys where "log = xs @ e' # ys" "vle_key e' = vle_key e" "points_at w xs e'"
      by (auto simp: logged_def)
    with assms(2,3) show ?thesis by (simp add: points_at_def)
  qed
  have "layered ({X(vle_key e \<mapsto> v)} # Ls)"
    using assms(1) le by (auto simp: represents_def layered_def no_newer_def)
  moreover have "logged (log @ [e]) k w" if "Y \<in> \<Union> (set ({X(vle_key e \<mapsto> v)} # Ls))" and "Y k = Some w" for Y k w
  proof (cases "Y = X(vle_key e \<mapsto> v) \<and> k = vle_key e")
    case True
    then have "w = v" using that(2) by simp
    with True assms(2) newest_logged [OF newest_snoc_same, of e k v log] show ?thesis by simp
  next
    case False
    then have "logged log k w"
      using that assms(1) by (auto simp: represents_def split: if_splits)
    then show ?thesis by (rule logged_snoc)
  qed
  moreover have "\<exists>Y \<in> \<Union> (set ({X(vle_key e \<mapsto> v)} # Ls)). \<exists>w. Y k = Some w \<and> newest (log @ [e]) k w"
    if k: "k \<in> vle_key ` set (log @ [e])" "k \<notin> reserved" for k
  proof (cases "k = vle_key e")
    case True
    with assms(2) newest_snoc_same [of e k v log] show ?thesis by auto
  next
    case False
    then have "k \<in> vle_key ` set log" using k(1) by auto
    then obtain Y w where "Y \<in> \<Union> (set ({X} # Ls))" "Y k = Some w" "newest log k w"
      using assms(1) k(2) by (meson represents_def)
    with False newest_snoc_other [of log k w e] show ?thesis by auto
  qed
  ultimately show ?thesis by (simp add: represents_def)
qed

text \<open>The topmost map joins the layer below it.\<close>

lemma represents_push:
  assumes "represents ({X} # A # Ls) log"
  shows "represents ({Map.empty} # insert X A # Ls) log"
  using assms by (auto simp: represents_def layered_def no_newer_def)

text \<open>Nothing of a key of the store itself is a matter of the client.\<close>

lemma represents_reserved:
  assumes "represents Ls log" and "vle_key e \<in> reserved"
  shows "represents Ls (log @ [e])"
  unfolding represents_def
proof (intro conjI ballI allI impI)
  show "layered Ls" using assms(1) by (simp add: represents_def)
next
  fix X k v assume "X \<in> \<Union> (set Ls)" "X k = Some v"
  then have "logged log k v" using assms(1) by (auto simp: represents_def)
  then obtain xs e' ys where "log = xs @ e' # ys" "vle_key e' = k" "points_at v xs e'" by (auto simp: logged_def)
  then show "logged (log @ [e]) k v"
    unfolding logged_def by (intro exI [of _ xs] exI [of _ e'] exI [of _ "ys @ [e]"]) simp
next
  fix k assume "k \<in> vle_key ` set (log @ [e])" "k \<notin> reserved"
  with assms have "k \<noteq> vle_key e" "k \<in> vle_key ` set log" by auto
  then obtain X v where X: "X \<in> \<Union> (set Ls)" "X k = Some v" "newest log k v"
    using assms(1) \<open>k \<notin> reserved\<close> unfolding represents_def by blast
  then obtain xs e' ys where "log = xs @ e' # ys" "vle_key e' = k" "points_at v xs e'" "k \<notin> vle_key ` set ys"
    by (auto simp: newest_def)
  with \<open>k \<noteq> vle_key e\<close> have "newest (log @ [e]) k v"
    unfolding newest_def by (intro exI [of _ xs] exI [of _ e'] exI [of _ "ys @ [e]"]) auto
  with X show "\<exists>X \<in> \<Union> (set Ls). \<exists>v. X k = Some v \<and> newest (log @ [e]) k v" by blast
qed

text \<open>A map of the second layer sinks into the third.\<close>

lemma represents_sink:
  assumes "represents [A, insert X B, C] log" and "\<forall>Y \<in> B. no_newer X Y"
  shows "represents [A, B, insert X C] log"
proof -
  have "layered [A, B, insert X C]"
    using assms by (auto simp: represents_def layered_def)
  moreover have "\<Union> (set [A, B, insert X C]) = \<Union> (set [A, insert X B, C])" by auto
  ultimately show ?thesis
    using assms(1) by (simp only: represents_def) simp
qed

section \<open>What a part of the layers has\<close>

text \<open>
  The maps \<open>L\<close> have entries of the log \<open>base\<close> only, and the maps \<open>T\<close> have the newest entry of each of its keys.
\<close>

definition based :: "layer \<Rightarrow> layer \<Rightarrow> ValueLogEntry list \<Rightarrow> bool" where
  "based L T base \<longleftrightarrow> (\<forall>X \<in> L. \<forall>k v. X k = Some v \<longrightarrow> logged base k v)
     \<and> (\<forall>k \<in> vle_key ` set base. k \<notin> reserved \<longrightarrow> (\<exists>X \<in> T. \<exists>v. X k = Some v \<and> newest base k v))"

lemma based_mono: "based L T base \<Longrightarrow> L' \<subseteq> L \<Longrightarrow> T \<subseteq> T' \<Longrightarrow> based L' T' base"
  unfolding based_def by (meson subsetD)

lemma represents_based: "represents Ls log \<Longrightarrow> based (\<Union> (set Ls)) (\<Union> (set Ls)) log"
  by (simp add: represents_def based_def)

lemma based_represents:
  assumes "based L T base" and "T \<subseteq> L"
  shows "represents [{Map.empty}, {}, T] base"
proof -
  have "based T T base" using assms by (intro based_mono [OF assms(1)]) auto
  then show ?thesis by (auto simp: based_def represents_def layered_def no_newer_def)
qed

end
