(* ===== verification/Store_Reads.thy ===== *)
theory Store_Reads
  imports Store_Layers
begin

text \<open>
  A read of the store over its layers: if the memtables are well formed, the key ranges describe the tables
  on disk and the layers represent the log, then the read returns the value of the newest entry that the
  log has for the key.
\<close>

section \<open>Searching one layer\<close>

definition pick :: "SkipMapValue option \<Rightarrow> search_state \<Rightarrow> search_state" where
  "pick m = (\<lambda>(offset, insert_time, is_deleted).
     case m of
       Some v \<Rightarrow> if insert_time < sv_created_at v then (sv_offset v, sv_created_at v, sv_is_tombstone v)
                 else (offset, insert_time, is_deleted)
     | None \<Rightarrow> (offset, insert_time, is_deleted))"

definition search_result :: "SkipMapValue \<Rightarrow> search_state" where
  "search_result v = (sv_offset v, sv_created_at v, sv_is_tombstone v)"

lemma pick_None [simp]: "pick None st = st"
  by (cases st) (simp add: pick_def)

lemma pick_Some: "pick (Some v) st = (if fst (snd st) < sv_created_at v then search_result v else st)"
  by (cases st) (simp add: pick_def search_result_def)

lemma fold_pick:
  "fold pick vs st = st \<and> (\<forall>w. Some w \<in> set vs \<longrightarrow> sv_created_at w \<le> fst (snd st))
   \<or> (\<exists>v. Some v \<in> set vs \<and> fold pick vs st = search_result v \<and> fst (snd st) < sv_created_at v
        \<and> (\<forall>w. Some w \<in> set vs \<longrightarrow> sv_created_at w \<le> sv_created_at v))"
proof (induction vs arbitrary: st)
  case (Cons m vs)
  show ?case
  proof (cases m)
    case None
    with Cons.IH [of st] show ?thesis by auto
  next
    case (Some u)
    show ?thesis
    proof (cases "fst (snd st) < sv_created_at u")
      case True
      then have p: "fold pick (m # vs) st = fold pick vs (search_result u)"
        by (simp add: Some pick_Some)
      have t: "fst (snd (search_result u)) = sv_created_at u" by (simp add: search_result_def)
      from Cons.IH [of "search_result u"] show ?thesis
        unfolding p t using True by (auto simp: Some)
    next
      case False
      then have p: "fold pick (m # vs) st = fold pick vs st"
        by (simp add: Some pick_Some)
      from Cons.IH [of st] show ?thesis
        unfolding p using False by (auto simp: Some)
    qed
  qed
qed simp

lemma search_read_only_eq:
  assumes "\<forall>(i, m) \<in> set mts. mt_wf P m"
  shows "search_read_only P mts key =
    Ok (fold pick (map (\<lambda>(i, m). sm_get (mt_entries m) key) mts) (VLOG_START_OFFSET, default_datetime, False))"
proof -
  have "fold_res (\<lambda>(_, table) (offset, insert_time, is_deleted).
         and_then (mt_get P table key) (\<lambda>v.
           Ok (case v of
                 Some value \<Rightarrow>
                   if insert_time < sv_created_at value
                   then (sv_offset value, sv_created_at value, sv_is_tombstone value)
                   else (offset, insert_time, is_deleted)
               | None \<Rightarrow> (offset, insert_time, is_deleted)))) mts st =
      Ok (fold pick (map (\<lambda>(i, m). sm_get (mt_entries m) key) mts) st)" for st
    using assms
  proof (induction mts arbitrary: st)
    case (Cons e mts)
    obtain i m where e: "e = (i, m)" by force
    have "mt_get P m key = Ok (sm_get (mt_entries m) key)"
      using Cons.prems by (intro mt_get_eq) (simp add: e)
    with Cons show ?case
      by (cases st) (simp add: e pick_def del: and_then_eq_Ok)
  qed simp
  then show ?thesis by (simp add: search_read_only_def)
qed

lemma search_ssts_eq:
  assumes "\<forall>t \<in> set ts. table_on_disk P fs t (C (t_dir t))"
  shows "search_ssts P fs ts key =
    Ok (fold pick (map (\<lambda>t. map_option stored_value (sm_get (C (t_dir t)) key)) ts)
      (VLOG_START_OFFSET, default_datetime, False))"
proof -
  define f where "f = (\<lambda>sst (offset, insert_time, is_deleted).
         and_then (index_get P fs (index_new (index_file sst)) key) (\<lambda>block_handle.
           case block_handle of
             None \<Rightarrow> Ok (offset, insert_time, is_deleted)
           | Some handle \<Rightarrow>
               and_then (table_get P fs sst handle key) (\<lambda>sst_res.
                 Ok (case sst_res of
                       Some (val_offset, created_at, is_tombstone) \<Rightarrow>
                         if insert_time < created_at then (val_offset, created_at, is_tombstone)
                         else (offset, insert_time, is_deleted)
                     | None \<Rightarrow> (offset, insert_time, is_deleted)))))"
  have "f t st = Ok (pick (map_option stored_value (sm_get (C (t_dir t)) key)) st)" if t: "t \<in> set ts" for t st
  proof -
    obtain r where "index_get P fs (index_new (index_file t)) key = Ok r"
      "case r of None \<Rightarrow> sm_get (C (t_dir t)) key = None
       | Some off \<Rightarrow> table_get P fs t off key = Ok (map_option stored_tuple (sm_get (C (t_dir t)) key))"
      using table_lookup [of P fs t "C (t_dir t)" key] assms t by blast
    then show ?thesis
      by (cases st) (auto simp: f_def pick_def stored_tuple_def stored_value_def split: option.splits)
  qed
  then have "fold_res f ts st = Ok (fold pick (map (\<lambda>t. map_option stored_value (sm_get (C (t_dir t)) key)) ts) st)" for st
    by (induction ts arbitrary: st) auto
  then show ?thesis by (simp add: search_ssts_def f_def)
qed

section \<open>The layers of a store\<close>

text \<open>
  A memtable that became read-only has an entry for the head of the log under a key of its own, which is not
  an entry of the log: what a reader finds under that key is left out.
\<close>

definition user_map :: "entries \<Rightarrow> Key \<rightharpoonup> SkipMapValue" where
  "user_map es = (\<lambda>k. if k \<in> reserved then None else sm_get es k)"

definition sst_dirs :: "KeyRange \<Rightarrow> path set" where
  "sst_dirs kr = fst ` set (key_ranges kr) \<union> fst ` set (restored_ranges kr)"

definition layers :: "(path \<Rightarrow> entries) \<Rightarrow> DataStore \<Rightarrow> layer list" where
  "layers C s = [{user_map (mt_entries (active_memtable s))},
     (\<lambda>(i, m). user_map (mt_entries m)) ` set (read_only_memtables s),
     (\<lambda>d. user_map (C d)) ` sst_dirs (ds_key_range s)]"

text \<open>
  What a read relies on. Every range that waits to be merged belongs to a table that the key ranges have.
\<close>

definition readable :: "platform \<Rightarrow> (path \<Rightarrow> entries) \<Rightarrow> DataStore \<Rightarrow> ValueLogEntry list \<Rightarrow> bool" where
  "readable P C s log \<longleftrightarrow> gc_updated_entries s = [] \<and> vlog_inv P (ds_fs s, val_log s) log
     \<and> log_ordered log \<and> log_offset log < 2 ^ 32 \<and> (\<forall>e \<in> set log. 0 < vle_millis e)
     \<and> mt_wf P (active_memtable s) \<and> (\<forall>(i, m) \<in> set (read_only_memtables s). mt_wf P m)
     \<and> kr_ok P (ds_fs s) C (ds_key_range s)
     \<and> fst ` set (restored_ranges (ds_key_range s)) \<subseteq> fst ` set (key_ranges (ds_key_range s))"

lemma get_newest_value:
  assumes "vlog_inv P (ds_fs s, val_log s) log" and "newest log k v"
  shows "\<exists>r. get_value_from_vlog P s (sv_offset v) t = Ok r \<and> map_option ue_val r = log_value log k"
    and "sv_is_tombstone v \<Longrightarrow> log_value log k = None"
proof -
  obtain xs e ys where e: "log = xs @ e # ys" "vle_key e = k" "points_at v xs e" "k \<notin> vle_key ` set ys"
    using assms(2) by (auto simp: newest_def)
  have "vlog_get P (ds_fs s) (val_log s) (sv_offset v) = Ok (Some (vle_value e, vle_is_tombstone e))"
    using vlog_get_inv [of P "ds_fs s" "val_log s" xs e ys] assms(1) e(1,3) by (simp add: points_at_def)
  then show "\<exists>r. get_value_from_vlog P s (sv_offset v) t = Ok r \<and> map_option ue_val r = log_value log k"
    using log_value_at [OF e(1,2,4)] by (simp add: get_value_from_vlog_def)
  show "sv_is_tombstone v \<Longrightarrow> log_value log k = None"
    using log_value_at [OF e(1,2,4)] e(3) by (simp add: points_at_def)
qed

lemma logged_positive:
  assumes "logged log k v" and "\<forall>e \<in> set log. 0 < vle_millis e" and "log_offset log < 2 ^ 32"
  shows "0 < sv_millis v" and "sv_offset v < 2 ^ 32"
proof -
  obtain xs e ys where e: "log = xs @ e # ys" "points_at v xs e"
    using assms(1) by (auto simp: logged_def)
  show "0 < sv_millis v"
    using e assms(2) by (auto simp: points_at_def)
  have "log_offset xs \<le> log_offset log" by (simp add: e(1))
  then show "sv_offset v < 2 ^ 32"
    using e(2) assms(3) by (simp add: points_at_def)
qed

lemma millis_mono: "s \<le> t \<Longrightarrow> timestamp_millis s \<le> timestamp_millis t"
  by (simp add: timestamp_millis_def zdiv_mono1)

lemma millis_pos: "0 < timestamp_millis t \<Longrightarrow> 0 < t"
  by (metis linorder_not_less millis_mono timestamp_millis_def div_0 order.strict_iff_not)

lemma truncate_pos: "0 < timestamp_millis t \<Longrightarrow> 0 < truncate_millis t"
  by (simp add: truncate_millis_def)


text \<open>The newest value that a layer has for a key, as the search of the layer returns it.\<close>

lemma pick_layer:
  assumes "\<And>v. Some v \<in> set vs \<Longrightarrow> 0 < sv_millis v"
  obtains (none) "\<forall>m \<in> set vs. m = None" "fold pick vs (off, default_datetime, del) = (off, default_datetime, del)"
  | (some) v where "Some v \<in> set vs" "fold pick vs (off, default_datetime, del) = search_result v"
      "default_datetime < sv_created_at v" "\<And>w. Some w \<in> set vs \<Longrightarrow> sv_millis w \<le> sv_millis v"
proof -
  consider "fold pick vs (off, default_datetime, del) = (off, default_datetime, del)"
      "\<forall>w. Some w \<in> set vs \<longrightarrow> sv_created_at w \<le> 0"
    | v where "Some v \<in> set vs" "fold pick vs (off, default_datetime, del) = search_result v"
      "default_datetime < sv_created_at v" "\<forall>w. Some w \<in> set vs \<longrightarrow> sv_created_at w \<le> sv_created_at v"
    using fold_pick [of vs "(off, default_datetime, del)"] by (auto simp: default_datetime_def)
  then show thesis
  proof cases
    case 1
    have "m = None" if "m \<in> set vs" for m
      using assms that 1(2) millis_pos by (cases m) (force simp: sv_millis_def)+
    with 1(1) show thesis by (intro none) blast+
  next
    case 2
    then show thesis by (intro some [of v]) (auto simp: sv_millis_def intro: millis_mono)
  qed
qed

lemma search_tables:
  assumes rd: "readable P C s log" and rp: "represents (layers C s) log" and k: "k \<notin> reserved"
    and up: "user_map (mt_entries (active_memtable s)) k = None"
      "\<forall>(i, m) \<in> set (read_only_memtables s). user_map (mt_entries m) k = None"
    and ts: "\<forall>t \<in> set ts. table_on_disk P (ds_fs s) t (C (t_dir t)) \<and> t_dir t \<in> sst_dirs (ds_key_range s)"
      "\<forall>d \<in> sst_dirs (ds_key_range s). sm_get (C d) k \<noteq> None \<longrightarrow> (\<exists>t \<in> set ts. t_dir t = d)"
  shows "\<exists>r. search_key_in_sstables P s k ts = Ok r \<and> map_option ue_val r = log_value log k"
proof -
  let ?T = "(\<lambda>d. user_map (C d)) ` sst_dirs (ds_key_range s)"
  let ?vs = "map (\<lambda>t. map_option stored_value (sm_get (C (t_dir t)) k)) ts"
  have lay: "represents ([{user_map (mt_entries (active_memtable s))},
      (\<lambda>(i, m). user_map (mt_entries m)) ` set (read_only_memtables s)] @ ?T # []) log"
    using rp by (simp add: layers_def)
  have ord: "log_ordered log" and vl: "vlog_inv P (ds_fs s, val_log s) log"
    and pos: "\<forall>e \<in> set log. 0 < vle_millis e" "log_offset log < 2 ^ 32"
    using rd by (auto simp: readable_def)
  have logd: "logged log k v" if "d \<in> sst_dirs (ds_key_range s)" "sm_get (C d) k = Some v" for d v
  proof -
    have "user_map (C d) \<in> \<Union> (set (layers C s))" "user_map (C d) k = Some v"
      using that k by (simp_all add: layers_def user_map_def)
    with rp show ?thesis by (simp only: represents_def)
  qed
  have st: "sv_millis (stored_value v) = sv_millis v" for v
    by (simp add: stored_value_def sv_millis_def)
  have srch: "search_ssts P (ds_fs s) ts k = Ok (fold pick ?vs (VLOG_START_OFFSET, default_datetime, False))"
    using ts(1) by (intro search_ssts_eq) blast
  have posv: "0 < sv_millis v" if "Some v \<in> set ?vs" for v
    using that ts(1) logd logged_positive [OF _ pos] st by (fastforce simp: map_option_case split: option.splits)
  show ?thesis
  proof (cases rule: pick_layer [of ?vs VLOG_START_OFFSET False, OF posv, consumes 0, case_names _ none some])
    case none
    have "user_map (C d) k = None" if "d \<in> sst_dirs (ds_key_range s)" for d
      using none(1) ts(2) that by (auto simp: user_map_def)
    then have "k \<notin> vle_key ` set log"
      using up by (intro represents_absent [OF rp k]) (auto simp: layers_def)
    then show ?thesis
      using srch none(2) by (simp add: search_key_in_sstables_def found_in_table_def log_value_absent)
  next
    case (some v)
    from some(1) obtain t where "t \<in> set ts" "map_option stored_value (sm_get (C (t_dir t)) k) = Some v"
      unfolding set_map image_iff by metis
    then obtain u where t: "t \<in> set ts" "sm_get (C (t_dir t)) k = Some u" "v = stored_value u"
      by auto
    have d: "t_dir t \<in> sst_dirs (ds_key_range s)" using ts(1) t(1) by blast
    have "newest log k u"
    proof (rule represents_read [OF lay ord k])
      show "\<forall>X \<in> \<Union> (set [{user_map (mt_entries (active_memtable s))},
          (\<lambda>(i, m). user_map (mt_entries m)) ` set (read_only_memtables s)]). X k = None"
        using up by auto
      show "user_map (C (t_dir t)) \<in> ?T" using d by blast
      show "user_map (C (t_dir t)) k = Some u" using t(2) k by (simp add: user_map_def)
      show "\<forall>Y \<in> ?T. \<forall>w. Y k = Some w \<longrightarrow> sv_millis w \<le> sv_millis u"
      proof clarify
        fix d w assume d: "d \<in> sst_dirs (ds_key_range s)" and w: "user_map (C d) k = Some w"
        then have w': "sm_get (C d) k = Some w" using k by (simp add: user_map_def)
        with ts(2) d obtain t' where "t' \<in> set ts" "t_dir t' = d" by auto
        with w' have "Some (stored_value w) \<in> set ?vs" by force
        from some(4) [OF this] show "sv_millis w \<le> sv_millis u" by (simp add: st t(3))
      qed
    qed
    note val = get_newest_value [OF vl this]
    have "sv_offset v = sv_offset u" "sv_is_tombstone v = sv_is_tombstone u"
      using logged_positive(2) [OF logd [OF d t(2)] pos] by (simp_all add: t(3) stored_value_def)
    then show ?thesis
      using srch some(2,3) val
      by (auto simp: search_key_in_sstables_def found_in_table_def search_result_def)
  qed
qed


lemma search_memtables:
  assumes rd: "readable P C s log" and rp: "represents (layers C s) log" and k: "k \<notin> reserved"
    and up: "user_map (mt_entries (active_memtable s)) k = None"
  obtains (none) "\<forall>(i, m) \<in> set (read_only_memtables s). user_map (mt_entries m) k = None"
      "search_read_only P (read_only_memtables s) k = Ok (VLOG_START_OFFSET, default_datetime, False)"
  | (some) v where "search_read_only P (read_only_memtables s) k = Ok (search_result v)"
      "default_datetime < sv_created_at v" "newest log k v"
proof -
  let ?R = "(\<lambda>(i, m). user_map (mt_entries m)) ` set (read_only_memtables s)"
  let ?vs = "map (\<lambda>(i, m). sm_get (mt_entries m) k) (read_only_memtables s)"
  have lay: "represents ([{user_map (mt_entries (active_memtable s))}] @ ?R
      # [(\<lambda>d. user_map (C d)) ` sst_dirs (ds_key_range s)]) log"
    using rp by (simp add: layers_def)
  have ord: "log_ordered log" and pos: "\<forall>e \<in> set log. 0 < vle_millis e" "log_offset log < 2 ^ 32"
    and wf: "\<forall>(i, m) \<in> set (read_only_memtables s). mt_wf P m"
    using rd by (auto simp: readable_def)
  have in_R: "\<exists>X \<in> ?R. X k = Some v" if "Some v \<in> set ?vs" for v
  proof -
    from that obtain i m where "(i, m) \<in> set (read_only_memtables s)" "sm_get (mt_entries m) k = Some v" by fastforce
    with k show ?thesis by (intro bexI [of _ "user_map (mt_entries m)"]) (auto simp: user_map_def)
  qed
  have posv: "0 < sv_millis v" if "Some v \<in> set ?vs" for v
  proof -
    from in_R [OF that] obtain X where "X \<in> \<Union> (set (layers C s))" "X k = Some v" by (auto simp: layers_def)
    then have "logged log k v" using rp unfolding represents_def by blast
    from logged_positive(1) [OF this pos] show ?thesis .
  qed
  note srch = search_read_only_eq [OF wf, of k]
  show thesis
  proof (cases rule: pick_layer [of ?vs VLOG_START_OFFSET False, OF posv, consumes 0, case_names _ none some])
    case none
    then have "\<forall>(i, m) \<in> set (read_only_memtables s). user_map (mt_entries m) k = None"
      by (fastforce simp: user_map_def)
    with srch none(2) that(1) show thesis by simp
  next
    case (some v)
    from in_R [OF some(1)] obtain X where X: "X \<in> ?R" "X k = Some v" by blast
    have "newest log k v"
    proof (rule represents_read [OF lay ord k _ X])
      show "\<forall>Y \<in> ?R. \<forall>w. Y k = Some w \<longrightarrow> sv_millis w \<le> sv_millis v"
      proof clarify
        fix i m w assume "(i, m) \<in> set (read_only_memtables s)" "user_map (mt_entries m) k = Some w"
        then have "Some w \<in> set ?vs" using k by (force simp: user_map_def)
        then show "sv_millis w \<le> sv_millis v" by (rule some(4))
      qed
    qed (use up in simp)
    with srch some(2,3) that(2) show thesis by simp
  qed
qed

text \<open>The read: the value of the last entry of the log, and restored ranges that can be published.\<close>

lemma lookup_readable:
  assumes rd: "readable P C s log" and rp: "represents (layers C s) log" and k: "k \<notin> reserved"
    and size: "validate_size k None = Ok ()"
  shows "\<exists>r m. lookup P s k = Ok (r, m) \<and> map_option ue_val r = log_value log k
    \<and> (\<forall>e \<in> set m. restored_ok P (ds_fs s) C e)"
proof -
  have gc: "search_gc_entries P s k = Ok None"
    using rd by (simp add: search_gc_entries_def readable_def)
  have act: "mt_get P (active_memtable s) k = Ok (sm_get (mt_entries (active_memtable s)) k)"
    using rd by (intro mt_get_eq) (simp add: readable_def)
  have vl: "vlog_inv P (ds_fs s, val_log s) log" and kr: "kr_ok P (ds_fs s) C (ds_key_range s)"
    and sub: "fst ` set (restored_ranges (ds_key_range s)) \<subseteq> fst ` set (key_ranges (ds_key_range s))"
    and ord: "log_ordered log"
    using rd by (auto simp: readable_def)
  show ?thesis
  proof (cases "sm_get (mt_entries (active_memtable s)) k")
    case (Some v)
    have "represents ([] @ {user_map (mt_entries (active_memtable s))} # tl (layers C s)) log"
      using rp by (simp add: layers_def)
    then have "newest log k v"
      by (rule represents_read [OF _ ord k, where X = "user_map (mt_entries (active_memtable s))"])
        (use Some k in \<open>auto simp: user_map_def\<close>)
    from get_newest_value [OF vl this] show ?thesis
      using gc act Some size by (auto simp: lookup_def del: and_then_eq_Ok)
  next
    case None
    then have up: "user_map (mt_entries (active_memtable s)) k = None" by (simp add: user_map_def)
    show ?thesis
    proof (cases rule: search_memtables [OF rd rp k up, consumes 0, case_names none some])
      case (some v)
      from get_newest_value [OF vl some(3)] show ?thesis
        using gc act None size some(1,2)
        by (auto simp: lookup_def found_in_table_def search_result_def del: and_then_eq_Ok)
    next
      case none
      obtain ts m where ts: "filter_sstables_by_key_range P (ds_fs s) (ds_key_range s) k = Ok (ts, m)"
        "\<forall>t \<in> set ts. serves P (ds_fs s) C t \<and> t_dir t \<in> sst_dirs (ds_key_range s)"
        "\<forall>d \<in> fst ` set (key_ranges (ds_key_range s)). sm_get (C d) k \<noteq> None \<longrightarrow> (\<exists>t \<in> set ts. t_dir t = d)"
        "\<forall>e \<in> set m. restored_ok P (ds_fs s) C e"
        using filter_complete [OF kr, of k] unfolding sst_dirs_def by blast
      have dirs: "sst_dirs (ds_key_range s) = fst ` set (key_ranges (ds_key_range s))"
        using sub by (auto simp: sst_dirs_def)
      obtain r where r: "search_key_in_sstables P s k ts = Ok r" "map_option ue_val r = log_value log k"
        using search_tables [OF rd rp k up none(1), of ts] ts(2,3) unfolding dirs serves_def by blast
      have "ts = [] \<longrightarrow> r = None"
        using r(1) by (auto simp: search_key_in_sstables_def search_ssts_def found_in_table_def)
      then show ?thesis
        using gc act None size none(2) ts(1,4) r
        by (auto simp: lookup_def found_in_table_def del: and_then_eq_Ok)
    qed
  qed
qed

end
