(* ===== verification/Store_Config.thy ===== *)
theory Store_Config
  imports Data_Store
begin

text \<open>
  The names of keyspaces (\<^verbatim>\<open>src/db/keyspace.rs\<close>), the default configuration and the builder methods with which a
  client changes the configuration of an open store (\<^verbatim>\<open>src/cfg/config.rs\<close>). An assertion that fails is \<open>Panic\<close>.
\<close>

section \<open>Keyspace names\<close>

text \<open>A name is its UTF-8 bytes; a character outside ASCII consists of bytes that are not valid characters.\<close>

definition VALID_CHARACTERS :: string where
  "VALID_CHARACTERS = ''abcdefghijklmnopqrstuvwxyzABCDEFGHIJKLMNOPQRSTUVWXYZ0123456789_-''"

definition is_valid_keyspace_name :: "string \<Rightarrow> bool" where
  "is_valid_keyspace_name s \<longleftrightarrow>
     (if s = [] then False
      else if MAX_KEY_SPACE_SIZE < length s then False
      else if \<not> length s < 2 ^ 8 then False
      else list_all (\<lambda>c. c \<in> set VALID_CHARACTERS) s)"

section \<open>The default configuration\<close>

definition DEFAULT_DB_NAME :: string where "DEFAULT_DB_NAME = ''velarix''"
definition DEFAULT_FALSE_POSITIVE_RATE :: f64 where
  [constants]: "DEFAULT_FALSE_POSITIVE_RATE = 0x3F1A36E2EB1C432D" \<comment> \<open>\<^verbatim>\<open>1e-4\<close>\<close>
definition DEFAULT_TOMBSTONE_COMPACTION_INTERVAL :: u64 where
  [constants]: "DEFAULT_TOMBSTONE_COMPACTION_INTERVAL = 5 * 86400000"
definition DEFAULT_COMPACTION_INTERVAL :: u64 where [constants]: "DEFAULT_COMPACTION_INTERVAL = 1000 * 60 * 60"
definition DEFAULT_COMPACTION_FLUSH_LISTNER_INTERVAL :: u64 where
  [constants]: "DEFAULT_COMPACTION_FLUSH_LISTNER_INTERVAL = 1000 * 60 * 5"
definition DEFAULT_ONLINE_GC_INTERVAL :: u64 where [constants]: "DEFAULT_ONLINE_GC_INTERVAL = 10 * 1000 * 60 * 60"
definition ENTRY_TTL :: u64 where [constants]: "ENTRY_TTL = 365 * 86400000"
definition DEFAULT_TOMBSTONE_TTL :: u64 where [constants]: "DEFAULT_TOMBSTONE_TTL = 120 * 86400000"
definition DEFAULT_ENABLE_TTL :: bool where [constants]: "DEFAULT_ENABLE_TTL = False"
definition DEFAULT_ALLOW_PREFETCH :: bool where [constants]: "DEFAULT_ALLOW_PREFETCH = True"
definition DEFAULT_PREFETCH_SIZE :: nat where [constants]: "DEFAULT_PREFETCH_SIZE = 10"

text \<open>On Linux.\<close>

definition get_open_file_limit :: nat where "get_open_file_limit = 900"

definition config_default :: DbConfig where
  "config_default = \<lparr>db_false_positive_rate = DEFAULT_FALSE_POSITIVE_RATE, allow_prefetch = DEFAULT_ALLOW_PREFETCH,
     prefetch_size = DEFAULT_PREFETCH_SIZE, write_buffer_size = WRITE_BUFFER_SIZE,
     max_buffer_write_number = DEFAULT_MAX_WRITE_BUFFER_NUMBER, enable_ttl = DEFAULT_ENABLE_TTL,
     db_entry_ttl = ENTRY_TTL, db_tombstone_ttl = DEFAULT_TOMBSTONE_TTL,
     compactor_flush_listener_interval = DEFAULT_COMPACTION_FLUSH_LISTNER_INTERVAL,
     background_compaction_interval = DEFAULT_COMPACTION_INTERVAL,
     db_tombstone_compaction_interval = DEFAULT_TOMBSTONE_COMPACTION_INTERVAL, compaction_strategy = STCS,
     online_gc_interval = DEFAULT_ONLINE_GC_INTERVAL, gc_chunk_size = GC_CHUNK_SIZE,
     open_files_limit = get_open_file_limit\<rparr>"

section \<open>The builder methods\<close>

definition with_false_positive_rate :: "platform \<Rightarrow> f64 \<Rightarrow> DataStore \<Rightarrow> DataStore res" where
  "with_false_positive_rate P rate s =
     (if f64_ge P rate (f64_of_nat P 0) \<and> \<not> f64_ge P (f64_of_nat P 0) rate
      then Ok (s\<lparr>ds_config := (ds_config s)\<lparr>db_false_positive_rate := rate\<rparr>\<rparr>) else Panic)"

definition with_allow_prefetch :: "bool \<Rightarrow> DataStore \<Rightarrow> DataStore res" where
  "with_allow_prefetch allow s = Ok (s\<lparr>ds_config := (ds_config s)\<lparr>allow_prefetch := allow\<rparr>\<rparr>)"

definition with_prefetch_size :: "nat \<Rightarrow> DataStore \<Rightarrow> DataStore res" where
  "with_prefetch_size sz s =
     (if allow_prefetch (ds_config s) \<and> 0 < sz
      then Ok (s\<lparr>ds_config := (ds_config s)\<lparr>prefetch_size := sz\<rparr>\<rparr>) else Panic)"

definition with_write_buffer_size :: "nat \<Rightarrow> DataStore \<Rightarrow> DataStore res" where
  "with_write_buffer_size sz s =
     (if 50 \<le> sz then Ok (s\<lparr>ds_config := (ds_config s)\<lparr>write_buffer_size := as_bytes Kilobytes sz\<rparr>\<rparr>) else Panic)"

definition with_max_buffer_write_number :: "nat \<Rightarrow> DataStore \<Rightarrow> DataStore res" where
  "with_max_buffer_write_number number s =
     (if 0 < number then Ok (s\<lparr>ds_config := (ds_config s)\<lparr>max_buffer_write_number := number\<rparr>\<rparr>) else Panic)"

definition with_enable_ttl :: "bool \<Rightarrow> DataStore \<Rightarrow> DataStore res" where
  "with_enable_ttl enable s = Ok (s\<lparr>ds_config := (ds_config s)\<lparr>enable_ttl := enable\<rparr>\<rparr>)"

definition with_entry_ttl :: "u64 \<Rightarrow> DataStore \<Rightarrow> DataStore res" where
  "with_entry_ttl ttl s =
     (if enable_ttl (ds_config s) \<and> 3 * 24 * 60 * 60 * 1000 \<le> ttl
      then Ok (s\<lparr>ds_config := (ds_config s)\<lparr>db_entry_ttl := ttl\<rparr>\<rparr>) else Panic)"

definition with_tombstone_ttl :: "u64 \<Rightarrow> DataStore \<Rightarrow> DataStore res" where
  "with_tombstone_ttl ttl s =
     (if 10 * 24 * 60 * 60 * 1000 \<le> ttl
      then Ok (s\<lparr>ds_config := (ds_config s)\<lparr>db_tombstone_ttl := ttl\<rparr>\<rparr>) else Panic)"

definition with_compactor_flush_listener_interval :: "u64 \<Rightarrow> DataStore \<Rightarrow> DataStore res" where
  "with_compactor_flush_listener_interval interval s =
     (if 2 * 60 * 1000 \<le> interval
      then Ok (s\<lparr>ds_config := (ds_config s)\<lparr>compactor_flush_listener_interval := interval\<rparr>\<rparr>) else Panic)"

definition with_background_compaction_interval :: "u64 \<Rightarrow> DataStore \<Rightarrow> DataStore res" where
  "with_background_compaction_interval interval s =
     (if 5 * 60 * 1000 \<le> interval
      then Ok (s\<lparr>ds_config := (ds_config s)\<lparr>background_compaction_interval := interval\<rparr>\<rparr>) else Panic)"

definition with_tombstone_compaction_interval :: "u64 \<Rightarrow> DataStore \<Rightarrow> DataStore res" where
  "with_tombstone_compaction_interval interval s =
     (if 10 * 24 * 60 * 60 * 1000 \<le> interval
      then Ok (s\<lparr>ds_config := (ds_config s)\<lparr>db_tombstone_compaction_interval := interval\<rparr>\<rparr>) else Panic)"

definition with_compaction_strategy :: "Strategy \<Rightarrow> DataStore \<Rightarrow> DataStore res" where
  "with_compaction_strategy strat s = Ok (s\<lparr>ds_config := (ds_config s)\<lparr>compaction_strategy := strat\<rparr>\<rparr>)"

definition with_online_gc_interval :: "u64 \<Rightarrow> DataStore \<Rightarrow> DataStore res" where
  "with_online_gc_interval interval s =
     (if 60 * 60 \<le> interval div 1000
      then Ok (s\<lparr>ds_config := (ds_config s)\<lparr>online_gc_interval := interval\<rparr>\<rparr>) else Panic)"

definition with_gc_chunk_size :: "nat \<Rightarrow> DataStore \<Rightarrow> DataStore res" where
  "with_gc_chunk_size sz s =
     (if 50 \<le> sz then Ok (s\<lparr>ds_config := (ds_config s)\<lparr>gc_chunk_size := as_bytes Kilobytes sz\<rparr>\<rparr>) else Panic)"

lemmas builder_defs =
  with_false_positive_rate_def with_allow_prefetch_def with_prefetch_size_def with_write_buffer_size_def
  with_max_buffer_write_number_def with_enable_ttl_def with_entry_ttl_def with_tombstone_ttl_def
  with_compactor_flush_listener_interval_def with_background_compaction_interval_def
  with_tombstone_compaction_interval_def with_compaction_strategy_def with_online_gc_interval_def
  with_gc_chunk_size_def

section \<open>Chains of builder calls\<close>

datatype builder =
    False_Positive_Rate f64
  | Allow_Prefetch bool
  | Prefetch_Size nat
  | Write_Buffer_Size nat
  | Max_Buffer_Write_Number nat
  | Enable_Ttl bool
  | Entry_Ttl u64
  | Tombstone_Ttl u64
  | Compactor_Flush_Listener_Interval u64
  | Background_Compaction_Interval u64
  | Tombstone_Compaction_Interval u64
  | Compaction_Strategy Strategy
  | Online_Gc_Interval u64
  | Gc_Chunk_Size nat

fun build :: "platform \<Rightarrow> builder \<Rightarrow> DataStore \<Rightarrow> DataStore res" where
  "build P (False_Positive_Rate r) = with_false_positive_rate P r"
| "build P (Allow_Prefetch b) = with_allow_prefetch b"
| "build P (Prefetch_Size n) = with_prefetch_size n"
| "build P (Write_Buffer_Size n) = with_write_buffer_size n"
| "build P (Max_Buffer_Write_Number n) = with_max_buffer_write_number n"
| "build P (Enable_Ttl b) = with_enable_ttl b"
| "build P (Entry_Ttl t) = with_entry_ttl t"
| "build P (Tombstone_Ttl t) = with_tombstone_ttl t"
| "build P (Compactor_Flush_Listener_Interval t) = with_compactor_flush_listener_interval t"
| "build P (Background_Compaction_Interval t) = with_background_compaction_interval t"
| "build P (Tombstone_Compaction_Interval t) = with_tombstone_compaction_interval t"
| "build P (Compaction_Strategy x) = with_compaction_strategy x"
| "build P (Online_Gc_Interval t) = with_online_gc_interval t"
| "build P (Gc_Chunk_Size n) = with_gc_chunk_size n"

text \<open>
  What the builders guarantee together with the defaults. The defaults of the tombstone compaction interval
  and of the chunk of the garbage collector are below what the builders accept.
\<close>

definition config_valid :: "platform \<Rightarrow> DbConfig \<Rightarrow> bool" where
  "config_valid P c \<longleftrightarrow>
     f64_ge P (db_false_positive_rate c) (f64_of_nat P 0) \<and> \<not> f64_ge P (f64_of_nat P 0) (db_false_positive_rate c)
     \<and> 0 < prefetch_size c \<and> 50 * 1024 \<le> write_buffer_size c \<and> 0 < max_buffer_write_number c
     \<and> 3 * 86400000 \<le> db_entry_ttl c \<and> 10 * 86400000 \<le> db_tombstone_ttl c
     \<and> 120000 \<le> compactor_flush_listener_interval c \<and> 300000 \<le> background_compaction_interval c
     \<and> 5 * 86400000 \<le> db_tombstone_compaction_interval c \<and> 3600000 \<le> online_gc_interval c
     \<and> 1024 \<le> gc_chunk_size c"

lemma div_1000_le: "(60 * 60 :: u64) \<le> t div 1000 \<Longrightarrow> 3600000 \<le> t"
  by (simp add: word_le_nat_alt unat_div)

lemma weeks_le: "(864000000 :: u64) \<le> t \<Longrightarrow> 432000000 \<le> t"
  by (simp add: word_le_nat_alt)

lemma build_valid:
  "build P b s = Ok s' \<Longrightarrow> config_valid P (ds_config s) \<Longrightarrow> config_valid P (ds_config s')"
  by (cases b) (auto simp: builder_defs config_valid_def constants div_1000_le weeks_le split: if_splits)

lemma build_config: "build P b s = Ok s' \<Longrightarrow> \<exists>c. s' = s\<lparr>ds_config := c\<rparr>"
  by (cases b) (auto simp: builder_defs split: if_splits)

lemma builds_config: "fold_res (build P) bs s = Ok s' \<Longrightarrow> \<exists>c. s' = s\<lparr>ds_config := c\<rparr>"
proof (induction bs arbitrary: s)
  case (Cons b bs)
  then obtain s1 where "build P b s = Ok s1" "fold_res (build P) bs s1 = Ok s'" by auto
  with Cons.IH [of s1] build_config [of P b s s1] show ?case by auto
qed (auto intro: exI [of _ "ds_config s'"])

lemma builds_valid:
  "fold_res (build P) bs s = Ok s' \<Longrightarrow> config_valid P (ds_config s) \<Longrightarrow> config_valid P (ds_config s')"
  by (induction bs arbitrary: s) (auto dest: build_valid)

lemma build_no_error: "build P b s \<noteq> Err e"
  by (cases b) (simp_all add: builder_defs)

lemma builds_no_error: "fold_res (build P) bs s \<noteq> Err e"
proof (induction bs arbitrary: s)
  case (Cons b bs)
  then show ?case using build_no_error [of P b s] by (cases "build P b s") auto
qed simp

section \<open>Properties\<close>

lemma valid_characters:
  "map of_char VALID_CHARACTERS = [97..<123] @ [65..<91] @ [48..<58] @ [95, 45 :: nat]"
  by (simp add: VALID_CHARACTERS_def upt_rec)

text \<open>C27. A keyspace name is valid exactly when it has between 1 and 255 bytes and every byte is an ASCII letter,
  a digit, an underscore or a dash, as the documentation says.\<close>

theorem valid_keyspace_name:
  "is_valid_keyspace_name s \<longleftrightarrow> 1 \<le> length s \<and> length s \<le> 255
     \<and> of_char ` set s \<subseteq> {48..57} \<union> {65..90} \<union> {97..122} \<union> {95, 45 :: nat}"
proof -
  have "c \<in> set VALID_CHARACTERS \<longleftrightarrow> of_char c \<in> {48..57} \<union> {65..90} \<union> {97..122} \<union> {95, 45 :: nat}" for c
  proof -
    have "c \<in> set VALID_CHARACTERS \<longleftrightarrow> of_char c \<in> set (map of_char VALID_CHARACTERS :: nat list)"
      by (auto simp: image_iff)
    then show ?thesis
      unfolding valid_characters set_append set_upt list.set Un_iff atLeastLessThan_iff atLeastAtMost_iff insert_iff empty_iff
      by linarith
  qed
  then show ?thesis
    by (cases s) (auto simp: is_valid_keyspace_name_def constants list_all_iff)
qed


definition sample_store :: DataStore where
  "sample_store = \<lparr>keyspace = DEFAULT_DB_NAME, ds_dir = dir_path_build [''t''],
     active_memtable = g_table sample_gc_state, val_log = g_vlog sample_gc_state, ds_tables = tables sample_system,
     ds_compactor = compactor sample_system,
     ds_meta = \<lparr>meta_path = [''t'', META_FILE], v_log_tail = 0, v_log_head = 0, meta_created_at = 0, last_modified = 0\<rparr>,
     ds_config = config_default, ds_gc = gc_new DEFAULT_ONLINE_GC_INTERVAL GC_CHUNK_SIZE 0, read_only_memtables = [],
     gc_updated_entries = [], gc_tables = [g_table sample_gc_state], gc_table = 0, gc_log = g_vlog sample_gc_state,
     flush_stream = [], ds_tasks = []\<rparr>"


end
