(* ===== verification/Table_State.thy ===== *)
theory Table_State
  imports Store_Config
begin

text \<open>
  The tables of a store on disk, as flushes, reads and recovery use them: an invariant that ties the key
  ranges, the buckets and the files together, the changes of the file system that cannot affect it, and
  the proof that a flush succeeds, adds the memtable as a new table and keeps the invariant.
\<close>

section \<open>The environment\<close>

text \<open>
  The first \<open>N\<close> readings of the clock fall in different milliseconds, in order, and can be stored; the first
  \<open>N\<close> uuids are different.
\<close>

definition ticking :: "platform \<Rightarrow> environment \<Rightarrow> nat \<Rightarrow> bool" where
  "ticking P env N \<longleftrightarrow>
     (\<forall>i j. i < j \<and> j < N \<longrightarrow> timestamp_millis (clock env i) < timestamp_millis (clock env j))
     \<and> (\<forall>i < N. wf_time P (clock env i) \<and> 0 < timestamp_millis (clock env i)) \<and> inj_on (uuid env) {..<N}"

lemma ticking_less: "ticking P env N \<Longrightarrow> i < j \<Longrightarrow> j < N \<Longrightarrow> timestamp_millis (clock env i) < timestamp_millis (clock env j)"
  by (simp add: ticking_def)

lemma ticking_time: "ticking P env N \<Longrightarrow> i < N \<Longrightarrow> wf_time P (clock env i) \<and> 0 < timestamp_millis (clock env i)"
  by (simp add: ticking_def)

text \<open>Directories of tables are named by the millisecond.\<close>

definition digits_val :: "string \<Rightarrow> nat" where
  "digits_val cs = foldl (\<lambda>n c. 10 * n + (of_char c - 48)) 0 cs"

lemma digits_val_decimal: "digits_val (decimal_digits n) = n"
proof (induction n rule: decimal_digits.induct)
  case (1 n)
  have c: "of_char (char_of (48 + d) :: char) = 48 + d" if "d < 10" for d :: nat
    using that by (simp add: of_char_of)
  show ?case
  proof (cases "n < 10")
    case True
    then show ?thesis
      by (subst decimal_digits.simps) (simp add: digits_val_def c)
  next
    case False
    then have "digits_val (decimal_digits n) = 10 * digits_val (decimal_digits (n div 10)) + n mod 10"
      by (subst decimal_digits.simps) (simp add: digits_val_def c)
    with 1 [OF False] show ?thesis by simp
  qed
qed

lemma sst_dir_name_inject:
  assumes "ticking P env N" and "i < N" and "j < N" and "sst_dir_name (clock env i) = sst_dir_name (clock env j)"
  shows "i = j"
proof -
  have "nat (timestamp_millis (clock env i)) = nat (timestamp_millis (clock env j))"
    using assms(4) digits_val_decimal by (metis sst_dir_name_def append_eq_append_conv)
  then have "timestamp_millis (clock env i) = timestamp_millis (clock env j)"
    using ticking_time [OF assms(1,2)] ticking_time [OF assms(1,3)] by linarith
  then show ?thesis
    using ticking_less [OF assms(1)] assms(2,3) by (metis less_irrefl linorder_neqE_nat)
qed

section \<open>The invariant\<close>

text \<open>
  A range and its files: the directory of a table is three components below the root of the store, and the
  files of the table are in it.
\<close>

definition range_files :: "nat \<Rightarrow> path \<Rightarrow> Range \<Rightarrow> bool" where
  "range_files depth d r \<longleftrightarrow> length d = depth + 3
     \<and> data_file (r_sst r) = d @ [DATA_FILE] \<and> index_file (r_sst r) = d @ [INDEX_FILE]
     \<and> (\<exists>bf. t_filter (r_sst r) = Some bf \<and> bf_file_path bf = Some (d @ [FILTER_FILE]))"

definition buckets_ok :: "environment \<Rightarrow> nat \<Rightarrow> tables_state \<Rightarrow> bool" where
  "buckets_ok env depth t \<longleftrightarrow> bm_wf (ts_fs t) (ts_buckets t) \<and> length (bm_dir (ts_buckets t)) = depth + 1
     \<and> (\<forall>(i, b) \<in> set (buckets (ts_buckets t)).
          b_dir b = bm_dir (ts_buckets t) @ [BUCKET_DIRECTORY_PREFIX @ i] \<and> (\<exists>m < ts_reads t. i = uuid env m))"

text \<open>
  The directory of a table as a flush leaves it, below the directory \<open>b\<close> of all buckets: its name, its four
  files, and in the files of the summary and of the filter what recovery needs.
\<close>

definition dir_on_disk :: "environment \<Rightarrow> platform \<Rightarrow> filesys \<Rightarrow> nat \<Rightarrow> path \<Rightarrow> path \<Rightarrow> entries \<Rightarrow> bool" where
  "dir_on_disk env P fs n b d es \<longleftrightarrow> dirs fs d \<and> es \<noteq> []
     \<and> (\<exists>m < n. \<exists>m' < n. d = b @ [BUCKET_DIRECTORY_PREFIX @ uuid env m, sst_dir_name (clock env m')])
     \<and> (\<forall>name. files fs (d @ [name]) \<noteq> None \<longleftrightarrow> name \<in> {DATA_FILE, FILTER_FILE, INDEX_FILE, SUMMARY_FILE})
     \<and> files fs (d @ [SUMMARY_FILE]) = Some (summary_serialize
          \<lparr>sum_path = d @ [SUMMARY_FILE], smallest_key = fst (hd es), biggest_key = fst (last es)\<rparr>)
     \<and> (\<exists>saved. files fs (d @ [FILTER_FILE]) = Some (bf_serialize saved)
          \<and> (rate_ok P DEFAULT_FALSE_POSITIVE_RATE \<longrightarrow> rebuildable P saved))"

abbreviation table_dirs :: "tables_state \<Rightarrow> path set" where
  "table_dirs t \<equiv> fst ` set (key_ranges (ts_key_range t))"

text \<open>Below the directory of the buckets are the directories of buckets and of the tables, and nothing else.\<close>

definition disk_ok :: "environment \<Rightarrow> platform \<Rightarrow> (path \<Rightarrow> entries) \<Rightarrow> tables_state \<Rightarrow> bool" where
  "disk_ok env P C t \<longleftrightarrow> dirs (ts_fs t) (bm_dir (ts_buckets t))
     \<and> (\<forall>d \<in> table_dirs t. dir_on_disk env P (ts_fs t) (ts_reads t) (bm_dir (ts_buckets t)) d (C d))
     \<and> (\<forall>p. under (bm_dir (ts_buckets t)) p \<and> files (ts_fs t) p \<noteq> None \<longrightarrow> butlast p \<in> table_dirs t)
     \<and> (\<forall>p. under (bm_dir (ts_buckets t)) p \<and> dirs (ts_fs t) p \<longrightarrow> p = bm_dir (ts_buckets t)
          \<or> (\<exists>m < ts_reads t. p = bm_dir (ts_buckets t) @ [BUCKET_DIRECTORY_PREFIX @ uuid env m]) \<or> p \<in> table_dirs t)"

definition ranges_ok :: "platform \<Rightarrow> (path \<Rightarrow> entries) \<Rightarrow> nat \<Rightarrow> tables_state \<Rightarrow> bool" where
  "ranges_ok P C depth t \<longleftrightarrow> kr_ok P (ts_fs t) C (ts_key_range t)
     \<and> (\<forall>(d, r) \<in> set (key_ranges (ts_key_range t)) \<union> set (restored_ranges (ts_key_range t)). range_files depth d r)
     \<and> fst ` set (restored_ranges (ts_key_range t)) \<subseteq> fst ` set (key_ranges (ts_key_range t))"

definition tables_ok :: "environment \<Rightarrow> platform \<Rightarrow> (path \<Rightarrow> entries) \<Rightarrow> nat \<Rightarrow> tables_state \<Rightarrow> bool" where
  "tables_ok env P C depth t \<longleftrightarrow> ranges_ok P C depth t \<and> buckets_ok env depth t \<and> disk_ok env P C t"

text \<open>Restored ranges that a read has found and that are still to be published.\<close>

definition publishable :: "platform \<Rightarrow> (path \<Rightarrow> entries) \<Rightarrow> nat \<Rightarrow> tables_state \<Rightarrow> (path, Range) hashmap \<Rightarrow> bool" where
  "publishable P C depth t rs \<longleftrightarrow>
     (\<forall>(d, r) \<in> set rs. restored_ok P (ts_fs t) C (d, r) \<and> range_files depth d r)
     \<and> fst ` set rs \<subseteq> fst ` set (key_ranges (ts_key_range t))"

section \<open>Changes of the file system\<close>

lemma range_ok_frame:
  assumes "range_ok P fs d r es" and "range_files depth d r" and "\<And>name. files fs' (d @ [name]) = files fs (d @ [name])"
  shows "range_ok P fs' d r es"
proof -
  obtain bf where bf: "t_filter (r_sst r) = Some bf" "bf_file_path bf = Some (d @ [FILTER_FILE])"
    using assms(2) by (auto simp: range_files_def)
  have "table_on_disk P fs' (r_sst r) es"
    using assms by (auto simp: range_ok_def range_files_def table_on_disk_def)
  moreover have "filter_restorable P fs bf \<Longrightarrow> filter_restorable P fs' bf"
    using bf(2) assms(3) by (auto simp: filter_restorable_def)
  ultimately show ?thesis
    using assms(1) bf(1) by (auto simp: range_ok_def)
qed

lemma restored_ok_frame:
  assumes "restored_ok P fs C (d, r)" and "range_files depth d r"
    and "\<And>name. files fs' (d @ [name]) = files fs (d @ [name])" and "C' d = C d"
  shows "restored_ok P fs' C' (d, r)"
  using assms range_ok_frame [OF _ assms(2), of P fs "C d" fs'] by (auto simp: restored_ok_def)

lemma ranges_ok_frame:
  assumes "ranges_ok P C depth t" and "ts_key_range t' = ts_key_range t"
    and "\<And>d name. d \<in> fst ` set (key_ranges (ts_key_range t)) \<Longrightarrow> files (ts_fs t') (d @ [name]) = files (ts_fs t) (d @ [name])"
    and "\<And>d. d \<in> fst ` set (key_ranges (ts_key_range t)) \<Longrightarrow> C' d = C d"
  shows "ranges_ok P C' depth t'"
proof -
  let ?kr = "ts_key_range t"
  have sub: "fst ` set (restored_ranges ?kr) \<subseteq> fst ` set (key_ranges ?kr)"
    and rf: "\<forall>(d, r) \<in> set (key_ranges ?kr) \<union> set (restored_ranges ?kr). range_files depth d r"
    and kr: "kr_ok P (ts_fs t) C ?kr"
    using assms(1) by (auto simp: ranges_ok_def)
  have 1: "range_ok P (ts_fs t') d r (C' d)" if "(d, r) \<in> set (key_ranges ?kr)" for d r
  proof -
    have d: "d \<in> fst ` set (key_ranges ?kr)" using that by force
    have "range_ok P (ts_fs t) d r (C d)" "range_files depth d r"
      using that kr rf by (auto simp: kr_ok_def)
    from range_ok_frame [OF this assms(3) [OF d]] show ?thesis by (simp add: assms(4) [OF d])
  qed
  have 2: "restored_ok P (ts_fs t') C' (d, r)" if "(d, r) \<in> set (restored_ranges ?kr)" for d r
  proof -
    have d: "d \<in> fst ` set (key_ranges ?kr)" using that sub by force
    have "restored_ok P (ts_fs t) C (d, r)" "range_files depth d r"
      using that kr rf by (auto simp: kr_ok_restored)
    from restored_ok_frame [where C' = C', OF this assms(3) [OF d] assms(4) [OF d]] show ?thesis .
  qed
  show ?thesis
    using 1 2 rf sub by (auto simp: ranges_ok_def kr_ok_restored assms(2))
qed

lemma publishable_frame:
  assumes "publishable P C depth t rs" and "fst ` set (key_ranges (ts_key_range t)) \<subseteq> fst ` set (key_ranges (ts_key_range t'))"
    and "\<And>d name. d \<in> fst ` set (key_ranges (ts_key_range t)) \<Longrightarrow> files (ts_fs t') (d @ [name]) = files (ts_fs t) (d @ [name])"
    and "\<And>d. d \<in> fst ` set (key_ranges (ts_key_range t)) \<Longrightarrow> C' d = C d"
  shows "publishable P C' depth t' rs"
proof -
  have "restored_ok P (ts_fs t') C' (d, r) \<and> range_files depth d r" if "(d, r) \<in> set rs" for d r
  proof -
    have d: "d \<in> fst ` set (key_ranges (ts_key_range t))" and r: "restored_ok P (ts_fs t) C (d, r)" "range_files depth d r"
      using assms(1) that by (force simp: publishable_def)+
    from restored_ok_frame [where C' = C', OF r assms(3) [OF d] assms(4) [OF d]] r(2) show ?thesis by blast
  qed
  moreover have "fst ` set rs \<subseteq> fst ` set (key_ranges (ts_key_range t'))"
    using assms(1,2) unfolding publishable_def by (meson order_trans)
  ultimately show ?thesis by (auto simp: publishable_def)
qed

text \<open>Writes to files outside the directory of the buckets, as those of the log and the meta file.\<close>

definition outside_tables :: "path \<Rightarrow> filesys \<Rightarrow> filesys \<Rightarrow> bool" where
  "outside_tables b fs fs' \<longleftrightarrow> dirs fs' = dirs fs \<and> (\<forall>p. under b p \<longrightarrow> files fs' p = files fs p)
     \<and> (\<forall>p. files fs p \<noteq> None \<longrightarrow> files fs' p \<noteq> None)"

lemma outside_tables_refl [simp]: "outside_tables b fs fs"
  by (simp add: outside_tables_def)

lemma under_append [simp]: "under b (b @ p)"
  by (simp add: under_def)

lemma range_dir_length:
  "ranges_ok P C depth t \<Longrightarrow> d \<in> table_dirs t \<Longrightarrow> length d = depth + 3"
  by (auto simp: ranges_ok_def range_files_def)

lemma table_dir_under:
  "disk_ok env P C t \<Longrightarrow> d \<in> table_dirs t \<Longrightarrow> under (bm_dir (ts_buckets t)) (d @ p)"
  by (auto simp: disk_ok_def dir_on_disk_def)

lemma less_mono_ex: "\<exists>m < n. Q m \<Longrightarrow> n \<le> n' \<Longrightarrow> \<exists>m < n'. Q (m :: nat)"
  by (meson order_less_le_trans)

lemma dir_on_disk_frame:
  assumes "dir_on_disk env P fs n b d es" and "dirs fs d \<Longrightarrow> dirs fs' d" and "n \<le> n'"
    and "\<And>name. files fs' (d @ [name]) = files fs (d @ [name])"
  shows "dir_on_disk env P fs' n' b d es"
proof -
  note dd = assms(1) [unfolded dir_on_disk_def]
  obtain m m' where m: "m < n" "m' < n" "d = b @ [BUCKET_DIRECTORY_PREFIX @ uuid env m, sst_dir_name (clock env m')]"
    using dd by (elim conjE exE)
  have "\<exists>m < n'. \<exists>m' < n'. d = b @ [BUCKET_DIRECTORY_PREFIX @ uuid env m, sst_dir_name (clock env m')]"
    by (rule exI [of _ m], rule conjI, use m(1) assms(3) in simp, rule exI [of _ m'], use m(2,3) assms(3) in simp)
  then show ?thesis
    unfolding dir_on_disk_def assms(4) using dd assms(2) by (elim conjE) (intro conjI; assumption?; simp)
qed

lemma disk_okI:
  assumes "dirs (ts_fs t) (bm_dir (ts_buckets t))"
    and "\<And>d. d \<in> table_dirs t \<Longrightarrow> dir_on_disk env P (ts_fs t) (ts_reads t) (bm_dir (ts_buckets t)) d (C d)"
    and "\<And>p. under (bm_dir (ts_buckets t)) p \<Longrightarrow> files (ts_fs t) p \<noteq> None \<Longrightarrow> butlast p \<in> table_dirs t"
    and "\<And>p. under (bm_dir (ts_buckets t)) p \<Longrightarrow> dirs (ts_fs t) p \<Longrightarrow> p = bm_dir (ts_buckets t)
          \<or> (\<exists>m < ts_reads t. p = bm_dir (ts_buckets t) @ [BUCKET_DIRECTORY_PREFIX @ uuid env m]) \<or> p \<in> table_dirs t"
  shows "disk_ok env P C t"
  unfolding disk_ok_def
  by (rule conjI, rule assms(1), rule conjI, rule ballI, erule assms(2), rule conjI, intro allI impI, elim conjE,
      erule (1) assms(3), intro allI impI, elim conjE, erule (1) assms(4))

lemma disk_ok_dir:
  assumes "disk_ok env P C t" and "under (bm_dir (ts_buckets t)) p" and "dirs (ts_fs t) p" and "ts_reads t \<le> n"
  shows "p = bm_dir (ts_buckets t) \<or> (\<exists>m < n. p = bm_dir (ts_buckets t) @ [BUCKET_DIRECTORY_PREFIX @ uuid env m]) \<or> p \<in> table_dirs t"
proof -
  let ?Q = "\<lambda>m. p = bm_dir (ts_buckets t) @ [BUCKET_DIRECTORY_PREFIX @ uuid env m]"
  have "p = bm_dir (ts_buckets t) \<or> (\<exists>m < ts_reads t. ?Q m) \<or> p \<in> table_dirs t"
    using assms(1-3) by (simp add: disk_ok_def)
  then show ?thesis using less_mono_ex [of "ts_reads t" ?Q, OF _ assms(4)] by argo
qed

lemma disk_ok_frame:
  assumes t: "disk_ok env P C t" and out: "outside_tables (bm_dir (ts_buckets t)) (ts_fs t) (ts_fs t')" and n: "ts_reads t \<le> ts_reads t'"
    and b: "bm_dir (ts_buckets t') = bm_dir (ts_buckets t)" and d: "table_dirs t' = table_dirs t"
  shows "disk_ok env P C t'"
proof (rule disk_okI, unfold b d)
  let ?b = "bm_dir (ts_buckets t)"
  have fs: "dirs (ts_fs t') = dirs (ts_fs t)" "\<And>p. under ?b p \<Longrightarrow> files (ts_fs t') p = files (ts_fs t) p"
    using out by (auto simp: outside_tables_def)
  show "dirs (ts_fs t') ?b" using t by (simp add: fs(1) disk_ok_def)
  show "dir_on_disk env P (ts_fs t') (ts_reads t') ?b d (C d)" if "d \<in> table_dirs t" for d
    using t that table_dir_under [OF t that] fs by (intro dir_on_disk_frame [OF _ _ n]) (auto simp: disk_ok_def)
  show "butlast p \<in> table_dirs t" if "under ?b p" "files (ts_fs t') p \<noteq> None" for p
    using t that fs(2) [OF that(1)] by (simp add: disk_ok_def)
  show "p = ?b \<or> (\<exists>m < ts_reads t'. p = ?b @ [BUCKET_DIRECTORY_PREFIX @ uuid env m]) \<or> p \<in> table_dirs t"
    if "under ?b p" "dirs (ts_fs t') p" for p
    using that(2) by (intro disk_ok_dir [OF t that(1) _ n]) (simp add: fs(1))
qed

lemma tables_ok_outside:
  assumes "tables_ok env P C depth t" and "outside_tables (bm_dir (ts_buckets t)) (ts_fs t) fs'" and "ts_reads t \<le> n"
  shows "tables_ok env P C depth (t\<lparr>ts_fs := fs', ts_reads := n\<rparr>)"
proof -
  let ?t = "t\<lparr>ts_fs := fs', ts_reads := n\<rparr>"
  have r: "ranges_ok P C depth t" and b: "buckets_ok env depth t" and d: "disk_ok env P C t"
    using assms(1) by (auto simp: tables_ok_def)
  have "ranges_ok P C depth ?t"
    using table_dir_under [OF d] assms(2) by (intro ranges_ok_frame [OF r]) (auto simp: outside_tables_def)
  moreover have "buckets_ok env depth ?t"
  proof -
    have "bm_wf fs' (ts_buckets t)"
      using b assms(2) by (fastforce simp: buckets_ok_def bm_wf_def tables_exist_def outside_tables_def)
    then show ?thesis
      using b less_mono_ex [OF _ assms(3)] unfolding buckets_ok_def by (auto simp: case_prod_beta)
  qed
  moreover have "disk_ok env P C ?t"
    using assms(2,3) by (intro disk_ok_frame [OF d]) simp_all
  ultimately show ?thesis by (simp add: tables_ok_def)
qed

lemma publishable_outside:
  assumes "publishable P C depth t rs" and "disk_ok env P C t" and "outside_tables (bm_dir (ts_buckets t)) (ts_fs t) fs'"
  shows "publishable P C depth (t\<lparr>ts_fs := fs', ts_reads := n\<rparr>) rs"
  using table_dir_under [OF assms(2)] assms(3)
  by (intro publishable_frame [OF assms(1)]) (auto simp: outside_tables_def)


section \<open>Reading and merging ranges\<close>

lemma restore_range_path:
  "restore_range P fs rng bf = Ok (r, bf') \<Longrightarrow> bf_file_path bf' = bf_file_path bf \<and> t_filter (r_sst r) = Some bf'"
proof -
  have b: "build_filter_from_entries P bf es = Ok bf' \<Longrightarrow> bf_file_path bf' = bf_file_path bf" for bf bf' es
    by (induction es arbitrary: bf) (auto simp: bf_set_def)
  show "restore_range P fs rng bf = Ok (r, bf') \<Longrightarrow> bf_file_path bf' = bf_file_path bf \<and> t_filter (r_sst r) = Some bf'"
    by (auto simp: restore_range_def bf_recover_meta_def Let_def dest!: b split: option.splits)
qed

lemma filter_step_files:
  assumes "range_ok P fs d r es" and "range_files depth d r"
    and "filter_step P fs kr key (d, r) (ts, m) = Ok (ts', m')"
  shows "m' = m \<or> (\<exists>r'. m' = hm_insert d r' m \<and> range_files depth d r')"
proof -
  obtain bf where bf: "t_filter (r_sst r) = Some bf" "bf_file_path bf = Some (d @ [FILTER_FILE])"
    using assms(2) by (auto simp: range_files_def)
  have "range_files depth d r' \<and> t_dir (r_sst r') = d" if "restore_range P fs r bf = Ok (r', bf')" "bf_sst_dir bf = None" for r' bf'
  proof -
    have "filter_restorable P fs bf"
      using assms(1) bf(1) that(2) by (auto simp: range_ok_def filter_ready_def)
    from restore_range_ok [OF assms(1) bf(1) this] that(1)
    have "range_ok P fs d r' es" "data_file (r_sst r') = data_file (r_sst r)" "index_file (r_sst r') = index_file (r_sst r)"
      by auto
    moreover have "bf_file_path bf' = Some (d @ [FILTER_FILE])" "t_filter (r_sst r') = Some bf'"
      using restore_range_path [OF that(1)] bf(2) by simp_all
    ultimately show ?thesis
      using assms(2) by (auto simp: range_files_def range_ok_def)
  qed
  then show ?thesis
    using assms(3) bf(1) by (fastforce simp: filter_step_def Let_def split: if_splits)
qed

lemma filter_fold_files:
  assumes "fold_res (filter_step P fs kr key) rs (ts, m) = Ok (ts', m')"
    and "\<forall>(d, r) \<in> set rs. range_files depth d r \<and> range_ok P fs d r (C d)"
    and "\<forall>(d, r) \<in> set m. range_files depth d r"
  shows "(\<forall>(d, r) \<in> set m'. range_files depth d r) \<and> fst ` set m' \<subseteq> fst ` set rs \<union> fst ` set m"
  using assms
proof (induction rs arbitrary: ts m)
  case (Cons e rs)
  obtain d r where e: "e = (d, r)" by force
  obtain ts1 m1 where s: "filter_step P fs kr key (d, r) (ts, m) = Ok (ts1, m1)"
    "fold_res (filter_step P fs kr key) rs (ts1, m1) = Ok (ts', m')"
    using Cons.prems(1) by (auto simp: e)
  have "range_ok P fs d r (C d)" "range_files depth d r"
    using Cons.prems(2) by (simp_all add: e)
  from filter_step_files [OF this s(1)] have m1: "m1 = m \<or> (\<exists>r'. m1 = hm_insert d r' m \<and> range_files depth d r')" .
  then have rf: "\<forall>(d, r) \<in> set m1. range_files depth d r"
    using Cons.prems(3) by (auto simp: hm_insert_set)
  have sub: "fst ` set m1 \<subseteq> insert d (fst ` set m)"
    using m1 by (auto simp: hm_insert_set)
  have IH: "(\<forall>(d, r) \<in> set m'. range_files depth d r) \<and> fst ` set m' \<subseteq> fst ` set rs \<union> fst ` set m1"
    using Cons.IH [OF s(2)] Cons.prems(2) rf by (simp add: e)
  then have "fst ` set m' \<subseteq> insert d (fst ` set rs) \<union> fst ` set m"
    using sub by (simp only: subset_iff Un_iff insert_iff) metis
  with IH show ?case by (simp add: e)
qed simp

lemma filter_publishable:
  assumes "ranges_ok P C depth t" and "filter_sstables_by_key_range P (ts_fs t) (ts_key_range t) key = Ok (ts, m)"
  shows "publishable P C depth t m"
proof -
  let ?kr = "ts_key_range t"
  have kr: "kr_ok P (ts_fs t) C ?kr"
    and rf: "\<forall>(d, r) \<in> set (key_ranges ?kr). range_files depth d r \<and> range_ok P (ts_fs t) d r (C d)"
    using assms(1) by (auto simp: ranges_ok_def kr_ok_def)
  obtain ts0 where "fold_res (filter_step P (ts_fs t) ?kr key) (key_ranges ?kr) (ts0, []) = Ok (ts, m)"
    using assms(2) by (auto simp: filter_sstables_by_key_range_def)
  from filter_fold_files [OF this rf]
  have "\<forall>(d, r) \<in> set m. range_files depth d r" "fst ` set m \<subseteq> fst ` set (key_ranges ?kr)" by simp_all
  moreover have "\<forall>e \<in> set m. restored_ok P (ts_fs t) C e"
    using filter_complete [OF kr, of key] assms(2) by auto
  ultimately show ?thesis by (auto simp: publishable_def)
qed

lemma tables_ok_ranges:
  assumes "tables_ok env P C depth t" and "ranges_ok P C depth (t\<lparr>ts_key_range := kr\<rparr>)"
    and "fst ` set (key_ranges kr) = table_dirs t"
  shows "tables_ok env P C depth (t\<lparr>ts_key_range := kr\<rparr>)"
  using assms by (simp add: tables_ok_def buckets_ok_def disk_ok_def)

lemma tables_ok_publish:
  assumes "tables_ok env P C depth t" and "publishable P C depth t rs"
  shows "tables_ok env P C depth (t\<lparr>ts_key_range := publish_restored (ts_key_range t) rs\<rparr>)"
proof (rule tables_ok_ranges [OF assms(1)])
  have rs: "\<forall>e \<in> set rs. restored_ok P (ts_fs t) C e" "\<forall>(d, r) \<in> set rs. range_files depth d r"
    "fst ` set rs \<subseteq> fst ` set (key_ranges (ts_key_range t))"
    using assms(2) by (auto simp: publishable_def)
  have t: "ranges_ok P C depth t" using assms(1) by (simp add: tables_ok_def)
  then have "kr_ok P (ts_fs t) C (publish_restored (ts_key_range t) rs)"
    using rs(1) by (intro publish_restored_ok) (simp add: ranges_ok_def)
  then show "ranges_ok P C depth (t\<lparr>ts_key_range := publish_restored (ts_key_range t) rs\<rparr>)"
    using t rs(2,3) unfolding ranges_ok_def publish_restored_def by auto
qed (simp add: publish_restored_def)

lemma merge_ranges_set: "set (fold (\<lambda>(path, rng). hm_insert path rng) rs m) \<subseteq> set rs \<union> set m"
proof (induction rs arbitrary: m)
  case (Cons e rs)
  have "set ((\<lambda>(path, rng). hm_insert path rng) e m) \<subseteq> insert e (set m)"
    by (auto simp: hm_insert_set split: prod.splits)
  with Cons.IH [of "(\<lambda>(path, rng). hm_insert path rng) e m"] show ?case by auto
qed simp

lemma merge_ranges_dirs: "fst ` set (fold (\<lambda>(path, rng). hm_insert path rng) rs m) = fst ` set rs \<union> fst ` set m"
proof (induction rs arbitrary: m)
  case (Cons e rs)
  have "fst ` set ((\<lambda>(path, rng). hm_insert path rng) e m) = insert (fst e) (fst ` set m)"
    by (force simp: hm_insert_set split: prod.splits)
  with Cons.IH [of "(\<lambda>(path, rng). hm_insert path rng) e m"] show ?case by auto
qed simp

lemma tables_ok_update_key_range:
  assumes "tables_ok env P C depth t"
  shows "tables_ok env P C depth (t\<lparr>ts_key_range := update_key_range (ts_key_range t)\<rparr>)"
proof (rule tables_ok_ranges [OF assms])
  have t: "ranges_ok P C depth t" using assms by (simp add: tables_ok_def)
  then have "kr_ok P (ts_fs t) C (update_key_range (ts_key_range t))"
    by (intro update_key_range_ok) (simp add: ranges_ok_def)
  then show "ranges_ok P C depth (t\<lparr>ts_key_range := update_key_range (ts_key_range t)\<rparr>)"
    using t merge_ranges_set [of "restored_ranges (ts_key_range t)" "key_ranges (ts_key_range t)"]
    unfolding ranges_ok_def update_key_range_def by (auto 0 3)
  have "fst ` set (restored_ranges (ts_key_range t)) \<subseteq> table_dirs t"
    using t by (simp add: ranges_ok_def)
  then show "fst ` set (key_ranges (update_key_range (ts_key_range t))) = table_dirs t"
    using merge_ranges_dirs [of "restored_ranges (ts_key_range t)" "key_ranges (ts_key_range t)"]
    by (auto simp: update_key_range_def)
qed


section \<open>A flush\<close>

text \<open>A memtable that can be written as a table.\<close>

definition entries_ok :: "platform \<Rightarrow> entries \<Rightarrow> bool" where
  "entries_ok P es \<longleftrightarrow> (\<forall>e \<in> set es. entry_ok P e \<and> length (fst e) + 17 \<le> BLOCK_SIZE)"

text \<open>The filter of a memtable counts its elements: an empty one has no bit set, unless it has no hash function.\<close>

definition savable :: "platform \<Rightarrow> MemTable \<Rightarrow> bool" where
  "savable P m \<longleftrightarrow> false_positive_rate (mt_bloom_filter m) = DEFAULT_FALSE_POSITIVE_RATE \<and> no_of_hash_func (mt_bloom_filter m) < 2 ^ 32
     \<and> num_elements (mt_bloom_filter m) \<le> length (mt_entries m)
     \<and> (num_elements (mt_bloom_filter m) = 0 \<longrightarrow> no_of_hash_func (mt_bloom_filter m) = 0
          \<or> mt_entries m = [] \<and> True \<notin> set (bit_vec (mt_bloom_filter m)))"

lemma sm_insert_length:
  "sm_sorted es \<Longrightarrow> length (sm_insert k v es) = (if k \<in> fst ` set es then length es else Suc (length es))"
proof (induction es)
  case (Cons e es)
  then have "sm_sorted es" "\<forall>k' \<in> fst ` set es. fst e < k'" by (auto simp: sm_sorted_def)
  with Cons.IH show ?case by auto
qed simp

lemma no_bit_no_element:
  assumes "bf_ok bf" and "0 < no_of_hash_func bf" and "True \<notin> set (bit_vec bf)"
  shows "bf_contains P bf k = Ok False"
proof -
  have ne: "bit_vec bf \<noteq> []" using assms(1,2) by (simp add: bf_ok_def)
  then have "\<not> bit_vec bf ! (i mod length (bit_vec bf))" for i
    using assms(3) nth_mem [of "i mod length (bit_vec bf)" "bit_vec bf"] by (cases "bit_vec bf ! (i mod length (bit_vec bf))") auto
  with ne assms(2) show ?thesis by (simp add: bf_contains_def upt_conv_Cons bit_index_def)
qed

lemma savable_insert:
  assumes wf: "mt_wf P m" and sv: "savable P m" and ins: "mt_insert P m e = Ok m'" and len: "length (mt_entries m) + 1 < 2 ^ 32"
  shows "savable P m'"
proof -
  let ?bf = "mt_bloom_filter m"
  have ok: "bf_ok ?bf" and srt: "sm_sorted (mt_entries m)" using wf by (auto simp: mt_wf_def)
  obtain b where b: "bf_contains P ?bf (e_key e) = Ok b" using ins by (auto simp: mt_insert_def Let_def)
  have es: "mt_entries m' = sm_insert (e_key e) (entry_value e) (mt_entries m)" by (rule mt_insert_effect [OF wf ins])
  have grow: "length (mt_entries m) \<le> length (mt_entries m')" by (simp add: es sm_insert_length [OF srt])
  show ?thesis
  proof (cases b)
    case True
    with b ins have "mt_bloom_filter m' = ?bf" by (auto simp: mt_insert_def Let_def)
    moreover have "num_elements ?bf = 0 \<longrightarrow> no_of_hash_func ?bf = 0"
      using no_bit_no_element [OF ok, of P "e_key e"] b True sv by (auto simp: savable_def)
    ultimately show ?thesis using sv grow by (auto simp: savable_def)
  next
    case False
    with b ins have s: "bf_set P ?bf (e_key e) = Ok (mt_bloom_filter m')" by (auto simp: mt_insert_def Let_def)
    have "e_key e \<notin> fst ` set (mt_entries m)" using wf b False by (auto simp: mt_wf_def)
    then have l: "length (mt_entries m') = Suc (length (mt_entries m))" by (simp add: es sm_insert_length [OF srt])
    have le: "unat (no_of_elements ?bf) \<le> length (mt_entries m)" using sv by (simp add: savable_def num_elements_def)
    then have "unat (no_of_elements ?bf) + 1 < 2 ^ 32" using len by simp
    then have "num_elements (mt_bloom_filter m') = Suc (num_elements ?bf)"
      using bf_set_effect [OF ok s] by (simp add: num_elements_def unat_word_ariths)
    moreover have "false_positive_rate (mt_bloom_filter m') = false_positive_rate ?bf"
      using s by (auto simp: bf_set_def dest!: sym [of _ "mt_bloom_filter m'"])
    ultimately show ?thesis
      using sv bf_set_effect [OF ok s] l by (simp add: savable_def)
  qed
qed

lemma savable_new:
  assumes "with_specified_capacity_and_rate P now now' u capacity rate = Ok m" and "rate = DEFAULT_FALSE_POSITIVE_RATE"
  shows "savable P m"
  using assms
  by (auto simp: unsigned_less [where 'b = 32, simplified] with_specified_capacity_and_rate_def bf_new_def savable_def num_elements_def Let_def split: if_splits)

lemma savable_rebuildable:
  assumes "savable P m" and "mt_entries m \<noteq> []" and "rate_ok P DEFAULT_FALSE_POSITIVE_RATE"
  shows "rebuildable P (mt_bloom_filter m)"
  using assms by (auto simp: savable_def rebuildable_def rate_ok_def)

definition flushable :: "platform \<Rightarrow> MemTable \<Rightarrow> bool" where
  "flushable P m \<longleftrightarrow> mt_wf P m \<and> mt_entries m \<noteq> [] \<and> entries_ok P (mt_entries m)
     \<and> length (data_file_of (mt_entries m)) < 2 ^ 32 \<and> savable P m"

lemma fresh_uuid:
  assumes "buckets_ok env depth t" and "ticking P env N" and "ts_reads t < N"
  shows "uuid env (ts_reads t) \<notin> fst ` set (buckets (ts_buckets t))"
proof
  assume "uuid env (ts_reads t) \<in> fst ` set (buckets (ts_buckets t))"
  then obtain m where "m < ts_reads t" "uuid env (ts_reads t) = uuid env m"
    using assms(1) by (fastforce simp: buckets_ok_def)
  moreover have "inj_on (uuid env) {..<N}" using assms(2) by (simp add: ticking_def)
  ultimately show False
    using assms(3) inj_onD [of "uuid env" "{..<N}" "ts_reads t" m] by simp
qed

lemma fresh_dir:
  assumes "disk_ok env P C t" and "ticking P env N" and "ts_reads t < N"
  shows "files (ts_fs t) (bm_dir (ts_buckets t) @ [bucket, sst_dir_name (clock env (ts_reads t)), name]) = None"
proof (rule ccontr)
  let ?d = "bm_dir (ts_buckets t) @ [bucket, sst_dir_name (clock env (ts_reads t))]"
  assume "files (ts_fs t) (bm_dir (ts_buckets t) @ [bucket, sst_dir_name (clock env (ts_reads t)), name]) \<noteq> None"
  then have "butlast (?d @ [name]) \<in> table_dirs t"
    using assms(1) unfolding disk_ok_def by (metis append.assoc append_Cons append_Nil under_append)
  then have "dir_on_disk env P (ts_fs t) (ts_reads t) (bm_dir (ts_buckets t)) ?d (C ?d)"
    using assms(1) by (simp only: disk_ok_def butlast_snoc)
  then obtain m where "m < ts_reads t" "sst_dir_name (clock env (ts_reads t)) = sst_dir_name (clock env m)"
    by (auto simp: dir_on_disk_def)
  then show False
    using sst_dir_name_inject [OF assms(2,3), of m] assms(3) by simp
qed

lemma sorted_ends:
  assumes "sm_sorted es" and "k \<in> fst ` set es"
  shows "fst (hd es) \<le> k" and "k \<le> fst (last es)"
proof -
  have ne: "es \<noteq> []" using assms(2) by auto
  have st: "sorted (map fst es)"
    using assms(1) by (simp add: sm_sorted_def strict_sorted_iff)
  have k: "k \<in> set (map fst es)" using assms(2) by simp
  then have "hd (map fst es) \<le> k"
    using st by (cases "map fst es") auto
  then show "fst (hd es) \<le> k" using ne by (simp add: hd_map)
  have eq: "map fst es = butlast (map fst es) @ [last (map fst es)]"
    using ne by simp
  have "k \<in> set (butlast (map fst es)) \<or> k = last (map fst es)"
    using k by (subst (asm) eq) auto
  moreover have "\<forall>x \<in> set (butlast (map fst es)). x \<le> last (map fst es)"
    using st by (subst (asm) eq) (auto simp: sorted_append)
  ultimately have "k \<le> last (map fst es)" by auto
  then show "k \<le> fst (last es)" using ne by (simp add: last_map)
qed

lemma new_range_ok:
  assumes "new_table P fs d (insertable_memtable m) sst" and "flushable P m" and "t_summary sst = Some summary"
    and "length d = depth + 3"
  defines "r \<equiv> range_new (smallest_key summary) (biggest_key summary) (sst\<lparr>t_entries := []\<rparr>)"
  shows "range_ok P fs d r (mt_entries m) \<and> range_files depth d r"
proof -
  have wf: "sm_sorted (mt_entries m)" "bf_ok (mt_bloom_filter m)"
    "\<forall>k \<in> fst ` set (mt_entries m). bf_contains P (mt_bloom_filter m) k = Ok True"
    using assms(2) by (auto simp: flushable_def mt_wf_def)
  define bf where "bf = (mt_bloom_filter m)\<lparr>bf_file_path := Some (d @ [FILTER_FILE]), bf_sst_dir := Some (data_file sst)\<rparr>"
  have "bf_contains P bf = bf_contains P (mt_bloom_filter m)"
    by (simp add: bf_def bf_contains_def fun_eq_iff)
  then have ready: "filter_ready P (mt_entries m) bf"
    using wf(2,3) by (simp add: filter_ready_def bf_ok_def bf_def)
  have n: "t_dir sst = d" "table_on_disk P fs sst (mt_entries m)" "smallest_key summary = fst (hd (mt_entries m))"
    "biggest_key summary = fst (last (mt_entries m))" "t_filter sst = Some bf" "data_file sst = d @ [DATA_FILE]"
    using assms(1,3) by (auto simp: new_table_def insertable_memtable_def bf_def table_summary_def)
  have "index_file sst = d @ [INDEX_FILE]"
    using assms(1) by (simp add: new_table_def)
  moreover have "\<forall>k \<in> fst ` set (mt_entries m). in_range r k"
    using sorted_ends [OF wf(1)] n(3,4) by (simp add: in_range_def r_def range_new_def)
  moreover have "table_on_disk P fs (r_sst r) (mt_entries m)"
    using n(2) by (simp add: r_def range_new_def table_on_disk_def)
  ultimately show ?thesis
    using ready n assms(4) by (simp add: range_ok_def range_files_def r_def range_new_def bf_def)
qed


lemma target_bucket_dir:
  assumes "buckets_ok env depth t"
  shows "snd (target_bucket (ts_buckets t) table i) =
    bm_dir (ts_buckets t) @ [BUCKET_DIRECTORY_PREFIX @ fst (target_bucket (ts_buckets t) table i)]"
proof (cases "find (\<lambda>(_, b). fits_into_bucket b table) (buckets (ts_buckets t))")
  case None
  with assms show ?thesis by (simp add: target_bucket_def buckets_ok_def)
next
  case (Some e)
  obtain j b where e: "e = (j, b)" by force
  have "(j, b) \<in> set (buckets (ts_buckets t))"
    using find_bucket [of table "buckets (ts_buckets t)" j b] Some e by simp
  with assms Some e show ?thesis by (auto simp: target_bucket_def buckets_ok_def)
qed

lemma target_bucket_id: "fst (target_bucket bm table i) \<in> insert i (fst ` set (buckets bm))"
proof (cases "find (\<lambda>(_, b). fits_into_bucket b table) (buckets bm)")
  case (Some e)
  obtain j b where e: "e = (j, b)" by force
  have "(j, b) \<in> set (buckets bm)"
    using find_bucket [of table "buckets bm" j b] Some e by simp
  with Some e show ?thesis by (force simp: target_bucket_def)
qed (simp add: target_bucket_def)

lemma clear_shared_wf:
  assumes "bm_wf fs bm"
  shows "bm_wf fs (clear_shared_entries d bm)"
proof -
  define clr where "clr = (\<lambda>t :: Table. if t_dir t = d then t\<lparr>t_entries := []\<rparr> else t)"
  have "data_file (clr t) = data_file t" "t_dir (clr t) = t_dir t" for t
    by (simp_all add: clr_def)
  then have "tables_exist fs (map clr ts) = tables_exist fs ts" for ts
    by (simp add: tables_exist_def)
  then have "\<forall>(i, b) \<in> set (buckets (clear_shared_entries d bm)). b_id b = i \<and> tables_exist fs (sstables b)"
    using assms by (auto simp: bm_wf_def clear_shared_entries_def simp flip: clr_def)
  then show ?thesis
    using assms clear_shared_facts(2) [of d bm] by (simp add: bm_wf_def)
qed

lemma target_bucket_uuid:
  assumes "buckets_ok env depth t"
  shows "\<exists>m < ts_reads t + 2. fst (target_bucket (ts_buckets t) table (uuid env (ts_reads t))) = uuid env m"
proof -
  have "\<exists>m < ts_reads t. i = uuid env m" if "i \<in> fst ` set (buckets (ts_buckets t))" for i
    using assms that by (fastforce simp: buckets_ok_def)
  then show ?thesis
    using target_bucket_id [of "ts_buckets t" table "uuid env (ts_reads t)"] less_mono_ex [of "ts_reads t" _ "ts_reads t + 2"]
    by (auto simp: less_Suc_eq)
qed

lemma buckets_ok_insert:
  assumes "buckets_ok env depth t" and "bm_wf fs' bm'"
    and "bm' = (ts_buckets t)\<lparr>buckets := im_insert i b' (buckets (ts_buckets t))\<rparr>"
    and "b_dir b' = bm_dir (ts_buckets t) @ [BUCKET_DIRECTORY_PREFIX @ i]" and "\<exists>m < ts_reads t + 2. i = uuid env m"
  shows "buckets_ok env depth (t\<lparr>ts_fs := fs', ts_buckets := clear_shared_entries d bm', ts_reads := ts_reads t + 2\<rparr>)"
proof -
  have old: "b_dir b = bm_dir (ts_buckets t) @ [BUCKET_DIRECTORY_PREFIX @ j] \<and> (\<exists>m < ts_reads t + 2. j = uuid env m)"
    if "(j, b) \<in> set (buckets (ts_buckets t))" for j b
  proof -
    have "b_dir b = bm_dir (ts_buckets t) @ [BUCKET_DIRECTORY_PREFIX @ j]" "\<exists>m < ts_reads t. j = uuid env m"
      using assms(1) that by (auto simp: buckets_ok_def)
    then show ?thesis by (auto simp: less_Suc_eq)
  qed
  have "b_dir b = bm_dir (ts_buckets t) @ [BUCKET_DIRECTORY_PREFIX @ j] \<and> (\<exists>m < ts_reads t + 2. j = uuid env m)"
    if "(j, b) \<in> set (buckets bm')" for j b
    using that old im_insert_set [of i b' "buckets (ts_buckets t)"] assms(3-5) by auto
  then have "\<forall>(j, b) \<in> set (buckets (clear_shared_entries d bm')).
      b_dir b = bm_dir (ts_buckets t) @ [BUCKET_DIRECTORY_PREFIX @ j] \<and> (\<exists>m < ts_reads t + 2. j = uuid env m)"
    by (auto simp: clear_shared_entries_def)
  moreover have "length (bm_dir bm') = depth + 1" "bm_dir bm' = bm_dir (ts_buckets t)"
    using assms(1,3) by (simp_all add: buckets_ok_def)
  ultimately show ?thesis
    using clear_shared_wf [OF assms(2)] by (simp add: buckets_ok_def clear_shared_entries_def)
qed

lemma under_between:
  assumes "under b p" and "under p (b @ [x, y])"
  shows "p = b \<or> p = b @ [x] \<or> p = b @ [x, y]"
proof -
  have p: "take (length p) (b @ [x, y]) = p" and b: "take (length b) p = b" using assms by (simp_all add: under_def)
  have "length p \<le> length b + 2" "length b \<le> length p"
    using arg_cong [OF p, of length] arg_cong [OF b, of length] by simp_all
  then consider "length p = length b" | "length p = length b + 1" | "length p = length b + 2" by linarith
  then show ?thesis using p by cases (auto simp: take_Cons' split: if_splits)
qed

lemma new_dir_on_disk:
  assumes "new_table P fs d (insertable_memtable m) sst" and "flushable P m" and "dirs fs d"
    and "d = b @ [BUCKET_DIRECTORY_PREFIX @ uuid env i, sst_dir_name (clock env j)]" and "i < n" and "j < n"
  shows "dir_on_disk env P fs n b d (mt_entries m)"
proof -
  have "t_entries sst = mt_entries m" "t_dir sst = d" and ne: "mt_entries m \<noteq> []"
    using assms(1,2) by (auto simp: new_table_def insertable_memtable_def flushable_def)
  then have s: "table_summary sst = \<lparr>sum_path = d @ [SUMMARY_FILE], smallest_key = fst (hd (mt_entries m)), biggest_key = fst (last (mt_entries m))\<rparr>"
    by (simp add: table_summary_def)
  have "rebuildable P (mt_bloom_filter m)" if "rate_ok P DEFAULT_FALSE_POSITIVE_RATE"
    using assms(2) that by (intro savable_rebuildable) (auto simp: flushable_def)
  moreover have "files fs (d @ [FILTER_FILE]) = Some (bf_serialize (mt_bloom_filter m))"
    "files fs (d @ [SUMMARY_FILE]) = Some (summary_serialize (table_summary sst))"
    "\<forall>name. files fs (d @ [name]) \<noteq> None \<longleftrightarrow> name \<in> {DATA_FILE, FILTER_FILE, INDEX_FILE, SUMMARY_FILE}"
    using assms(1) unfolding new_table_def insertable_memtable_def Insertable.select_convs by blast+
  ultimately show ?thesis
    using assms(3-6) ne unfolding dir_on_disk_def s by blast
qed

lemma disk_ok_new_dir:
  assumes t: "disk_ok env P C t" and fr: "\<forall>p. butlast p \<noteq> d \<longrightarrow> files (ts_fs t') p = files (ts_fs t) p"
    and ad: "adds_dirs (ts_fs t) (ts_fs t') d" and dirs: "table_dirs t' = insert d (table_dirs t)" "d \<notin> table_dirs t"
    and b: "bm_dir (ts_buckets t') = bm_dir (ts_buckets t)" and n: "ts_reads t \<le> ts_reads t'"
    and d: "dir_on_disk env P (ts_fs t') (ts_reads t') (bm_dir (ts_buckets t)) d es"
  shows "disk_ok env P (C(d := es)) t'"
proof (rule disk_okI, unfold b dirs(1))
  let ?b = "bm_dir (ts_buckets t)"
  show "dirs (ts_fs t') ?b" using t ad by (simp add: disk_ok_def adds_dirs_def)
  show "dir_on_disk env P (ts_fs t') (ts_reads t') ?b d' ((C(d := es)) d')" if "d' \<in> insert d (table_dirs t)" for d'
  proof (cases "d' = d")
    case False
    with that t fr ad have "dir_on_disk env P (ts_fs t') (ts_reads t') ?b d' (C d')"
      by (intro dir_on_disk_frame [OF _ _ n]) (auto simp: disk_ok_def adds_dirs_def)
    with False show ?thesis by simp
  qed (simp add: d)
  show "butlast p \<in> insert d (table_dirs t)" if "under ?b p" "files (ts_fs t') p \<noteq> None" for p
    using that t fr by (cases "butlast p = d") (auto simp: disk_ok_def)
  show "p = ?b \<or> (\<exists>m < ts_reads t'. p = ?b @ [BUCKET_DIRECTORY_PREFIX @ uuid env m]) \<or> p \<in> insert d (table_dirs t)"
    if p: "under ?b p" "dirs (ts_fs t') p" for p
  proof (cases "dirs (ts_fs t) p")
    case True
    then show ?thesis using disk_ok_dir [OF t p(1) _ n] by blast
  next
    case False
    then have up: "under p d" using ad p by (auto simp: adds_dirs_def)
    obtain m m' where m: "m < ts_reads t'" "d = ?b @ [BUCKET_DIRECTORY_PREFIX @ uuid env m, sst_dir_name (clock env m')]"
      using d by (auto simp: dir_on_disk_def)
    then show ?thesis using under_between [OF p(1) up [unfolded m(2)]] by blast
  qed
qed

lemma hm_insert_dirs: "fst ` set (hm_insert d r m) = insert d (fst ` set m)"
  by (force simp: hm_insert_set)

lemma ranges_ok_set:
  assumes "ranges_ok P C depth t" and "range_ok P (ts_fs t) d (range_new a b sst) (C d)"
    and "range_files depth d (range_new a b sst)"
  shows "ranges_ok P C depth (t\<lparr>ts_key_range := fst (key_range_set (ts_key_range t) d a b sst)\<rparr>)"
proof -
  have "kr_ok P (ts_fs t) C (fst (key_range_set (ts_key_range t) d a b sst))"
    using assms(1,2) by (intro key_range_set_ok) (simp_all add: ranges_ok_def)
  moreover have "\<forall>(d, r) \<in> set (hm_insert d (range_new a b sst) (key_ranges (ts_key_range t)))
      \<union> set (restored_ranges (ts_key_range t)). range_files depth d r"
    using assms(1,3) unfolding ranges_ok_def hm_insert_set by blast
  ultimately show ?thesis
    using assms(1) by (auto simp: ranges_ok_def key_range_set_def hm_insert_dirs)
qed

lemma new_dir_unused:
  assumes "ranges_ok P C depth t" and "\<And>name. files (ts_fs t) (d @ [name]) = None"
  shows "d \<notin> fst ` set (key_ranges (ts_key_range t))"
proof
  assume "d \<in> fst ` set (key_ranges (ts_key_range t))"
  then obtain r where "(d, r) \<in> set (key_ranges (ts_key_range t))" by auto
  then have "range_ok P (ts_fs t) d r (C d)" "range_files depth d r"
    using assms(1) by (auto simp: ranges_ok_def kr_ok_def)
  with assms(2) show False by (auto simp: range_ok_def range_files_def table_on_disk_def)
qed


text \<open>
  The flush as a whole: it succeeds, the new table has the entries of the memtable, and only files in the
  new directory change.
\<close>

lemma flush_ok:
  assumes "tables_ok env P C depth (fl_tables f)" and "ticking P env N" and "ts_reads (fl_tables f) + 2 \<le> N"
    and "flushable P m"
  shows "\<exists>d t'. flush env f tid m = Ok (f\<lparr>read_only_memtable := map (\<lambda>(i, mt). (i, if i = tid then mt\<lparr>mt_entries := []\<rparr> else mt))
        (read_only_memtable f), fl_tables := t'\<rparr>)
    \<and> tables_ok env P (C(d := mt_entries m)) depth t' \<and> ts_reads t' = ts_reads (fl_tables f) + 2
    \<and> length d = depth + 3 \<and> d \<notin> fst ` set (key_ranges (ts_key_range (fl_tables f)))
    \<and> fst ` set (key_ranges (ts_key_range t')) = insert d (fst ` set (key_ranges (ts_key_range (fl_tables f))))
    \<and> restored_ranges (ts_key_range t') = restored_ranges (ts_key_range (fl_tables f))
    \<and> (\<forall>p. butlast p \<noteq> d \<longrightarrow> files (ts_fs t') p = files (ts_fs (fl_tables f)) p)
    \<and> (\<forall>p. dirs (ts_fs (fl_tables f)) p \<longrightarrow> dirs (ts_fs t') p) \<and> bm_dir (ts_buckets t') = bm_dir (ts_buckets (fl_tables f))"
proof -
  define t n where "t = fl_tables f" and "n = ts_reads t"
  define table where "table = insertable_memtable m"
  define d where "d = target_dir (ts_buckets t) table (uuid env n) (clock env n)"
  have rg: "ranges_ok P C depth t" and bk: "buckets_ok env depth t" and fl: "disk_ok env P C t" and n: "n < N"
    using assms(1,3) by (auto simp: t_def tables_ok_def n_def)
  let ?i = "fst (target_bucket (ts_buckets t) table (uuid env n))"
  have d: "d = bm_dir (ts_buckets t) @ [BUCKET_DIRECTORY_PREFIX @ ?i, sst_dir_name (clock env n)]"
    using target_bucket_dir [OF bk] by (simp add: d_def)
  have len: "length d = depth + 3"
    using bk by (simp add: d buckets_ok_def)
  obtain k where k: "k < n + 2" "?i = uuid env k"
    using target_bucket_uuid [OF bk] by (auto simp: n_def)
  have fresh: "files (ts_fs t) (d @ [name]) = None" for name
    using fresh_dir [OF fl assms(2)] n by (simp add: d n_def)
  have rdy: "insert_ready P (ts_fs t) d table"
    using fresh assms(4) by (auto simp: insert_ready_def table_def insertable_memtable_def flushable_def mt_wf_def entries_ok_def)
  obtain fs' bm' sst b' where ins: "insert_to_appropriate_bucket (ts_fs t) (ts_buckets t) table (uuid env n) (clock env n) (clock env (n + 1)) = Ok (fs', bm', sst)"
    and new: "new_table P fs' d table sst" and fr: "\<forall>p. butlast p \<noteq> d \<longrightarrow> files fs' p = files (ts_fs t) p"
    and ad: "adds_dirs (ts_fs t) fs' d"
    and bm: "bm_wf fs' bm'" "bm' = (ts_buckets t)\<lparr>buckets := im_insert (fst (target_bucket (ts_buckets t) table (uuid env n))) b' (buckets (ts_buckets t))\<rparr>"
      "b_dir b' = snd (target_bucket (ts_buckets t) table (uuid env n))"
    using insert_appropriate_ok [of "ts_fs t" "ts_buckets t" "uuid env n" P table "clock env n" "clock env (n + 1)"]
      rdy bk fresh_uuid [OF bk assms(2)] n unfolding d_def buckets_ok_def n_def by blast
  obtain summary where sum: "t_summary sst = Some summary" and flt: "t_filter sst \<noteq> None"
    using new by (auto simp: new_table_def)
  define kr where "kr = fst (key_range_set (ts_key_range t) d (smallest_key summary) (biggest_key summary) (sst\<lparr>t_entries := []\<rparr>))"
  define t' where "t' = t\<lparr>ts_fs := fs', ts_buckets := clear_shared_entries d bm', ts_reads := n + 2, ts_key_range := kr\<rparr>"
  have rng: "range_ok P fs' d (range_new (smallest_key summary) (biggest_key summary) (sst\<lparr>t_entries := []\<rparr>)) (mt_entries m)
      \<and> range_files depth d (range_new (smallest_key summary) (biggest_key summary) (sst\<lparr>t_entries := []\<rparr>))"
    using new_range_ok [OF _ assms(4) sum len] new by (simp add: table_def)
  have unused: "d \<notin> fst ` set (key_ranges (ts_key_range t))"
    by (rule new_dir_unused [OF rg fresh])
  have "ranges_ok P (C(d := mt_entries m)) depth (t\<lparr>ts_fs := fs'\<rparr>)"
  proof (rule ranges_ok_frame [OF rg])
    fix d' name assume "d' \<in> fst ` set (key_ranges (ts_key_range t))"
    with unused have "d' \<noteq> d" by blast
    with fr show "files (ts_fs (t\<lparr>ts_fs := fs'\<rparr>)) (d' @ [name]) = files (ts_fs t) (d' @ [name])" "(C(d := mt_entries m)) d' = C d'"
      by simp_all
  qed simp
  from ranges_ok_set [OF this, of d "smallest_key summary" "biggest_key summary" "sst\<lparr>t_entries := []\<rparr>"] rng
  have "ranges_ok P (C(d := mt_entries m)) depth t'"
    by (simp add: ranges_ok_def t'_def kr_def)
  moreover have "buckets_ok env depth t'"
    using buckets_ok_insert [OF bk bm(1) bm(2) [unfolded n_def], of d] bm(3) target_bucket_dir [OF bk] target_bucket_uuid [OF bk]
    by (simp add: t'_def n_def buckets_ok_def)
  moreover have "disk_ok env P (C(d := mt_entries m)) t'"
  proof (rule disk_ok_new_dir [OF fl])
    have "dirs fs' d" using ad by (simp add: adds_dirs_def)
    from new_dir_on_disk [OF new [unfolded table_def] assms(4) this d [unfolded k(2)] k(1)]
    show "dir_on_disk env P (ts_fs t') (ts_reads t') (bm_dir (ts_buckets t)) d (mt_entries m)" by (simp add: t'_def)
  qed (use fr ad unused bm(2) in \<open>simp_all add: t'_def n_def kr_def key_range_set_def hm_insert_dirs clear_shared_entries_def\<close>)
  ultimately have ok: "tables_ok env P (C(d := mt_entries m)) depth t'"
    by (simp add: tables_ok_def)
  have "t_dir sst = d" using new by (simp add: new_table_def)
  moreover have "mt_entries m \<noteq> []" using assms(4) by (simp add: flushable_def)
  ultimately have "flush env f tid m = Ok (f\<lparr>read_only_memtable := map (\<lambda>(i, mt). (i, if i = tid then mt\<lparr>mt_entries := []\<rparr> else mt))
        (read_only_memtable f), fl_tables := t'\<rparr>)"
    using ins sum flt
    by (simp add: flush_def flush_write_def flush_clear_def flush_register_def Let_def t'_def kr_def
        flip: t_def n_def table_def)
  then show ?thesis
    using ok len unused fr ad bm(2)
    by (intro exI [of _ d] exI [of _ t'])
      (simp add: t'_def kr_def key_range_set_def hm_insert_dirs n_def adds_dirs_def clear_shared_entries_def flip: t_def)
qed

end
