(* ===== verification/Store_Refinement.thy ===== *)
theory Store_Refinement
  imports Store_Reads Table_State
begin

text \<open>
  The store implements the map that its value log describes. The invariant \<open>store_inv\<close> ties the memtables,
  the tables on disk and the pending background tasks to the entries of the log. Every write, every read and
  every background task keeps it, with flushes running from the oldest memtable on; a read then returns
  the value of the last write.
\<close>

section \<open>The invariant\<close>

abbreviation depth :: "DataStore \<Rightarrow> nat" where
  "depth s \<equiv> length (dir_root (ds_dir s))"

abbreviation meta_file_path :: "path \<Rightarrow> path" where
  "meta_file_path root \<equiv> root @ [META_DIRECTORY_NAME, META_FILE]"

abbreviation vlog_file_path :: "path \<Rightarrow> path" where
  "vlog_file_path root \<equiv> root @ [VALUE_LOG_DIRECTORY_NAME, VLOG_FILE_NAME]"

text \<open>A new memtable can be made with this configuration, and it is not full at once.\<close>

definition config_ok :: "platform \<Rightarrow> Config \<Rightarrow> bool" where
  "config_ok P c \<longleftrightarrow> f64_ge P (false_pos_rate c) (f64_of_nat P 0)
     \<and> as_bytes (cfg_size_unit c) (cfg_capacity c) div 100 \<noteq> 0
     \<and> calculate_no_of_bits P (as_bytes (cfg_size_unit c) (cfg_capacity c) div 100) (false_pos_rate c) \<noteq> 0
     \<and> false_pos_rate c = DEFAULT_FALSE_POSITIVE_RATE \<and> HEAD_KEY_SIZE + 13 < cfg_capacity c"

definition fits :: "platform \<Rightarrow> nat \<Rightarrow> MemTable \<Rightarrow> bool" where
  "fits P n m \<longleftrightarrow> mt_wf P m \<and> entries_ok P (mt_entries m) \<and> length (data_file_of (mt_entries m)) \<le> n \<and> savable P m"

text \<open>The memtable ends where the log ends.\<close>

definition recent :: "MemTable \<Rightarrow> ValueLogEntry list \<Rightarrow> bool" where
  "recent m log \<longleftrightarrow> (if mt_entries m = [] then mt_size m = 0 \<and> get_most_recent_offset m = 0
     else log \<noteq> [] \<and> get_most_recent_offset m = log_offset (butlast log))"

definition memtables_ok :: "platform \<Rightarrow> DataStore \<Rightarrow> ValueLogEntry list \<Rightarrow> bool" where
  "memtables_ok P s log \<longleftrightarrow> fits P (log_offset log) (active_memtable s) \<and> config_ok P (mt_config (active_memtable s))
     \<and> recent (active_memtable s) log
     \<and> (\<forall>(i, m) \<in> set (read_only_memtables s). fits P (log_offset log + 21) m \<and> mt_entries m \<noteq> [])
     \<and> sm_sorted (read_only_memtables s)
     \<and> (\<forall>m \<in> set (gc_tables s). mt_wf P m) \<and> gc_table s < length (gc_tables s)"

definition paths_ok :: "DataStore \<Rightarrow> bool" where
  "paths_ok s \<longleftrightarrow> dir_path_build (dir_root (ds_dir s)) = ds_dir s
     \<and> vl_path (val_log s) = vlog_file_path (dir_root (ds_dir s)) \<and> meta_path (ds_meta s) = meta_file_path (dir_root (ds_dir s))
     \<and> bm_dir (ts_buckets (ds_tables s)) = dir_root (ds_dir s) @ [BUCKETS_DIRECTORY_NAME]
     \<and> dirs (ds_fs s) (dir_root (ds_dir s) @ [VALUE_LOG_DIRECTORY_NAME])
     \<and> dirs (ds_fs s) (dir_root (ds_dir s) @ [META_DIRECTORY_NAME]) \<and> files (ds_fs s) (meta_file_path (dir_root (ds_dir s))) \<noteq> None"

definition task_ok :: "platform \<Rightarrow> (path \<Rightarrow> entries) \<Rightarrow> DataStore \<Rightarrow> bg_task \<Rightarrow> bool" where
  "task_ok P C s t =
     (case t of
        Gc_Table_Insert cell _ \<Rightarrow> cell < length (gc_tables s)
      | Gc_Log_Head _ \<Rightarrow> True
      | Meta_Write m \<Rightarrow> meta_path m = meta_path (ds_meta s)
      | Flush_Task i m \<Rightarrow> sm_get (read_only_memtables s) i = Some m
      | Publish_Ranges rs \<Rightarrow> publishable P C (depth s) (ds_tables s) rs)"

fun flush_id :: "bg_task \<Rightarrow> bytes list" where
  "flush_id (Flush_Task i m) = [i]"
| "flush_id _ = []"

definition tasks_ok :: "platform \<Rightarrow> (path \<Rightarrow> entries) \<Rightarrow> DataStore \<Rightarrow> bool" where
  "tasks_ok P C s \<longleftrightarrow> (\<forall>t \<in> set (ds_tasks s). task_ok P C s t)
     \<and> distinct (concat (map flush_id (ds_tasks s)))
     \<and> set (concat (map flush_id (ds_tasks s))) \<subseteq> set (flush_stream s)"

definition log_ok :: "environment \<Rightarrow> nat \<Rightarrow> ValueLogEntry list \<Rightarrow> bool" where
  "log_ok env n log \<longleftrightarrow> log_ordered log \<and> log_offset log + 21 < 2 ^ 32
     \<and> (\<forall>e \<in> set log. length (vle_key e) + 17 \<le> BLOCK_SIZE \<and> 0 < vle_millis e \<and> (\<exists>m < n. vle_millis e = timestamp_millis (clock env m)))"

text \<open>
  The head in the metadata is the last entry of a part \<open>base\<close> of the log. The tables, and the memtables whose flush
  is scheduled, have entries of this part only; tables and read-only memtables have the newest entries of it.
\<close>

definition table_layer :: "(path \<Rightarrow> entries) \<Rightarrow> DataStore \<Rightarrow> layer" where
  "table_layer C s = (\<lambda>d. user_map (C d)) ` sst_dirs (ds_key_range s)"

definition ro_layer :: "DataStore \<Rightarrow> layer" where
  "ro_layer s = (\<lambda>(i, m). user_map (mt_entries m)) ` set (read_only_memtables s)"

definition flush_layer :: "DataStore \<Rightarrow> layer" where
  "flush_layer s = {user_map (mt_entries m) |i m. Flush_Task i m \<in> set (ds_tasks s)}"

definition checkpoint :: "(path \<Rightarrow> entries) \<Rightarrow> DataStore \<Rightarrow> ValueLogEntry list \<Rightarrow> bool" where
  "checkpoint C s log \<longleftrightarrow> (\<exists>xs e ys. log = xs @ e # ys \<and> v_log_head (ds_meta s) = log_offset xs
     \<and> based (table_layer C s \<union> flush_layer s) (ro_layer s \<union> table_layer C s) (xs @ [e]))"

text \<open>All but the log file, which a write extends first.\<close>

definition store_core :: "environment \<Rightarrow> platform \<Rightarrow> (path \<Rightarrow> entries) \<Rightarrow> DataStore \<Rightarrow> ValueLogEntry list \<Rightarrow> bool" where
  "store_core env P C s log \<longleftrightarrow> gc_updated_entries s = [] \<and> log_ok env (ds_reads s) log \<and> memtables_ok P s log
     \<and> tables_ok env P C (depth s) (ds_tables s) \<and> tasks_ok P C s \<and> paths_ok s \<and> represents (layers C s) log
     \<and> checkpoint C s log"

definition store_inv :: "environment \<Rightarrow> platform \<Rightarrow> (path \<Rightarrow> entries) \<Rightarrow> DataStore \<Rightarrow> ValueLogEntry list \<Rightarrow> bool" where
  "store_inv env P C s log \<longleftrightarrow> store_core env P C s log \<and> vlog_inv P (ds_fs s, val_log s) log"

section \<open>Reads\<close>

lemma store_inv_readable:
  assumes "store_inv env P C s log"
  shows "readable P C s log" and "represents (layers C s) log"
  using assms
  by (auto simp: store_inv_def store_core_def readable_def log_ok_def memtables_ok_def tables_ok_def ranges_ok_def fits_def)

lemma log_ok_mono:
  assumes "log_ok env n log" and "n \<le> n'"
  shows "log_ok env n' log"
proof -
  have "\<exists>m < n'. x = timestamp_millis (clock env m)" if "\<exists>m < n. x = timestamp_millis (clock env m)" for x
  proof -
    from that obtain m where "m < n" "x = timestamp_millis (clock env m)" by blast
    with assms(2) show ?thesis by (intro exI [of _ m]) simp
  qed
  with assms(1) show ?thesis unfolding log_ok_def by blast
qed

lemma tasks_ok_same:
  assumes "tasks_ok P C s" and "ds_tasks s' = ds_tasks s" and "flush_stream s' = flush_stream s"
    and "\<And>t. task_ok P C s t \<Longrightarrow> task_ok P C s' t"
  shows "tasks_ok P C s'"
  using assms by (auto simp: tasks_ok_def)

lemma checkpoint_mono:
  assumes "checkpoint C s log" and "v_log_head (ds_meta s') = v_log_head (ds_meta s)"
    and "table_layer C' s' \<union> flush_layer s' \<subseteq> table_layer C s \<union> flush_layer s"
    and "ro_layer s \<union> table_layer C s \<subseteq> ro_layer s' \<union> table_layer C' s'"
  shows "checkpoint C' s' (log @ es)"
proof -
  obtain xs e ys where c: "log = xs @ e # ys" "v_log_head (ds_meta s) = log_offset xs"
    "based (table_layer C s \<union> flush_layer s) (ro_layer s \<union> table_layer C s) (xs @ [e])"
    using assms(1) by (auto simp: checkpoint_def)
  then show ?thesis
    unfolding checkpoint_def using assms(2) based_mono [OF c(3) assms(3,4)]
    by (intro exI [of _ xs] exI [of _ e] exI [of _ "ys @ es"]) simp
qed

lemmas checkpoint_same = checkpoint_mono [where es = "[]", unfolded append_Nil2]

lemmas layer_defs = table_layer_def ro_layer_def flush_layer_def

lemma store_core_more_tables:
  assumes "store_core env P C s log" and "tables_ok env P C (depth s) t'" and "ds_reads s \<le> ts_reads t'"
    and "sst_dirs (ts_key_range t') = sst_dirs (ds_key_range s)"
    and "\<And>rs. publishable P C (depth s) (ds_tables s) rs \<Longrightarrow> publishable P C (depth s) t' rs"
    and "bm_dir (ts_buckets t') = bm_dir (ts_buckets (ds_tables s))" and "dirs (ts_fs t') = dirs (ds_fs s)"
    and "\<And>p. files (ds_fs s) p \<noteq> None \<Longrightarrow> files (ts_fs t') p \<noteq> None"
  shows "store_core env P C (s\<lparr>ds_tables := t'\<rparr>) log"
proof -
  have "tasks_ok P C (s\<lparr>ds_tables := t'\<rparr>)"
  proof (rule tasks_ok_same)
    show "tasks_ok P C s" using assms(1) by (simp add: store_core_def)
    show "task_ok P C s t \<Longrightarrow> task_ok P C (s\<lparr>ds_tables := t'\<rparr>) t" for t
      using assms(5) by (cases t) (auto simp: task_ok_def)
  qed simp_all
  moreover have "log_ok env (ts_reads t') log"
    using assms(1,3) log_ok_mono [of env "ds_reads s" log] by (simp add: store_core_def)
  moreover have "layers C (s\<lparr>ds_tables := t'\<rparr>) = layers C s"
    by (simp add: layers_def assms(4))
  moreover have "checkpoint C (s\<lparr>ds_tables := t'\<rparr>) log"
    by (rule checkpoint_same [of C s]) (use assms(1,4) in \<open>simp_all add: store_core_def layer_defs\<close>)
  moreover have "paths_ok (s\<lparr>ds_tables := t'\<rparr>)"
  proof -
    have p: "paths_ok s" using assms(1) by (simp add: store_core_def)
    then have "files (ts_fs t') (meta_file_path (dir_root (ds_dir s))) \<noteq> None"
      by (intro assms(8)) (simp add: paths_ok_def)
    with p show ?thesis by (simp add: paths_ok_def assms(6,7))
  qed
  ultimately show ?thesis
    using assms(1,2) by (simp add: store_core_def memtables_ok_def)
qed

lemma sst_dirs_update: "sst_dirs (update_key_range kr) = sst_dirs kr"
  using merge_ranges_dirs [of "restored_ranges kr" "key_ranges kr"] by (auto simp: sst_dirs_def update_key_range_def)

lemma key_dirs_update: "fst ` set (key_ranges kr) \<subseteq> fst ` set (key_ranges (update_key_range kr))"
  using merge_ranges_dirs [of "restored_ranges kr" "key_ranges kr"] by (auto simp: update_key_range_def)

lemma store_core_update_key_range:
  assumes "store_core env P C s log"
  shows "store_core env P C (s\<lparr>ds_tables := (ds_tables s)\<lparr>ts_key_range := update_key_range (ds_key_range s)\<rparr>\<rparr>) log"
proof (rule store_core_more_tables [OF assms])
  show "tables_ok env P C (depth s) ((ds_tables s)\<lparr>ts_key_range := update_key_range (ds_key_range s)\<rparr>)"
    using assms by (intro tables_ok_update_key_range) (simp add: store_core_def)
  show "publishable P C (depth s) ((ds_tables s)\<lparr>ts_key_range := update_key_range (ds_key_range s)\<rparr>) rs"
    if "publishable P C (depth s) (ds_tables s) rs" for rs
    using that key_dirs_update [of "ds_key_range s"] by (intro publishable_frame [OF that]) simp_all
qed (simp_all add: sst_dirs_update)

lemma store_core_outside:
  assumes "store_core env P C s log" and "outside_tables (bm_dir (ts_buckets (ds_tables s))) (ds_fs s) fs'" and "ds_reads s \<le> n"
  shows "store_core env P C (s\<lparr>ds_tables := (ds_tables s)\<lparr>ts_fs := fs', ts_reads := n\<rparr>\<rparr>) log"
proof (rule store_core_more_tables [OF assms(1)])
  show "tables_ok env P C (depth s) ((ds_tables s)\<lparr>ts_fs := fs', ts_reads := n\<rparr>)"
    using assms by (intro tables_ok_outside) (simp_all add: store_core_def)
  show "publishable P C (depth s) ((ds_tables s)\<lparr>ts_fs := fs', ts_reads := n\<rparr>) rs"
    if "publishable P C (depth s) (ds_tables s) rs" for rs
    using assms by (intro publishable_outside [OF that, of env]) (simp_all add: store_core_def tables_ok_def)
qed (use assms(2,3) in \<open>simp_all add: outside_tables_def\<close>)


section \<open>Moving the active memtable to the read-only ones\<close>

lemma new_memtable:
  assumes "config_ok P c"
  obtains m where "with_specified_capacity_and_rate P now now' (cfg_size_unit c) (cfg_capacity c) (false_pos_rate c) = Ok m"
    and "fits P 0 m" and "mt_entries m = []" and "mt_config m = c" and "mt_size m = 0" and "get_most_recent_offset m = 0"
proof -
  have r: "f64_ge P (false_pos_rate c) (f64_of_nat P 0)" "as_bytes (cfg_size_unit c) (cfg_capacity c) div 100 \<noteq> 0" "cfg_capacity c \<noteq> 0"
    "calculate_no_of_bits P (as_bytes (cfg_size_unit c) (cfg_capacity c) div 100) (false_pos_rate c) \<noteq> 0"
    and d: "false_pos_rate c = DEFAULT_FALSE_POSITIVE_RATE"
    using assms by (auto simp: config_ok_def)
  from r(1-3) obtain m where m: "with_specified_capacity_and_rate P now now' (cfg_size_unit c) (cfg_capacity c) (false_pos_rate c) = Ok m"
    by (auto simp: with_specified_capacity_and_rate_def bf_new_def Let_def)
  note new = mt_new_wf [OF m r(4)]
  have "fits P 0 m"
    using new savable_new [OF m d] by (simp add: fits_def entries_ok_def data_file_of_def)
  moreover have "mt_config m = c"
    using m by (auto simp: with_specified_capacity_and_rate_def Let_def split: if_splits)
  ultimately show thesis using m new by (intro that) blast+
qed

lemma sm_insert_subset: "set (sm_insert k v es) \<subseteq> insert (k, v) (set es)"
  by (induction es) auto

lemma data_file_insert_length:
  "length (data_file_of (sm_insert k v es)) \<le> length (data_file_of es) + length k + 17"
proof (induction es)
  case (Cons e es)
  have c: "length (data_file_of (e # es)) = length (data_bytes (data_record_of e)) + length (data_file_of es)" for e es
    by (simp add: data_file_of_def)
  show ?case
    using Cons by (simp add: c length_data_bytes)
qed (simp add: data_file_of_def length_data_bytes)

lemma data_file_entries: "length es \<le> length (data_file_of es)"
proof (induction es)
  case (Cons e es)
  have "0 < length (data_bytes (data_record_of e))" using length_data_bytes [of "fst e" "snd e"] by simp
  with Cons show ?case by (simp add: data_file_of_def del: length_greater_0_conv)
qed simp

lemma fits_insert:
  assumes "fits P n m" and "mt_insert P m e = Ok m'" and "entry_ok P (e_key e, entry_value e)"
    and "length (e_key e) + 17 \<le> BLOCK_SIZE" and "n + 1 < 2 ^ 32"
  shows "fits P (n + length (e_key e) + 17) m'"
proof -
  have wf: "mt_wf P m" using assms(1) by (simp add: fits_def)
  note eff = mt_insert_effect [OF wf assms(2)]
  have "set (mt_entries m') \<subseteq> insert (e_key e, entry_value e) (set (mt_entries m))"
    unfolding eff(2) by (rule sm_insert_subset)
  then have "entries_ok P (mt_entries m')"
    using assms(1,3,4) by (auto simp: fits_def entries_ok_def)
  moreover have "length (data_file_of (mt_entries m')) \<le> n + length (e_key e) + 17"
    using data_file_insert_length [of "e_key e" "entry_value e" "mt_entries m"] assms(1) unfolding eff(2)
    by (simp add: fits_def)
  moreover have "savable P m'"
    using assms(1,5) data_file_entries [of "mt_entries m"] by (intro savable_insert [OF wf _ assms(2)]) (auto simp: fits_def)
  ultimately show ?thesis using eff(1) by (simp add: fits_def)
qed

lemma recent_insert:
  assumes "recent m log" and "mt_wf P m" and "mt_insert P m (Entry_new k (log_offset log) t d) = Ok m'"
  shows "recent m' (log @ [e])"
proof -
  have "log_offset (butlast log) \<le> log_offset log"
    by (cases log rule: rev_cases) (simp_all add: vlog_file_of_append)
  then have "get_most_recent_offset m \<le> log_offset log"
    using assms(1) by (auto simp: recent_def split: if_splits)
  moreover note eff = mt_insert_effect [OF assms(2,3)]
  moreover have "mt_entries m' \<noteq> []" unfolding eff(2) by (cases "mt_entries m") auto
  ultimately show ?thesis by (simp add: recent_def Entry_new_def max_def)
qed

lemma fits_mono: "fits P n m \<Longrightarrow> n \<le> n' \<Longrightarrow> fits P n' m"
  by (auto simp: fits_def)

lemma user_map_insert:
  "sm_sorted es \<Longrightarrow> user_map (sm_insert k v es) = (if k \<in> reserved then user_map es else (user_map es)(k \<mapsto> v))"
  by (auto simp: user_map_def sm_insert_get)

lemma user_map_Nil [simp]: "user_map [] = Map.empty"
  by (auto simp: user_map_def)

text \<open>Scheduling the flushes changes the list of tasks and the set of scheduled ids only.\<close>

lemma flush_read_only_fields:
  fixes s :: DataStore
  shows "\<exists>ts fl. flush_read_only_memtables s = s\<lparr>flush_stream := fl, ds_tasks := ds_tasks s @ ts\<rparr>
    \<and> set (flush_stream s) \<subseteq> set fl
    \<and> (\<forall>t \<in> set ts. \<exists>i m. t = Flush_Task i m \<and> (i, m) \<in> set (read_only_memtables s))
    \<and> (distinct (concat (map flush_id (ds_tasks s))) \<and> set (concat (map flush_id (ds_tasks s))) \<subseteq> set (flush_stream s)
       \<longrightarrow> distinct (concat (map flush_id (ds_tasks s @ ts))) \<and> set (concat (map flush_id (ds_tasks s @ ts))) \<subseteq> set fl)"
proof -
  define f where "f = (\<lambda>(key, value) (s :: DataStore).
         if key \<in> set (flush_stream s) then s
         else s\<lparr>flush_stream := flush_stream s @ [key], ds_tasks := ds_tasks s @ [Flush_Task key value]\<rparr>)"
  have "\<exists>ts fl. fold f kvs s = s\<lparr>flush_stream := fl, ds_tasks := ds_tasks s @ ts\<rparr>
    \<and> set (flush_stream s) \<subseteq> set fl
    \<and> (\<forall>t \<in> set ts. \<exists>i m. t = Flush_Task i m \<and> (i, m) \<in> set kvs)
    \<and> (distinct (concat (map flush_id (ds_tasks s))) \<and> set (concat (map flush_id (ds_tasks s))) \<subseteq> set (flush_stream s)
       \<longrightarrow> distinct (concat (map flush_id (ds_tasks s @ ts))) \<and> set (concat (map flush_id (ds_tasks s @ ts))) \<subseteq> set fl)" for kvs
  proof (induction kvs arbitrary: s)
    case Nil
    show ?case by (intro exI [of _ "[]"] exI [of _ "flush_stream s"]) simp
  next
    case (Cons e kvs)
    obtain k v where e: "e = (k, v)" by force
    show ?case
    proof (cases "k \<in> set (flush_stream s)")
      case True
      then have "f e s = s" by (simp add: e f_def)
      moreover obtain ts fl where "fold f kvs s = s\<lparr>flush_stream := fl, ds_tasks := ds_tasks s @ ts\<rparr>"
        "set (flush_stream s) \<subseteq> set fl" "\<forall>t \<in> set ts. \<exists>i m. t = Flush_Task i m \<and> (i, m) \<in> set kvs"
        "distinct (concat (map flush_id (ds_tasks s))) \<and> set (concat (map flush_id (ds_tasks s))) \<subseteq> set (flush_stream s)
       \<longrightarrow> distinct (concat (map flush_id (ds_tasks s @ ts))) \<and> set (concat (map flush_id (ds_tasks s @ ts))) \<subseteq> set fl"
        using Cons.IH [of s] by blast
      ultimately show ?thesis
        by (intro exI [of _ ts] exI [of _ fl]) auto
    next
      case False
      define s1 where "s1 = s\<lparr>flush_stream := flush_stream s @ [k], ds_tasks := ds_tasks s @ [Flush_Task k v]\<rparr>"
      have "f e s = s1" using False by (simp add: e f_def s1_def)
      moreover obtain ts fl where "fold f kvs s1 = s1\<lparr>flush_stream := fl, ds_tasks := ds_tasks s1 @ ts\<rparr>"
        "set (flush_stream s1) \<subseteq> set fl" "\<forall>t \<in> set ts. \<exists>i m. t = Flush_Task i m \<and> (i, m) \<in> set kvs"
        "distinct (concat (map flush_id (ds_tasks s1))) \<and> set (concat (map flush_id (ds_tasks s1))) \<subseteq> set (flush_stream s1)
       \<longrightarrow> distinct (concat (map flush_id (ds_tasks s1 @ ts))) \<and> set (concat (map flush_id (ds_tasks s1 @ ts))) \<subseteq> set fl"
        using Cons.IH [of s1] by blast
      ultimately show ?thesis
        using False by (intro exI [of _ "Flush_Task k v # ts"] exI [of _ fl]) (auto simp: s1_def e)
    qed
  qed
  then show ?thesis by (simp add: flush_read_only_memtables_def f_def)
qed


lemma sm_insert_fresh_set:
  "k \<notin> fst ` set m \<Longrightarrow> set (sm_insert k v m) = insert (k, v) (set m)"
  by (induction m) auto

lemma tasks_ok_more:
  assumes "tasks_ok P C s" and "ds_tasks s' = ds_tasks s @ ts" and "flush_stream s' = flush_stream s"
    and "\<forall>t \<in> set ts. task_ok P C s' t \<and> flush_id t = []" and "\<And>t. task_ok P C s t \<Longrightarrow> task_ok P C s' t"
  shows "tasks_ok P C s'"
proof -
  have "concat (map flush_id ts) = []" using assms(4) by simp
  then have "concat (map flush_id (ds_tasks s')) = concat (map flush_id (ds_tasks s))"
    by (simp add: assms(2))
  then show ?thesis using assms unfolding tasks_ok_def by (simp only: set_append) auto
qed

text \<open>The state after the active memtable, with the entry for the head, became read-only.\<close>

definition migrated ::
  "DataStore \<Rightarrow> nat \<Rightarrow> Meta \<Rightarrow> bg_task list \<Rightarrow> bytes list \<Rightarrow> bytes \<Rightarrow> MemTable \<Rightarrow> MemTable \<Rightarrow> MemTable \<Rightarrow> DataStore" where
  "migrated s h m ts fl i full active gc =
     s\<lparr>val_log := vlog_set_head (val_log s) h, ds_meta := m,
       read_only_memtables := sm_insert i full (read_only_memtables s), flush_stream := fl,
       ds_tasks := ds_tasks s @ [Gc_Log_Head h, Meta_Write m] @ ts, active_memtable := active, gc_tables := gc_tables s @ [gc], gc_table := length (gc_tables s),
       ds_tables := (ds_tables s)\<lparr>ts_reads := ds_reads s + 7\<rparr>\<rparr>"

definition scheduled :: "DataStore \<Rightarrow> ImmutableMemTables \<Rightarrow> bg_task list \<Rightarrow> bytes list \<Rightarrow> bool" where
  "scheduled s ro ts fl \<longleftrightarrow> (\<forall>t \<in> set ts. \<exists>i m. t = Flush_Task i m \<and> (i, m) \<in> set ro)
     \<and> (distinct (concat (map flush_id (ds_tasks s))) \<and> set (concat (map flush_id (ds_tasks s))) \<subseteq> set (flush_stream s)
       \<longrightarrow> distinct (concat (map flush_id (ds_tasks s @ ts))) \<and> set (concat (map flush_id (ds_tasks s @ ts))) \<subseteq> set fl)"

lemma migrate_eq:
  assumes "memtables_ok P s log"
  defines "n \<equiv> ds_reads s"
  defines "h \<equiv> get_most_recent_offset (active_memtable s)"
  obtains full active gc ts fl where
    "migrate_memtable_to_read_only env P s =
       Ok (migrated s h (update_last_modified (clock env n) (meta_set_head (ds_meta s) h)) ts fl
          (generate_table_id (alphanumeric env (n + 2))) (mark_readonly full) active gc)"
    "mt_insert P (active_memtable s) (Entry_new HEAD_ENTRY_KEY h (clock env (n + 1)) False) = Ok full"
    "fits P 0 active" "mt_entries active = []" "mt_config active = mt_config (active_memtable s)" "mt_wf P gc"
    "mt_size active = 0" "get_most_recent_offset active = 0"
    "scheduled (if read_only_memtables s = [] then s\<lparr>flush_stream := []\<rparr> else s)
       (sm_insert (generate_table_id (alphanumeric env (n + 2))) (mark_readonly full) (read_only_memtables s)) ts fl"
proof -
  let ?c = "mt_config (active_memtable s)"
  have wf: "mt_wf P (active_memtable s)" and c: "config_ok P ?c"
    using assms(1) by (auto simp: memtables_ok_def fits_def)
  obtain full where f: "mt_insert P (active_memtable s) (Entry_new HEAD_ENTRY_KEY h (clock env (n + 1)) False) = Ok full"
    using mem.ins_total [OF wf] by blast
  have cf: "mt_config full = ?c"
    by (rule mt_insert_effect [OF wf f])
  obtain active where a: "with_specified_capacity_and_rate P (clock env (n + 3)) (clock env (n + 4)) (cfg_size_unit ?c) (cfg_capacity ?c) (false_pos_rate ?c) = Ok active"
    "fits P 0 active" "mt_entries active = []" "mt_config active = ?c" "mt_size active = 0" "get_most_recent_offset active = 0"
    by (rule new_memtable [OF c])
  obtain gc where g: "with_specified_capacity_and_rate P (clock env (n + 5)) (clock env (n + 6)) (cfg_size_unit ?c) (cfg_capacity ?c) (false_pos_rate ?c) = Ok gc" "fits P 0 gc"
    by (rule new_memtable [OF c])
  define m i where "m = update_last_modified (clock env n) (meta_set_head (ds_meta s) h)"
    and "i = generate_table_id (alphanumeric env (n + 2))"
  have r: "reset_memtables env P u = Ok (u\<lparr>active_memtable := active, gc_tables := gc_tables u @ [gc], gc_table := length (gc_tables u),
      ds_tables := (ds_tables u)\<lparr>ts_reads := n + 7\<rparr>\<rparr>)" if "mt_config (active_memtable u) = ?c" "ds_reads u = n + 3" for u
    using a(1) g(1) that by (simp add: reset_memtables_def Let_def add.commute)
  define fl0 where "fl0 = (if read_only_memtables s = [] then [] else flush_stream s)"
  define u where "u = s\<lparr>val_log := vlog_set_head (val_log s) h, ds_meta := m,
       ds_tables := (ds_tables s)\<lparr>ts_reads := n + 3\<rparr>, active_memtable := mark_readonly full,
       ds_tasks := ds_tasks s @ [Gc_Log_Head h, Meta_Write m], flush_stream := fl0,
       read_only_memtables := sm_insert i (mark_readonly full) (read_only_memtables s)\<rparr>"
  obtain ts fl where sch: "(if max_buffer_write_number (ds_config s) \<le> length (sm_insert i (mark_readonly full) (read_only_memtables s))
      then flush_read_only_memtables u else u) = u\<lparr>flush_stream := fl, ds_tasks := ds_tasks u @ ts\<rparr>"
    "scheduled u (read_only_memtables u) ts fl"
  proof (cases "max_buffer_write_number (ds_config s) \<le> length (sm_insert i (mark_readonly full) (read_only_memtables s))")
    case True
    with flush_read_only_fields [of u] that show thesis by (auto simp: scheduled_def)
  next
    case False
    then show thesis
      by (intro that [of "[]" fl0]) (simp_all add: scheduled_def u_def)
  qed
  show thesis
  proof (rule that [of ts fl full active gc])
    have "migrate_memtable_to_read_only env P s = reset_memtables env P (u\<lparr>flush_stream := fl, ds_tasks := ds_tasks u @ ts\<rparr>)"
      unfolding sch(1) [symmetric] using f
      by (simp add: migrate_memtable_to_read_only_def Let_def update_meta_background_def u_def fl0_def i_def
          flip: h_def n_def m_def)
    then show "migrate_memtable_to_read_only env P s =
       Ok (migrated s h (update_last_modified (clock env n) (meta_set_head (ds_meta s) h)) ts fl
          (generate_table_id (alphanumeric env (n + 2))) (mark_readonly full) active gc)"
      using cf by (simp add: r u_def migrated_def mark_readonly_def i_def flip: m_def n_def)
  qed (use f a g sch(2) in \<open>simp_all add: scheduled_def u_def fl0_def i_def fits_def\<close>)
qed


lemma mark_readonly_simps [simp]:
  "mt_entries (mark_readonly m) = mt_entries m" "mt_wf P (mark_readonly m) = mt_wf P m" "fits P n (mark_readonly m) = fits P n m"
  by (simp_all add: mark_readonly_def fits_def mt_wf_def savable_def)

lemma publishable_reads [simp]: "publishable P C d (t\<lparr>ts_reads := n\<rparr>) rs = publishable P C d t rs"
  by (simp add: publishable_def)

lemma head_entry_fits:
  assumes "fits P n m" and "mt_insert P m (Entry_new HEAD_ENTRY_KEY h t False) = Ok m'" and "wf_time P t" and "8 \<le> max_read P"
    and "n + 1 < 2 ^ 32"
  shows "fits P (n + 21) m'" and "mt_entries m' \<noteq> []" and "user_map (mt_entries m') = user_map (mt_entries m)"
proof -
  let ?e = "Entry_new HEAD_ENTRY_KEY h t False"
  have k: "e_key ?e = HEAD_ENTRY_KEY" "length HEAD_ENTRY_KEY = 4"
    by (simp_all add: Entry_new_def HEAD_ENTRY_KEY_def)
  have wf: "mt_wf P m" using assms(1) by (simp add: fits_def)
  have "entry_ok P (e_key ?e, entry_value ?e)"
    using assms(3,4) by (simp add: entry_ok_def field_ok_def Entry_new_def HEAD_ENTRY_KEY_def entry_value_def SkipMapValue_new_def)
  from fits_insert [OF assms(1,2) this _ assms(5)] show "fits P (n + 21) m'"
    by (simp add: k BLOCK_SIZE_def add.commute)
  note eff = mt_insert_effect [OF wf assms(2)]
  show "mt_entries m' \<noteq> []"
    unfolding eff(2) by (cases "mt_entries m") auto
  show "user_map (mt_entries m') = user_map (mt_entries m)"
    using wf by (simp add: eff(2) k user_map_insert mt_wf_def)
qed

lemma migrated_tasks_ok:
  assumes "tasks_ok P C s" and "sm_sorted (read_only_memtables s)" and "i \<notin> fst ` set (read_only_memtables s)"
    and "meta_path m = meta_path (ds_meta s)"
    and "scheduled (if read_only_memtables s = [] then s\<lparr>flush_stream := []\<rparr> else s) (sm_insert i full (read_only_memtables s)) ts fl"
  shows "tasks_ok P C (migrated s h m ts fl i full active gc)"
proof -
  let ?s = "migrated s h m ts fl i full active gc"
  have ids: "distinct (concat (map flush_id (ds_tasks s)))" "set (concat (map flush_id (ds_tasks s))) \<subseteq> set (flush_stream s)"
    and old: "\<forall>t \<in> set (ds_tasks s). task_ok P C s t"
    using assms(1) by (auto simp: tasks_ok_def)
  have srt: "sm_sorted (sm_insert i full (read_only_memtables s))"
    using assms(2) by (rule sm_insert_sorted)
  have keep: "task_ok P C ?s t" if "task_ok P C s t" for t
  proof (cases t)
    case (Flush_Task j x)
    with that have "sm_get (read_only_memtables s) j = Some x" by (simp add: task_ok_def)
    moreover from this have "j \<noteq> i" using assms(3) by (force dest: sm_get_in_set)
    ultimately show ?thesis
      using assms(2) Flush_Task by (simp add: task_ok_def migrated_def sm_insert_get)
  qed (use that assms(4) in \<open>auto simp: task_ok_def migrated_def\<close>)
  have new: "task_ok P C ?s t" if "t \<in> set ts" for t
    using assms(5) that srt by (auto simp: scheduled_def task_ok_def migrated_def sm_get_def sm.iter_distinct)
  have "flush_id t = []" if "read_only_memtables s = []" "t \<in> set (ds_tasks s)" for t
    using old that by (cases t) (auto simp: task_ok_def)
  then have "read_only_memtables s = [] \<Longrightarrow> concat (map flush_id (ds_tasks s)) = []" by simp
  then have "distinct (concat (map flush_id (ds_tasks s @ ts)))" "set (concat (map flush_id (ds_tasks s @ ts))) \<subseteq> set fl"
    using assms(5) ids by (auto simp: scheduled_def split: if_splits)
  moreover have "task_ok P C ?s (Gc_Log_Head h)" "task_ok P C ?s (Meta_Write m)"
    by (simp_all add: task_ok_def migrated_def)
  ultimately show ?thesis
    using old keep new unfolding tasks_ok_def by (auto simp: migrated_def)
qed


lemma migrate_ok:
  assumes core: "store_core env P C s log" and tick: "ticking P env N" "ds_reads s + 7 \<le> N" and rd: "8 \<le> max_read P"
    and fresh: "generate_table_id (alphanumeric env (ds_reads s + 2)) \<notin> fst ` set (read_only_memtables s)"
    and ne: "mt_entries (active_memtable s) \<noteq> []"
  shows "\<exists>s' h. migrate_memtable_to_read_only env P s = Ok s' \<and> store_core env P C s' log
    \<and> ds_fs s' = ds_fs s \<and> val_log s' = vlog_set_head (val_log s) h \<and> ds_reads s' = ds_reads s + 7
    \<and> ds_dir s' = ds_dir s"
proof -
  have mts: "memtables_ok P s log" and tabs: "tables_ok env P C (depth s) (ds_tables s)" and tsk: "tasks_ok P C s"
    and rep: "represents (layers C s) log"
    using core by (auto simp: store_core_def)
  define i where "i = generate_table_id (alphanumeric env (ds_reads s + 2))"
  define h where "h = get_most_recent_offset (active_memtable s)"
  define m where "m = update_last_modified (clock env (ds_reads s)) (meta_set_head (ds_meta s) h)"
  obtain full active gc ts fl where mig: "migrate_memtable_to_read_only env P s =
       Ok (migrated s h m ts fl i (mark_readonly full) active gc)"
    and ins: "mt_insert P (active_memtable s) (Entry_new HEAD_ENTRY_KEY h (clock env (ds_reads s + 1)) False) = Ok full"
    and new: "fits P 0 active" "mt_entries active = []" "mt_config active = mt_config (active_memtable s)" "mt_wf P gc"
      "mt_size active = 0" "get_most_recent_offset active = 0"
    and sch: "scheduled (if read_only_memtables s = [] then s\<lparr>flush_stream := []\<rparr> else s)
       (sm_insert i (mark_readonly full) (read_only_memtables s)) ts fl"
    by (rule migrate_eq [OF mts, of env]) (auto simp: i_def h_def m_def)
  let ?s = "migrated s h m ts fl i (mark_readonly full) active gc"
  have act: "fits P (log_offset log) (active_memtable s)" and srt: "sm_sorted (read_only_memtables s)"
    and h: "log \<noteq> []" "h = log_offset (butlast log)"
    using mts ne by (auto simp: memtables_ok_def recent_def h_def)
  have t: "wf_time P (clock env (ds_reads s + 1))"
    using ticking_time [OF tick(1)] tick(2) by simp
  have "log_offset log + 1 < 2 ^ 32" using core by (simp add: store_core_def log_ok_def)
  note full = head_entry_fits [OF act ins t rd this]
  have ro: "set (read_only_memtables ?s) = insert (i, mark_readonly full) (set (read_only_memtables s))"
    using fresh by (simp add: migrated_def sm_insert_fresh_set i_def)
  have "memtables_ok P ?s log"
    using mts new full(1,2) srt unfolding memtables_ok_def ro
    by (auto simp: migrated_def recent_def sm_insert_sorted intro: fits_mono)
  moreover have "tasks_ok P C ?s"
    using fresh by (intro migrated_tasks_ok [OF tsk srt _ _ sch]) (simp_all add: i_def m_def update_last_modified_def meta_set_head_def)
  moreover have "tables_ok env P C (depth s) (ds_tables ?s)"
    using tables_ok_outside [OF tabs, of "ds_fs s" "ds_reads s + 7"] by (simp add: migrated_def)
  moreover have "log_ok env (ds_reads ?s) log"
    using core log_ok_mono [of env "ds_reads s" log] by (simp add: store_core_def migrated_def)
  moreover have "represents (layers C ?s) log"
  proof -
    have "represents ({user_map (mt_entries (active_memtable s))} # tl (layers C s)) log"
      using rep by (simp add: layers_def)
    then show ?thesis
      using represents_push [of _ "(\<lambda>(i, m). user_map (mt_entries m)) ` set (read_only_memtables s)"]
      unfolding layers_def ro by (simp add: migrated_def new(2) full(3))
  qed
  moreover have "checkpoint C ?s log"
  proof -
    have "{user_map (mt_entries m) |j m. Flush_Task j m \<in> set (ds_tasks ?s)} \<subseteq> ro_layer ?s"
      using \<open>tasks_ok P C ?s\<close> by (force simp: tasks_ok_def task_ok_def ro_layer_def dest!: sm_get_in_set)
    then have "table_layer C ?s \<union> flush_layer ?s \<subseteq> \<Union> (set (layers C ?s))"
      by (auto simp: flush_layer_def table_layer_def ro_layer_def layers_def)
    moreover have "\<Union> (set (layers C s)) \<subseteq> ro_layer ?s \<union> table_layer C ?s"
      unfolding ro_layer_def table_layer_def layers_def ro by (auto simp: migrated_def full(3))
    moreover have "based (\<Union> (set (layers C ?s))) (\<Union> (set (layers C s))) log"
      using represents_based [OF \<open>represents (layers C ?s) log\<close>] represents_based [OF rep] by (simp add: based_def)
    ultimately have "based (table_layer C ?s \<union> flush_layer ?s) (ro_layer ?s \<union> table_layer C ?s) (butlast log @ [last log])"
      using h(1) based_mono by auto
    moreover have "v_log_head (ds_meta ?s) = log_offset (butlast log)"
      by (simp add: migrated_def m_def update_last_modified_def meta_set_head_def h(2))
    ultimately show ?thesis
      unfolding checkpoint_def using h(1) by (intro exI [of _ "butlast log"] exI [of _ "last log"] exI [of _ "[]"]) simp
  qed
  ultimately have "store_core env P C ?s log"
    using core by (simp add: store_core_def migrated_def paths_ok_def m_def update_last_modified_def meta_set_head_def vlog_set_head_def)
  with mig show ?thesis
    by (intro exI [of _ ?s] exI [of _ h]) (simp add: migrated_def)
qed

lemma full_ne:
  assumes "store_core env P C s log" and "is_full (active_memtable s) HEAD_KEY_SIZE"
  shows "mt_entries (active_memtable s) \<noteq> []"
  using assms
  by (auto simp: store_core_def memtables_ok_def recent_def is_full_def mt_capacity_def config_ok_def constants)

section \<open>Writes\<close>

definition entry_for :: "environment \<Rightarrow> DataStore \<Rightarrow> Key \<Rightarrow> Value \<Rightarrow> ValueLogEntry" where
  "entry_for env s key val =
     ValueLogEntry_new (length key) (length val) key val (clock env (ds_reads s)) (val = TOMB_STONE_MARKER)"

text \<open>What a write needs: sizes that every file format can hold, text, and a table id that is not in use.\<close>

definition writable :: "environment \<Rightarrow> platform \<Rightarrow> nat \<Rightarrow> DataStore \<Rightarrow> Key \<Rightarrow> Value \<Rightarrow> bool" where
  "writable env P N s key val \<longleftrightarrow> ticking P env N \<and> ds_reads s + 10 \<le> N
     \<and> field_ok P key \<and> length key + 17 \<le> BLOCK_SIZE \<and> key \<notin> reserved
     \<and> field_ok P val \<and> utf8_valid val
     \<and> vl_size (val_log s) + length key + length val + 38 < 2 ^ 32
     \<and> generate_table_id (alphanumeric env (ds_reads s + 3)) \<notin> fst ` set (read_only_memtables s)"

lemma writable_validate: "writable env P N s key val \<Longrightarrow> validate_size key (Some val) = Ok ()"
  by (auto simp: writable_def validate_size_def field_ok_def constants)

lemma log_ok_snoc:
  assumes "log_ok env n log" and "ticking P env N" and "n < N" and "vle_millis e = timestamp_millis (clock env n)"
    and "log_offset (log @ [e]) + 21 < 2 ^ 32" and "length (vle_key e) + 17 \<le> BLOCK_SIZE" and "n < n'"
  shows "log_ok env n' (log @ [e])" and "\<forall>e' \<in> set log. vle_millis e' < vle_millis e"
proof -
  show less: "\<forall>e' \<in> set log. vle_millis e' < vle_millis e"
    using assms(1,3,4) ticking_less [OF assms(2)] by (auto simp: log_ok_def)
  have "\<exists>m < n'. vle_millis e' = timestamp_millis (clock env m)" if "e' \<in> set (log @ [e])" for e'
  proof (cases "e' \<in> set log")
    case True
    then obtain m where "m < n" "vle_millis e' = timestamp_millis (clock env m)"
      using assms(1) by (auto simp: log_ok_def)
    with assms(7) show ?thesis by (intro exI [of _ m]) simp
  next
    case False
    with that assms(4,7) show ?thesis by auto
  qed
  moreover have "0 < vle_millis e"
    using assms(3,4) ticking_time [OF assms(2)] by simp
  ultimately show "log_ok env n' (log @ [e])"
    using assms(1,5,6) less by (auto simp: log_ok_def log_ordered_def sorted_wrt_append)
qed


lemma store_core_val_log:
  assumes "store_core env P C s log" and "vl_path vl = vl_path (val_log s)"
  shows "store_core env P C (s\<lparr>val_log := vl\<rparr>) log"
proof -
  have "tasks_ok P C (s\<lparr>val_log := vl\<rparr>)"
  proof (rule tasks_ok_same)
    show "tasks_ok P C s" using assms(1) by (simp add: store_core_def)
    show "task_ok P C s t \<Longrightarrow> task_ok P C (s\<lparr>val_log := vl\<rparr>) t" for t
      by (cases t) (simp_all add: task_ok_def)
  qed simp_all
  moreover have "checkpoint C (s\<lparr>val_log := vl\<rparr>) log"
    by (rule checkpoint_same [of C s]) (use assms(1) in \<open>simp_all add: store_core_def layer_defs\<close>)
  ultimately show ?thesis
    using assms by (simp add: store_core_def memtables_ok_def paths_ok_def layers_def)
qed

text \<open>The memtable and the layers after the entry that follows a log.\<close>

lemma insert_entry:
  assumes fit: "fits P (log_offset log) m" and ins: "mt_insert P m (Entry_new (vle_key e) (log_offset log) t d) = Ok m'"
    and e: "timestamp_millis t = vle_millis e" "vle_is_tombstone e = d" "vle_ok P e" "wf_time P t" "length (vle_key e) + 17 \<le> BLOCK_SIZE"
    and rep: "represents ({user_map (mt_entries m)} # Ls) log"
    and lg: "\<forall>e' \<in> set log. vle_key e' = vle_key e \<longrightarrow> vle_millis e' \<le> vle_millis e" and len: "log_offset log + 1 < 2 ^ 32"
  shows "fits P (log_offset (log @ [e])) m'" and "represents ({user_map (mt_entries m')} # Ls) (log @ [e])"
proof -
  let ?e = "Entry_new (vle_key e) (log_offset log) t d"
  have wf: "mt_wf P m" using fit by (simp add: fits_def)
  have k: "e_key ?e = vle_key e" and ok: "entry_ok P (e_key ?e, entry_value ?e)"
    using e by (auto simp: Entry_new_def entry_ok_def vle_ok_def entry_value_def SkipMapValue_new_def)
  note eff = mt_insert_effect [OF wf ins]
  have "fits P (log_offset log + length (vle_key e) + 17) m'"
    using fits_insert [OF fit ins ok _ len] e(5) by (simp add: k)
  then show "fits P (log_offset (log @ [e])) m'"
    by (rule fits_mono) (simp add: length_vlog_bytes)
  have es: "mt_entries m' = sm_insert (vle_key e) (entry_value ?e) (mt_entries m)" by (simp add: eff(2) k)
  show "represents ({user_map (mt_entries m')} # Ls) (log @ [e])"
  proof (cases "vle_key e \<in> reserved")
    case True
    with wf show ?thesis
      using represents_reserved [OF rep True] by (simp add: es user_map_insert mt_wf_def)
  next
    case False
    have "points_at (entry_value ?e) log e"
      using e(1,2) by (simp add: points_at_def entry_value_def Entry_new_def SkipMapValue_new_def sv_millis_def vle_millis_def)
    from represents_write [OF rep this lg] False wf show ?thesis by (simp add: es user_map_insert mt_wf_def)
  qed
qed

lemma insert_core:
  assumes core: "store_core env P C s log" and e: "vle_key e = key" "vle_created_at e = t" "vle_is_tombstone e = tomb" "vle_ok P e"
    and key: "length key + 17 \<le> BLOCK_SIZE"
    and ins: "mt_insert P (active_memtable s) (Entry_new key (log_offset log) t tomb) = Ok active"
    and lg: "log_ok env (ds_reads s) (log @ [e])" "\<forall>e' \<in> set log. vle_millis e' < vle_millis e"
  shows "store_core env P C (s\<lparr>active_memtable := active, ds_tasks := ds_tasks s @ [Gc_Table_Insert (gc_table s) ent]\<rparr>) (log @ [e])"
proof -
  let ?s = "s\<lparr>active_memtable := active, ds_tasks := ds_tasks s @ [Gc_Table_Insert (gc_table s) ent]\<rparr>"
  have mts: "memtables_ok P s log" and tsk: "tasks_ok P C s" and rep: "represents (layers C s) log"
    using core by (auto simp: store_core_def)
  have act: "fits P (log_offset log) (active_memtable s)" and wf: "mt_wf P (active_memtable s)"
    using mts by (auto simp: memtables_ok_def fits_def)
  have "represents ({user_map (mt_entries (active_memtable s))} # tl (layers C s)) log"
    using rep by (simp add: layers_def)
  note new = insert_entry [OF act, of e t tomb active, unfolded e(1), OF ins _ e(3,4) _ key this]
  have f: "fits P (log_offset (log @ [e])) active" and r: "represents ({user_map (mt_entries active)} # tl (layers C s)) (log @ [e])"
    using new e lg core by (auto simp: vle_millis_def vle_ok_def store_core_def log_ok_def intro: less_imp_le)
  have "fits P (log_offset (log @ [e]) + 21) m" if "fits P (log_offset log + 21) m" for m
    using that by (rule fits_mono) simp
  with f have "memtables_ok P ?s (log @ [e])"
    using mts mt_insert_effect(5) [OF wf ins] recent_insert [OF _ wf ins] unfolding memtables_ok_def by auto
  moreover have "tasks_ok P C ?s"
  proof (rule tasks_ok_more [OF tsk])
    show "task_ok P C s t \<Longrightarrow> task_ok P C ?s t" for t
      by (cases t) (simp_all add: task_ok_def)
    show "\<forall>t \<in> set [Gc_Table_Insert (gc_table s) ent]. task_ok P C ?s t \<and> flush_id t = []"
      using mts by (simp add: task_ok_def memtables_ok_def)
  qed simp_all
  moreover have "represents (layers C ?s) (log @ [e])"
    using r by (simp add: layers_def)
  moreover have "checkpoint C ?s (log @ [e])"
    by (rule checkpoint_mono [of C s]) (use core in \<open>simp_all add: store_core_def layer_defs\<close>)
  ultimately show ?thesis
    using core lg(1) by (simp add: store_core_def paths_ok_def)
qed

lemma entry_for_ok: "writable env P N s key val \<Longrightarrow> vle_ok P (entry_for env s key val)"
  using ticking_time [of P env N "ds_reads s"]
  by (auto simp: writable_def entry_for_def vle_ok_def ValueLogEntry_new_def)

lemma put_ok:
  assumes inv: "store_inv env P C s log" and w: "writable env P N s key val"
  shows "\<exists>s'. put env P s key val = Ok (s', True) \<and> store_inv env P C s' (log @ [entry_for env s key val])
    \<and> ds_reads s < ds_reads s' \<and> ds_reads s' \<le> ds_reads s + 8"
proof -
  let ?e = "entry_for env s key val" and ?t = "clock env (ds_reads s)" and ?tomb = "val = TOMB_STONE_MARKER"
  have core: "store_core env P C s log" and vl: "vlog_inv P (ds_fs s, val_log s) log" and gc: "gc_updated_entries s = []"
    using inv by (auto simp: store_inv_def store_core_def)
  have eok: "vle_ok P ?e" by (rule entry_for_ok [OF w])
  define s2 where "s2 = s\<lparr>ds_tables := (ds_tables s)\<lparr>ts_key_range := update_key_range (ds_key_range s)\<rparr>\<rparr>"
  have core2: "store_core env P C s2 log"
    unfolding s2_def by (rule store_core_update_key_range [OF core])
  obtain fs' vl' where app: "vlog_append (ds_fs s) (val_log s) key val ?t ?tomb = Ok (fs', vl', log_offset log)"
    "vlog_inv P (fs', vl') (log @ [?e])"
    "fs' = (ds_fs s)\<lparr>files := (files (ds_fs s))(vl_path (val_log s) \<mapsto> vlog_file_of (log @ [?e]))\<rparr>"
    "vl_path vl' = vl_path (val_log s)"
    using vlog_append_inv [OF vl, of key val ?t ?tomb] eok by (auto simp: entry_for_def)
  define s3 where "s3 = s2\<lparr>val_log := vl', ds_tables := (ds_tables s2)\<lparr>ts_fs := fs', ts_reads := ds_reads s2 + 1\<rparr>\<rparr>"
  have "\<not> under (bm_dir (ts_buckets (ds_tables s2))) (vl_path (val_log s))"
    using core by (simp add: s2_def store_core_def paths_ok_def under_def BUCKETS_DIRECTORY_NAME_def VALUE_LOG_DIRECTORY_NAME_def)
  then have out: "outside_tables (bm_dir (ts_buckets (ds_tables s2))) (ds_fs s2) fs'"
    by (auto simp: outside_tables_def app(3) s2_def)
  have core3: "store_core env P C s3 log"
    using store_core_outside [OF store_core_val_log [OF core2, of vl'], of fs' "ds_reads s2 + 1"] app(4) out
    by (simp add: s3_def s2_def)
  have rd: "8 \<le> max_read P" and tick: "ticking P env N" "ds_reads s + 10 \<le> N"
    using w by (auto simp: writable_def field_ok_def)
  have r3: "ds_reads s3 = ds_reads s + 1" "read_only_memtables s3 = read_only_memtables s" "ds_fs s3 = fs'" "val_log s3 = vl'"
    by (simp_all add: s3_def s2_def)
  have fresh: "generate_table_id (alphanumeric env (ds_reads s3 + 2)) \<notin> fst ` set (read_only_memtables s3)"
    using w by (simp add: r3 writable_def numeral_3_eq_3)
  obtain s4 where s4: "(if is_full (active_memtable s3) HEAD_KEY_SIZE then migrate_memtable_to_read_only env P s3 else Ok s3) = Ok s4"
    "store_core env P C s4 log" "ds_fs s4 = fs'" "vl_path (val_log s4) = vl_path vl'" "vl_size (val_log s4) = vl_size vl'"
    "ds_reads s + 1 \<le> ds_reads s4" "ds_reads s4 \<le> ds_reads s + 8"
  proof (cases "is_full (active_memtable s3) HEAD_KEY_SIZE")
    case True
    obtain s' h where "migrate_memtable_to_read_only env P s3 = Ok s'" "store_core env P C s' log" "ds_fs s' = ds_fs s3"
      "val_log s' = vlog_set_head (val_log s3) h" "ds_reads s' = ds_reads s3 + 7"
      using migrate_ok [OF core3 tick(1) _ rd fresh full_ne [OF core3 True]] tick(2) by (auto simp: r3)
    with True show thesis by (intro that [of s']) (simp_all add: r3 vlog_set_head_def)
  next
    case False
    with core3 show thesis by (intro that [of s3]) (simp_all add: r3)
  qed
  let ?ent = "Entry_new key (log_offset log) ?t ?tomb"
  have "mt_wf P (active_memtable s4)"
    using s4(2) by (simp add: store_core_def memtables_ok_def fits_def)
  then obtain active where ins: "mt_insert P (active_memtable s4) ?ent = Ok active"
    using mem.ins_total by blast
  define s5 where "s5 = s4\<lparr>active_memtable := active, ds_tasks := ds_tasks s4 @ [Gc_Table_Insert (gc_table s4) ?ent]\<rparr>"
  have l: "log_ok env (ds_reads s) log" "vle_millis ?e = timestamp_millis ?t" "log_offset (log @ [?e]) + 21 < 2 ^ 32"
    "length (vle_key ?e) + 17 \<le> BLOCK_SIZE"
    using core w vl by (simp_all add: vlog_inv_def store_core_def entry_for_def ValueLogEntry_new_def vle_millis_def length_vlog_bytes writable_def)
  have lg: "log_ok env (ds_reads s4) (log @ [?e])" "\<forall>e' \<in> set log. vle_millis e' < vle_millis ?e"
    using log_ok_snoc [OF l(1) tick(1) _ l(2-4)] s4(6) tick(2) by auto
  have core5: "store_core env P C s5 (log @ [?e])"
    unfolding s5_def using w
    by (intro insert_core [OF s4(2) _ _ _ eok _ ins lg]) (simp_all add: entry_for_def ValueLogEntry_new_def writable_def)
  have "vlog_inv P (ds_fs s5, val_log s5) (log @ [?e])"
    using app(2) s4(3-5) by (simp add: s5_def vlog_inv_def)
  moreover have "put env P s key val = Ok (s5, True)"
  proof -
    have s2: "ds_fs s2 = ds_fs s" "val_log s2 = val_log s" "ds_reads s2 = ds_reads s" and u: "utf8_valid val"
      using w by (simp_all add: s2_def writable_def)
    have "put env P s key val = and_then (if is_full (active_memtable s3) HEAD_KEY_SIZE then migrate_memtable_to_read_only env P s3 else Ok s3)
        (\<lambda>s4. and_then (mt_insert P (active_memtable s4) ?ent) (\<lambda>active.
          Ok (s4\<lparr>active_memtable := active, ds_tasks := ds_tasks s4 @ [Gc_Table_Insert (gc_table s4) ?ent]\<rparr>, True)))"
      unfolding put_def Let_def
      by (simp only: writable_validate [OF w] and_then.simps gc simp_thms if_False s2_def [symmetric] u s2 app(1)
          prod.case s3_def [symmetric, unfolded s2])
    then show ?thesis
      unfolding s4(1) by (simp only: and_then.simps ins s5_def)
  qed
  ultimately show ?thesis
    using core5 s4(6,7) by (intro exI [of _ s5]) (simp add: store_inv_def s5_def)
qed


section \<open>Reads and deletions\<close>

lemma lookup_restored:
  assumes "lookup P s k = Ok (r, m)"
  shows "m = [] \<or> (\<exists>ts. filter_sstables_by_key_range P (ds_fs s) (ds_key_range s) k = Ok (ts, m))"
  using assms by (auto simp: lookup_def split: option.splits if_splits)

lemma store_core_add_task:
  assumes "store_core env P C s log" and "task_ok P C s t" and "flush_id t = []"
  shows "store_core env P C (s\<lparr>ds_tasks := ds_tasks s @ [t]\<rparr>) log"
proof -
  have "task_ok P C s t' \<Longrightarrow> task_ok P C (s\<lparr>ds_tasks := ds_tasks s @ [t]\<rparr>) t'" for t'
    by (cases t') (simp_all add: task_ok_def)
  then have "tasks_ok P C (s\<lparr>ds_tasks := ds_tasks s @ [t]\<rparr>)"
    using assms tasks_ok_more [of P C s "s\<lparr>ds_tasks := ds_tasks s @ [t]\<rparr>" "[t]"] by (simp add: store_core_def)
  moreover have "checkpoint C (s\<lparr>ds_tasks := ds_tasks s @ [t]\<rparr>) log"
  proof (rule checkpoint_same)
    show "checkpoint C s log" using assms(1) by (simp add: store_core_def)
    have "Flush_Task i m \<noteq> t" for i m using assms(3) by auto
    then have "flush_layer (s\<lparr>ds_tasks := ds_tasks s @ [t]\<rparr>) = flush_layer s" by (auto simp: flush_layer_def)
    then show "table_layer C (s\<lparr>ds_tasks := ds_tasks s @ [t]\<rparr>) \<union> flush_layer (s\<lparr>ds_tasks := ds_tasks s @ [t]\<rparr>)
      \<subseteq> table_layer C s \<union> flush_layer s" by (simp add: table_layer_def)
  qed (simp_all add: layer_defs)
  ultimately show ?thesis
    using assms(1) by (simp add: store_core_def memtables_ok_def paths_ok_def layers_def)
qed

lemma get_ok:
  assumes inv: "store_inv env P C s log" and k: "k \<notin> reserved" "validate_size k None = Ok ()"
  shows "\<exists>ts r. get P s k = Ok (s\<lparr>ds_tasks := ds_tasks s @ ts\<rparr>, r) \<and> map_option ue_val r = log_value log k
    \<and> store_inv env P C (s\<lparr>ds_tasks := ds_tasks s @ ts\<rparr>) log"
proof -
  obtain r m where l: "lookup P s k = Ok (r, m)" "map_option ue_val r = log_value log k"
    using lookup_readable [OF store_inv_readable [OF inv] k] by blast
  have core: "store_core env P C s log" using inv by (simp add: store_inv_def)
  show ?thesis
  proof (cases "m = []")
    case True
    with l inv show ?thesis by (intro exI [of _ "[]"] exI [of _ r]) (simp add: get_def)
  next
    case False
    with lookup_restored [OF l(1)] obtain ts where
      "filter_sstables_by_key_range P (ds_fs s) (ds_key_range s) k = Ok (ts, m)" by blast
    then have "publishable P C (depth s) (ds_tables s) m"
      using core by (intro filter_publishable) (auto simp: store_core_def tables_ok_def)
    then have "store_core env P C (s\<lparr>ds_tasks := ds_tasks s @ [Publish_Ranges m]\<rparr>) log"
      by (intro store_core_add_task [OF core]) (simp_all add: task_ok_def)
    with False l inv show ?thesis
      by (intro exI [of _ "[Publish_Ranges m]"] exI [of _ r]) (simp add: get_def store_inv_def)
  qed
qed

lemma update_ok:
  assumes inv: "store_inv env P C s log" and w: "writable env P N s key val"
  shows "\<exists>s'. update env P s key val = Ok (s', True) \<and> store_inv env P C s' (log @ [entry_for env s key val])"
    and "val = TOMB_STONE_MARKER \<Longrightarrow> \<exists>s'. delete env P s key = Ok (s', True) \<and> store_inv env P C s' (log @ [entry_for env s key val])"
proof -
  have v: "validate_size key (Some val) = Ok ()" by (rule writable_validate [OF w])
  then have v': "validate_size key None = Ok ()"
    by (auto simp: validate_size_def split: if_splits)
  have k: "key \<notin> reserved" using w by (simp add: writable_def)
  obtain ts r where g: "get P s key = Ok (s\<lparr>ds_tasks := ds_tasks s @ ts\<rparr>, r)"
    "store_inv env P C (s\<lparr>ds_tasks := ds_tasks s @ ts\<rparr>) log"
    using get_ok [OF inv k v'] by blast
  have w': "writable env P N (s\<lparr>ds_tasks := ds_tasks s @ ts\<rparr>) key val"
    using w by (simp add: writable_def)
  have e: "entry_for env (s\<lparr>ds_tasks := ds_tasks s @ ts\<rparr>) key val = entry_for env s key val"
    by (simp add: entry_for_def)
  obtain s' where s': "put env P (s\<lparr>ds_tasks := ds_tasks s @ ts\<rparr>) key val = Ok (s', True)"
    "store_inv env P C s' (log @ [entry_for env s key val])"
    using put_ok [OF g(2) w'] unfolding e by blast
  show "\<exists>s'. update env P s key val = Ok (s', True) \<and> store_inv env P C s' (log @ [entry_for env s key val])"
    using v g(1) s' by (simp add: update_def)
  show "\<exists>s'. delete env P s key = Ok (s', True) \<and> store_inv env P C s' (log @ [entry_for env s key val])"
    if "val = TOMB_STONE_MARKER"
    using v' g(1) s' that by (simp add: delete_def)
qed

section \<open>Background tasks\<close>

lemma tasks_ok_remove:
  assumes "tasks_ok P C s" and "ds_tasks s = pre @ t # post"
  shows "tasks_ok P C (s\<lparr>ds_tasks := pre @ post\<rparr>)" and "task_ok P C s t"
    and "set (flush_id t) \<inter> set (concat (map flush_id (pre @ post))) = {}"
proof -
  have t: "task_ok P C s t' \<Longrightarrow> task_ok P C (s\<lparr>ds_tasks := pre @ post\<rparr>) t'" for t'
    by (cases t') (simp_all add: task_ok_def)
  show "tasks_ok P C (s\<lparr>ds_tasks := pre @ post\<rparr>)" "task_ok P C s t"
    "set (flush_id t) \<inter> set (concat (map flush_id (pre @ post))) = {}"
    using assms t by (auto simp: tasks_ok_def)
qed


text \<open>The oldest of the read-only memtables: no key in it is newer than in another one.\<close>

definition oldest :: "ImmutableMemTables \<Rightarrow> bytes \<Rightarrow> bool" where
  "oldest ro i \<longleftrightarrow> (\<forall>(j, m) \<in> set ro. \<forall>(j', m') \<in> set ro. j = i \<and> j' \<noteq> i \<longrightarrow>
     no_newer (user_map (mt_entries m)) (user_map (mt_entries m')))"

lemma meta_write_outside:
  assumes "meta_write fs m = Ok fs'" and "\<not> under b (meta_path m)"
  shows "outside_tables b fs fs' \<and> (\<forall>p. p \<noteq> meta_path m \<longrightarrow> files fs' p = files fs p)"
  using assms by (auto simp: meta_write_def file_clear_def file_write_all_def outside_tables_def Let_def split: option.splits)

lemma meta_write_no_panic: "meta_write fs m \<noteq> Panic"
  by (auto simp: meta_write_def file_clear_def file_write_all_def and_then_eq_Panic Let_def split: option.splits)

lemma flush_removed:
  assumes "sm_sorted ro"
  shows "sm_remove i (map (\<lambda>(j, mt). (j, if j = i then mt\<lparr>mt_entries := []\<rparr> else mt)) ro) = sm_remove i ro"
  by (induction ro) (auto simp: sm_remove_def)

lemma run_meta_write:
  assumes inv: "store_inv env P C s log" and m: "meta_path m = meta_path (ds_meta s)"
  shows "\<exists>s'. run_task env P (Meta_Write m) s = Ok s' \<and> store_inv env P C s' log"
proof (cases "meta_write (ds_fs s) m")
  case (Ok fs')
  have core: "store_core env P C s log" and vl: "vlog_inv P (ds_fs s, val_log s) log"
    using inv by (auto simp: store_inv_def)
  have path: "\<not> under (bm_dir (ts_buckets (ds_tables s))) (meta_path m)" "vl_path (val_log s) \<noteq> meta_path m"
    using core m by (auto simp: store_core_def paths_ok_def under_def BUCKETS_DIRECTORY_NAME_def VALUE_LOG_DIRECTORY_NAME_def META_DIRECTORY_NAME_def)
  note out = meta_write_outside [OF Ok path(1)]
  have "store_core env P C (s\<lparr>ds_tables := (ds_tables s)\<lparr>ts_fs := fs', ts_reads := ds_reads s\<rparr>\<rparr>) log"
    using out by (intro store_core_outside [OF core]) simp_all
  moreover have "vlog_inv P (fs', val_log s) log"
    using vl out path(2) by (simp add: vlog_inv_def)
  ultimately show ?thesis
    using Ok by (simp add: run_task_def store_inv_def)
next
  case (Err e)
  with inv show ?thesis by (simp add: run_task_def)
next
  case Panic
  with meta_write_no_panic show ?thesis by blast
qed

lemma run_publish:
  assumes inv: "store_inv env P C s log" and rs: "publishable P C (depth s) (ds_tables s) rs"
  shows "\<exists>s'. run_task env P (Publish_Ranges rs) s = Ok s' \<and> store_inv env P C s' log"
proof -
  have core: "store_core env P C s log" and vl: "vlog_inv P (ds_fs s, val_log s) log"
    using inv by (auto simp: store_inv_def)
  let ?kr = "publish_restored (ds_key_range s) rs"
  have sub: "fst ` set (restored_ranges (ds_key_range s)) \<subseteq> fst ` set (key_ranges (ds_key_range s))"
    "fst ` set rs \<subseteq> fst ` set (key_ranges (ds_key_range s))"
    using core rs by (auto simp: store_core_def tables_ok_def ranges_ok_def publishable_def)
  have "store_core env P C (s\<lparr>ds_tables := (ds_tables s)\<lparr>ts_key_range := ?kr\<rparr>\<rparr>) log"
  proof (rule store_core_more_tables [OF core])
    show "tables_ok env P C (depth s) ((ds_tables s)\<lparr>ts_key_range := ?kr\<rparr>)"
      using core rs by (intro tables_ok_publish) (simp_all add: store_core_def)
    show "sst_dirs (ts_key_range ((ds_tables s)\<lparr>ts_key_range := ?kr\<rparr>)) = sst_dirs (ds_key_range s)"
      using sub by (auto simp: sst_dirs_def publish_restored_def)
    show "publishable P C (depth s) (ds_tables s) rs' \<Longrightarrow> publishable P C (depth s) ((ds_tables s)\<lparr>ts_key_range := ?kr\<rparr>) rs'" for rs'
      by (simp add: publishable_def publish_restored_def)
  qed simp_all
  with vl show ?thesis by (simp add: run_task_def store_inv_def)
qed

lemma run_gc_insert:
  assumes inv: "store_inv env P C s log" and cell: "cell < length (gc_tables s)"
  shows "\<exists>s'. run_task env P (Gc_Table_Insert cell e) s = Ok s' \<and> store_inv env P C s' log"
proof -
  have core: "store_core env P C s log" using inv by (simp add: store_inv_def)
  have wf: "mt_wf P (gc_tables s ! cell)"
    using core cell by (simp add: store_core_def memtables_ok_def)
  obtain mt where mt: "mt_insert P (gc_tables s ! cell) e = Ok mt" "mt_wf P mt"
    using mem.ins_total [OF wf] mem.ins_inv [OF wf] by blast
  let ?s = "s\<lparr>gc_tables := (gc_tables s)[cell := mt]\<rparr>"
  have "tasks_ok P C ?s"
  proof (rule tasks_ok_same)
    show "tasks_ok P C s" using core by (simp add: store_core_def)
    show "task_ok P C s t \<Longrightarrow> task_ok P C ?s t" for t
      by (cases t) (simp_all add: task_ok_def)
  qed simp_all
  moreover have "\<forall>m \<in> set ((gc_tables s)[cell := mt]). mt_wf P m"
    using core mt(2) set_update_subset_insert [of "gc_tables s" cell mt] by (auto simp: store_core_def memtables_ok_def)
  moreover have "checkpoint C ?s log"
    by (rule checkpoint_same [of C s]) (use core in \<open>simp_all add: store_core_def layer_defs\<close>)
  ultimately have "store_core env P C ?s log"
    using core by (simp add: store_core_def memtables_ok_def paths_ok_def layers_def)
  with inv mt(1) show ?thesis by (simp add: run_task_def store_inv_def)
qed

lemma run_gc_head:
  assumes "store_inv env P C s log"
  shows "\<exists>s'. run_task env P (Gc_Log_Head h) s = Ok s' \<and> store_inv env P C s' log"
proof -
  let ?s = "s\<lparr>gc_log := (gc_log s)\<lparr>head_offset := h\<rparr>\<rparr>"
  have "tasks_ok P C ?s"
  proof (rule tasks_ok_same)
    show "tasks_ok P C s" using assms by (simp add: store_inv_def store_core_def)
    show "task_ok P C s t \<Longrightarrow> task_ok P C ?s t" for t
      by (cases t) (simp_all add: task_ok_def)
  qed simp_all
  moreover have "checkpoint C ?s log"
    by (rule checkpoint_same [of C s]) (use assms in \<open>simp_all add: store_inv_def store_core_def layer_defs\<close>)
  ultimately show ?thesis
    using assms by (simp add: run_task_def store_inv_def store_core_def memtables_ok_def paths_ok_def layers_def)
qed


lemma sm_remove_split:
  assumes "sm_sorted ro" and "sm_get ro i = Some m"
  shows "set ro = insert (i, m) (set (sm_remove i ro))"
proof -
  have d: "distinct (map fst ro)" by (rule sm.iter_distinct [OF assms(1)])
  have uniq: "p = (i, m)" if "p \<in> set ro" "fst p = i" for p
    using map_of_is_SomeI [OF d, of "fst p" "snd p"] assms(2) that by (cases p) (simp add: sm_get_def)
  show ?thesis
  proof (rule set_eqI)
    fix p
    show "p \<in> set ro \<longleftrightarrow> p \<in> insert (i, m) (set (sm_remove i ro))"
      using uniq [of p] sm_get_in_set [OF assms(2)] by (cases "fst p = i") (simp_all add: sm_remove_def, auto)
  qed
qed

lemma flush_tasks_ok:
  assumes tsk: "tasks_ok P C s" and no: "i \<notin> set (concat (map flush_id (ds_tasks s)))"
    and pub: "\<And>rs. publishable P C (depth s) (ds_tables s) rs \<Longrightarrow> publishable P C' (depth s) t' rs"
  shows "tasks_ok P C' (s\<lparr>read_only_memtables := sm_remove i (read_only_memtables s), ds_tables := t'\<rparr>)"
proof -
  let ?s = "s\<lparr>read_only_memtables := sm_remove i (read_only_memtables s), ds_tables := t'\<rparr>"
  have "task_ok P C' ?s t" if t: "t \<in> set (ds_tasks s)" for t
  proof (cases t)
    case (Flush_Task j m)
    then have "j \<noteq> i" using no t by auto
    with Flush_Task t tsk show ?thesis
      by (auto simp: tasks_ok_def task_ok_def sm_remove_get)
  qed (use t tsk pub in \<open>auto simp: tasks_ok_def task_ok_def\<close>)
  with tsk show ?thesis by (simp add: tasks_ok_def)
qed

text \<open>The memtable of a scheduled flush was within the checkpoint while the task was pending.\<close>

lemma run_flush:
  assumes inv: "store_inv env P C s log" and cp: "checkpoint C (s\<lparr>ds_tasks := Flush_Task i m # ds_tasks s\<rparr>) log" and tick: "ticking P env N" "ds_reads s + 2 \<le> N"
    and ro: "sm_get (read_only_memtables s) i = Some m" and old: "oldest (read_only_memtables s) i"
    and no: "i \<notin> set (concat (map flush_id (ds_tasks s)))"
  shows "\<exists>s' C'. run_task env P (Flush_Task i m) s = Ok s' \<and> store_inv env P C' s' log"
proof -
  have core: "store_core env P C s log" and vl: "vlog_inv P (ds_fs s, val_log s) log"
    using inv by (auto simp: store_inv_def)
  have mts: "memtables_ok P s log" and tabs: "tables_ok env P C (depth s) (ds_tables s)" and lg: "log_ok env (ds_reads s) log"
    and rep: "represents (layers C s) log" and tsk: "tasks_ok P C s"
    using core by (auto simp: store_core_def)
  have srt: "sm_sorted (read_only_memtables s)" using mts by (simp add: memtables_ok_def)
  note split = sm_remove_split [OF srt ro]
  have fl: "flushable P m"
    using mts lg sm_get_in_set [OF ro] by (fastforce simp: memtables_ok_def flushable_def fits_def log_ok_def)
  define f where "f = flusher_of s"
  have f: "fl_tables f = ds_tables s" "read_only_memtable f = read_only_memtables s"
    by (simp_all add: f_def flusher_of_def flusher_new_def)
  obtain d t' where flush: "flush env f i m = Ok (f\<lparr>read_only_memtable := map (\<lambda>(j, mt). (j, if j = i then mt\<lparr>mt_entries := []\<rparr> else mt))
        (read_only_memtable f), fl_tables := t'\<rparr>)"
    and t': "tables_ok env P (C(d := mt_entries m)) (depth s) t'" "ts_reads t' = ds_reads s + 2" "length d = depth s + 3"
      "d \<notin> fst ` set (key_ranges (ds_key_range s))"
      "fst ` set (key_ranges (ts_key_range t')) = insert d (fst ` set (key_ranges (ds_key_range s)))"
      "restored_ranges (ts_key_range t') = restored_ranges (ds_key_range s)"
      "\<forall>p. butlast p \<noteq> d \<longrightarrow> files (ts_fs t') p = files (ds_fs s) p"
      "\<forall>p. dirs (ds_fs s) p \<longrightarrow> dirs (ts_fs t') p" "bm_dir (ts_buckets t') = bm_dir (ts_buckets (ds_tables s))"
    using flush_ok [of env P C "depth s" f N m i] tabs tick fl unfolding f by auto
  let ?C = "C(d := mt_entries m)"
  let ?s = "s\<lparr>read_only_memtables := sm_remove i (read_only_memtables s), ds_tables := t'\<rparr>"
  have run: "run_task env P (Flush_Task i m) s = Ok ?s"
    using flush flush_removed [OF srt, of i]
    by (simp add: run_task_def flush_handler_def flush_remove_def with_flusher_def f flip: f_def)
  have sub: "fst ` set (restored_ranges (ds_key_range s)) \<subseteq> fst ` set (key_ranges (ds_key_range s))"
    using tabs by (simp add: tables_ok_def ranges_ok_def)
  then have dirs: "sst_dirs (ts_key_range t') = insert d (sst_dirs (ds_key_range s))" "d \<notin> sst_dirs (ds_key_range s)"
    using t'(4-6) by (auto simp: sst_dirs_def)
  have pub: "publishable P ?C (depth s) t' rs" if "publishable P C (depth s) (ds_tables s) rs" for rs
  proof (rule publishable_frame [OF that])
    fix d' name assume "d' \<in> fst ` set (key_ranges (ds_key_range s))"
    then have "d' \<noteq> d" using t'(4) by blast
    then show "files (ts_fs t') (d' @ [name]) = files (ds_fs s) (d' @ [name])" "?C d' = C d'"
      using t'(7) by simp_all
  qed (use t'(5) in auto)
  have same: "(\<lambda>d. user_map (?C d)) ` sst_dirs (ds_key_range s) = (\<lambda>d. user_map (C d)) ` sst_dirs (ds_key_range s)"
    using dirs(2) by (intro image_cong) auto
  then have tl: "table_layer ?C ?s = insert (user_map (mt_entries m)) (table_layer C s)"
    by (simp add: table_layer_def dirs(1))
  have "represents (layers ?C ?s) log"
  proof -
    let ?R = "(\<lambda>(i, m). user_map (mt_entries m)) ` set (sm_remove i (read_only_memtables s))"
    have "represents [{user_map (mt_entries (active_memtable s))}, insert (user_map (mt_entries m)) ?R,
        (\<lambda>d. user_map (C d)) ` sst_dirs (ds_key_range s)] log"
      using rep by (simp add: layers_def split)
    moreover have "\<forall>Y \<in> ?R. no_newer (user_map (mt_entries m)) Y"
      using old sm_get_in_set [OF ro] by (fastforce simp: oldest_def sm_remove_def)
    ultimately have "represents [{user_map (mt_entries (active_memtable s))}, ?R,
        insert (user_map (mt_entries m)) ((\<lambda>d. user_map (C d)) ` sst_dirs (ds_key_range s))] log"
      by (rule represents_sink)
    with same show ?thesis by (simp add: layers_def dirs(1))
  qed
  moreover have "memtables_ok P ?s log"
    using mts sm_remove_sorted [OF srt] by (auto simp: memtables_ok_def sm_remove_def)
  moreover have "tasks_ok P ?C ?s"
    by (rule flush_tasks_ok [OF tsk no pub])
  moreover have "log_ok env (ts_reads t') log"
    using log_ok_mono [OF lg, of "ts_reads t'"] by (simp add: t'(2))
  moreover have "checkpoint ?C ?s log"
  proof (rule checkpoint_same [OF cp])
    show "table_layer ?C ?s \<union> flush_layer ?s \<subseteq> table_layer C (s\<lparr>ds_tasks := Flush_Task i m # ds_tasks s\<rparr>)
        \<union> flush_layer (s\<lparr>ds_tasks := Flush_Task i m # ds_tasks s\<rparr>)"
      unfolding tl by (auto simp: layer_defs)
    show "ro_layer (s\<lparr>ds_tasks := Flush_Task i m # ds_tasks s\<rparr>) \<union> table_layer C (s\<lparr>ds_tasks := Flush_Task i m # ds_tasks s\<rparr>)
        \<subseteq> ro_layer ?s \<union> table_layer ?C ?s"
      unfolding tl by (auto simp: ro_layer_def table_layer_def split)
  qed simp
  moreover have "paths_ok ?s"
  proof -
    have p: "paths_ok s" using core by (simp add: store_core_def)
    have "length (butlast (meta_file_path (dir_root (ds_dir s)))) \<noteq> length d"
      using t'(3) by simp
    then have "butlast (meta_file_path (dir_root (ds_dir s))) \<noteq> d" by metis
    then have "files (ts_fs t') (meta_file_path (dir_root (ds_dir s))) = files (ds_fs s) (meta_file_path (dir_root (ds_dir s)))"
      using t'(7) by blast
    with p t'(8,9) show ?thesis by (simp add: paths_ok_def)
  qed
  ultimately have "store_core env P ?C ?s log"
    using core t'(1) by (simp add: store_core_def)
  moreover have "butlast (vl_path (val_log s)) \<noteq> d"
    using core t'(3) by (auto simp: store_core_def paths_ok_def butlast_append)
  then have "vlog_inv P (ts_fs t', val_log s) log"
    using vl t'(7) by (simp add: vlog_inv_def)
  ultimately show ?thesis
    using run by (intro exI [of _ ?s] exI [of _ ?C]) (simp add: store_inv_def)
qed

end
