(* ===== verification/Store_Runs.thy ===== *)
theory Store_Runs
  imports Store_Refinement
begin

text \<open>
  Runs of the store: a client writes, reads and deletes while the pending background tasks run in any
  order. The store refines a map from keys to values, as long as memtables are flushed from the oldest on.
\<close>

section \<open>Runs of the store\<close>

text \<open>
  A step is an operation of the client or the run of one pending task, in any order; only the flushes are
  restricted to the oldest memtable.
\<close>

datatype event =
    Put_Event Key Value
  | Update_Event Key Value
  | Delete_Event Key
  | Get_Event Key "UserEntry option"
  | Task_Event bg_task

definition may_run :: "nat \<Rightarrow> DataStore \<Rightarrow> bg_task \<Rightarrow> bool" where
  "may_run N s t \<longleftrightarrow> ds_reads s + 2 \<le> N \<and> (\<forall>i m. t = Flush_Task i m \<longrightarrow> oldest (read_only_memtables s) i)"

inductive store_step :: "environment \<Rightarrow> platform \<Rightarrow> nat \<Rightarrow> DataStore \<Rightarrow> event \<Rightarrow> DataStore \<Rightarrow> bool"
  for env :: environment and P :: platform and N :: nat where
  put_step: "writable env P N s k v \<Longrightarrow> put env P s k v = Ok (s', b) \<Longrightarrow> store_step env P N s (Put_Event k v) s'"
| update_step: "writable env P N s k v \<Longrightarrow> update env P s k v = Ok (s', b) \<Longrightarrow> store_step env P N s (Update_Event k v) s'"
| delete_step: "writable env P N s k TOMB_STONE_MARKER \<Longrightarrow> delete env P s k = Ok (s', b) \<Longrightarrow> store_step env P N s (Delete_Event k) s'"
| get_step: "k \<notin> reserved \<Longrightarrow> get P s k = Ok (s', r) \<Longrightarrow> store_step env P N s (Get_Event k r) s'"
| task_step: "ds_tasks s = pre @ t # post \<Longrightarrow> may_run N s t \<Longrightarrow>
    run_task env P t (s\<lparr>ds_tasks := pre @ post\<rparr>) = Ok s' \<Longrightarrow> store_step env P N s (Task_Event t) s'"

inductive_cases store_stepE: "store_step env P N s ev s'"

inductive store_run :: "environment \<Rightarrow> platform \<Rightarrow> nat \<Rightarrow> DataStore \<Rightarrow> event list \<Rightarrow> DataStore \<Rightarrow> bool"
  for env :: environment and P :: platform and N :: nat where
  run_none: "store_run env P N s [] s"
| run_step: "store_run env P N s evs s' \<Longrightarrow> store_step env P N s' ev s'' \<Longrightarrow> store_run env P N s (evs @ [ev]) s''"

text \<open>The specification: a map from keys to values. A value that is the tombstone marker deletes.\<close>

fun spec_event :: "event \<Rightarrow> (Key \<Rightarrow> Value option) \<Rightarrow> (Key \<Rightarrow> Value option)" where
  "spec_event (Put_Event k v) m = m(k := if v = TOMB_STONE_MARKER then None else Some v)"
| "spec_event (Update_Event k v) m = m(k := if v = TOMB_STONE_MARKER then None else Some v)"
| "spec_event (Delete_Event k) m = m(k := None)"
| "spec_event (Get_Event k r) m = m"
| "spec_event (Task_Event t) m = m"

text \<open>What a read in a run returned.\<close>

fun spec_read :: "event \<Rightarrow> (Key \<Rightarrow> Value option) \<Rightarrow> bool" where
  "spec_read (Get_Event k r) m \<longleftrightarrow> map_option ue_val r = m k"
| "spec_read _ m \<longleftrightarrow> True"

lemma log_value_write:
  "log_value (log @ [entry_for env s k v]) = (log_value log)(k := if v = TOMB_STONE_MARKER then None else Some v)"
  by (auto simp: entry_for_def ValueLogEntry_new_def fun_eq_iff)

lemma run_task_ok:
  assumes inv: "store_inv env P C s log" and tick: "ticking P env N" and t: "ds_tasks s = pre @ t # post" "may_run N s t"
  shows "\<exists>s' C'. run_task env P t (s\<lparr>ds_tasks := pre @ post\<rparr>) = Ok s' \<and> store_inv env P C' s' log"
proof -
  let ?s = "s\<lparr>ds_tasks := pre @ post\<rparr>"
  have tsk: "tasks_ok P C s" using inv by (simp add: store_inv_def store_core_def)
  note rem = tasks_ok_remove [OF tsk t(1)]
  have cp: "checkpoint C s log" using inv by (simp add: store_inv_def store_core_def)
  then have "checkpoint C ?s log"
    by (rule checkpoint_same) (auto simp: layer_defs t(1))
  then have inv': "store_inv env P C ?s log"
    using inv rem(1) by (simp add: store_inv_def store_core_def memtables_ok_def paths_ok_def layers_def)
  have ok: "task_ok P C ?s t"
    using rem(2) by (cases t) (simp_all add: task_ok_def)
  show ?thesis
  proof (cases t)
    case (Flush_Task i m)
    have "checkpoint C (?s\<lparr>ds_tasks := Flush_Task i m # ds_tasks ?s\<rparr>) log"
      by (rule checkpoint_same [OF cp]) (auto simp: layer_defs t(1) Flush_Task)
    then have "\<exists>s' C'. run_task env P (Flush_Task i m) ?s = Ok s' \<and> store_inv env P C' s' log"
      using t(2) ok rem(3) by (intro run_flush [OF inv' _ tick]) (auto simp: Flush_Task may_run_def task_ok_def)
    then show ?thesis by (simp add: Flush_Task)
  next
    case (Meta_Write m)
    with run_meta_write [OF inv', of m] ok show ?thesis by (auto simp: task_ok_def)
  next
    case (Gc_Table_Insert c e)
    with run_gc_insert [OF inv', of c e] ok show ?thesis by (auto simp: task_ok_def)
  next
    case (Gc_Log_Head h)
    with run_gc_head [OF inv', of h] show ?thesis by auto
  next
    case (Publish_Ranges rs)
    with run_publish [OF inv', of rs] ok show ?thesis by (auto simp: task_ok_def)
  qed
qed

text \<open>A step extends the log by at most one entry.\<close>

lemma store_step_refines:
  assumes inv: "store_inv env P C s log" and tick: "ticking P env N" and step: "store_step env P N s ev s'"
  shows "\<exists>C' es. store_inv env P C' s' (log @ es) \<and> length es \<le> 1 \<and> log_value (log @ es) = spec_event ev (log_value log)
    \<and> spec_read ev (log_value log)"
  using step
proof (cases rule: store_step.cases)
  case (put_step k v b)
  then have "store_inv env P C s' (log @ [entry_for env s k v])"
    using put_ok [OF inv put_step(2)] by auto
  then show ?thesis
    by (intro exI [of _ C] exI [of _ "[entry_for env s k v]"]) (simp add: put_step(1) log_value_write)
next
  case (update_step k v b)
  then have "store_inv env P C s' (log @ [entry_for env s k v])"
    using update_ok(1) [OF inv update_step(2)] by auto
  then show ?thesis
    by (intro exI [of _ C] exI [of _ "[entry_for env s k v]"]) (simp add: update_step(1) log_value_write)
next
  case (delete_step k b)
  then have "store_inv env P C s' (log @ [entry_for env s k TOMB_STONE_MARKER])"
    using update_ok(2) [OF inv delete_step(2)] by auto
  then show ?thesis
    by (intro exI [of _ C] exI [of _ "[entry_for env s k TOMB_STONE_MARKER]"]) (simp add: delete_step(1) log_value_write)
next
  case (get_step k r)
  then have "validate_size k None = Ok ()" by (auto simp: get_def lookup_def)
  with get_ok [OF inv get_step(2)] get_step show ?thesis by (intro exI [of _ C] exI [of _ "[]"]) auto
next
  case (task_step pre t post)
  with run_task_ok [OF inv tick task_step(2,3)] obtain C' where "store_inv env P C' s' log" by auto
  with task_step(1) show ?thesis by (intro exI [of _ C'] exI [of _ "[]"]) simp
qed

lemma store_run_refines:
  assumes "store_run env P N s evs s'" and "store_inv env P C s log" and "ticking P env N"
  shows "\<exists>C' es. store_inv env P C' s' (log @ es) \<and> length es \<le> length evs \<and> log_value (log @ es) = fold spec_event evs (log_value log)"
  using assms
proof (induction rule: store_run.induct)
  case (run_none s)
  then show ?case by (intro exI [of _ C] exI [of _ "[]"]) simp
next
  case (run_step s evs s' ev s'')
  then obtain C1 es where 1: "store_inv env P C1 s' (log @ es)" "length es \<le> length evs"
    "log_value (log @ es) = fold spec_event evs (log_value log)" by blast
  obtain C2 es' where "store_inv env P C2 s'' ((log @ es) @ es')" "length es' \<le> 1"
    "log_value ((log @ es) @ es') = spec_event ev (log_value (log @ es))"
    using store_step_refines [OF 1(1) run_step.prems(2) run_step.hyps(2)] by blast
  with 1 show ?case by (intro exI [of _ C2] exI [of _ "es @ es'"]) simp
qed

end
