(* ===== verification/Recovery.thy ===== *)
theory Recovery
  imports Store_Config "HOL-Library.Char_ord"
begin

text \<open>
  Opening a store (\<^verbatim>\<open>open\<close> and \<^verbatim>\<open>create_or_recover\<close> of \<^verbatim>\<open>src/db/store.rs\<close>) and what it does in a new and in an
  existing directory (\<^verbatim>\<open>src/db/recovery.rs\<close>).
\<close>

section \<open>What the operating system answers\<close>

text \<open>
  The entries of a directory in the order of the directory stream, the modification time of a file in
  nanoseconds, the length in the metadata of a path, and what \<^verbatim>\<open>Uuid::parse_str\<close> makes of a string.
\<close>

record os_view =
  read_dir :: "path \<Rightarrow> string list"
  mtime :: "path \<Rightarrow> nat"
  metadata_len :: "path \<Rightarrow> nat"
  parse_str :: "string \<Rightarrow> (string, string) result"

definition open_dir_stream :: "os_view \<Rightarrow> filesys \<Rightarrow> path \<Rightarrow> string list res" where
  "open_dir_stream os fs p =
     (if dirs fs p then Ok (read_dir os p)
      else Err (DirOpen p (if files fs p = None then ''NotFound'' else ''NotADirectory'')))"

text \<open>An absolute path as a string.\<close>

definition path_string :: "path \<Rightarrow> string" where
  "path_string p = concat (map (\<lambda>c. ''/'' @ c) p)"

definition rfind :: "string \<Rightarrow> string \<Rightarrow> nat option" where
  "rfind pat s =
     (case filter (\<lambda>i. take (length pat) (drop i s) = pat) [0..<Suc (length s)] of
        [] \<Rightarrow> None
      | is \<Rightarrow> Some (last is))"

section \<open>Recovering the tables\<close>

definition get_bucket_id_from_full_bucket_path :: "path \<Rightarrow> string" where
  "get_bucket_id_from_full_bucket_path full_path =
     (let full_path_as_str = path_string full_path
      in case rfind ''bucket'' full_path_as_str of
           None \<Rightarrow> []
         | Some idx \<Rightarrow>
             let uuid_part = drop (idx + length ''bucket'') full_path_as_str
             in if CHR ''/'' \<in> set uuid_part then takeWhile (\<lambda>c. c \<noteq> CHR ''/'') uuid_part else [])"

type_synonym recovered_tables = "filesys \<times> KeyRange \<times> (BucketID, Bucket) indexmap"

text \<open>One table directory: the files sorted by path are the data, filter, index and summary files.\<close>

definition recover_table :: "os_view \<Rightarrow> platform \<Rightarrow> path \<Rightarrow> string \<Rightarrow> recovered_tables \<Rightarrow> recovered_tables res" where
  "recover_table os P bucket_dir name = (\<lambda>(fs, key_range, recovered_buckets).
     let sst_dir = bucket_dir @ [name]
     in and_then (open_dir_stream os fs sst_dir) (\<lambda>names.
        let paths = sort (filter (\<lambda>p. files fs p \<noteq> None) (map (\<lambda>file_name. sst_dir @ [file_name]) names));
            bucket_id = get_bucket_id_from_full_bucket_path sst_dir
        in if length paths < 4 then Err (InvalidSSTableDirectory (path_string sst_dir))
           else let data_file_path = paths ! 0; filter_file_path = paths ! 1; index_file_path = paths ! 2
                in and_then (build_from P fs sst_dir data_file_path index_file_path (mtime os data_file_path))
                     (\<lambda>(fs1, table).
                   and_then (map_err (InvaidUUIDParseString bucket_id) (parse_str os bucket_id)) (\<lambda>bucket_uuid.
                   let sstables' = (case map_of recovered_buckets bucket_uuid of
                                      Some b \<Rightarrow> sstables b @ [table] | None \<Rightarrow> [table])
                   in and_then (bucket_from fs1 bucket_dir bucket_uuid sstables' 0) (\<lambda>updated_bucket.
                      and_then (summary_recover P fs1 (summary_new sst_dir)) (\<lambda>summary.
                      let table' = table\<lparr>t_filter := Some (bf_default\<lparr>bf_file_path := Some filter_file_path\<rparr>),
                                         t_summary := Some summary\<rparr>
                      in Ok (fs1,
                             fst (key_range_set key_range sst_dir (smallest_key summary) (biggest_key summary) table'),
                             im_insert bucket_uuid updated_bucket recovered_buckets)))))))"

definition recover_bucket :: "os_view \<Rightarrow> platform \<Rightarrow> path \<Rightarrow> string \<Rightarrow> recovered_tables \<Rightarrow> recovered_tables res" where
  "recover_bucket os P buckets_path name = (\<lambda>(fs, key_range, recovered_buckets).
     let bucket_dir = buckets_path @ [name]
     in and_then (open_dir_stream os fs bucket_dir) (\<lambda>names.
          fold_res (recover_table os P bucket_dir) names (fs, key_range, recovered_buckets)))"

section \<open>Recovering the memtables\<close>

text \<open>The offset of the next entry, the active and the read-only memtables, the readings of the environment.\<close>

type_synonym recovered_memtables = "nat \<times> MemTable \<times> ImmutableMemTables \<times> nat"

definition replay_entry ::
  "environment \<Rightarrow> platform \<Rightarrow> SizeUnit \<Rightarrow> nat \<Rightarrow> f64 \<Rightarrow> nat \<Rightarrow> ValueLogEntry \<Rightarrow> recovered_memtables \<Rightarrow> recovered_memtables res" where
  "replay_entry env P size_unit capacity rate head e = (\<lambda>(most_recent_offset, active, ro, n).
     let entry = Entry_new (vle_key e) most_recent_offset (vle_created_at e) (vle_is_tombstone e);
         next_offset = most_recent_offset + SIZE_OF_U32 + SIZE_OF_U32 + SIZE_OF_U64 + SIZE_OF_U8
           + length (vle_key e) + length (vle_value e)
     in if most_recent_offset \<noteq> head
        then and_then (if is_full active (length (vle_key e))
                       then and_then (with_specified_capacity_and_rate P (clock env (n + 1)) (clock env (n + 2)) size_unit
                              capacity rate) (\<lambda>active'.
                              Ok (active', sm_insert (generate_table_id (alphanumeric env n)) (active\<lparr>read_only := True\<rparr>) ro,
                                  n + 3))
                       else Ok (active, ro, n)) (\<lambda>(active', ro', n').
             and_then (mt_insert P active' entry) (\<lambda>active''. Ok (next_offset, active'', ro', n')))
        else Ok (next_offset, active, ro, n))"

definition recover_memtable ::
  "environment \<Rightarrow> platform \<Rightarrow> filesys \<Rightarrow> nat \<Rightarrow> SizeUnit \<Rightarrow> nat \<Rightarrow> f64 \<Rightarrow> path \<Rightarrow> nat
     \<Rightarrow> (filesys \<times> nat \<times> MemTable \<times> ImmutableMemTables) res" where
  "recover_memtable env P fs n size_unit capacity rate vlog_path head =
     and_then (with_specified_capacity_and_rate P (clock env n) (clock env (n + 1)) size_unit capacity rate) (\<lambda>active.
     and_then (vlog_new fs vlog_path) (\<lambda>(fs', vlog).
     and_then (vlog_recover P fs' vlog head) (\<lambda>entries.
     and_then (fold_res (replay_entry env P size_unit capacity rate head) entries (head, active, [], n + 2))
       (\<lambda>(_, active', ro, n'). Ok (fs', n', active', ro)))))"

section \<open>Opening a store\<close>

record CreateOrRecoverStoreParams =
  p_dir :: DirPath
  p_buckets_path :: path
  p_vlog :: ValueLog
  p_key_range :: KeyRange
  p_config :: DbConfig
  p_size_unit :: SizeUnit
  p_meta :: Meta

text \<open>
  The \<^verbatim>\<open>DataStore\<close> that both functions return. The collector gets a copy of the active memtable and of the value log;
  the flusher shares the tables of the store. Nothing is pending.
\<close>

definition new_data_store ::
  "DirPath \<Rightarrow> DbConfig \<Rightarrow> tables_state \<Rightarrow> MemTable \<Rightarrow> ImmutableMemTables \<Rightarrow> ValueLog \<Rightarrow> Meta \<Rightarrow> DataStore" where
  "new_data_store dir config ts active ro vlog meta =
     \<lparr>keyspace = DEFAULT_DB_NAME, ds_dir = dir, active_memtable = active, val_log = vlog, ds_tables = ts,
      ds_compactor = compactor_new (enable_ttl config)
        \<lparr>tp_entry_ttl = db_entry_ttl config, tp_tombstone_ttl = db_tombstone_ttl config\<rparr>
        \<lparr>ip_background_interval = background_compaction_interval config,
         ip_flush_listener_interval = compactor_flush_listener_interval config,
         ip_tombstone_compaction_interval = db_tombstone_compaction_interval config\<rparr>
        (compaction_strategy config) MaxSize (db_false_positive_rate config),
      ds_meta = meta, ds_config = config, ds_gc = gc_new (online_gc_interval config) (gc_chunk_size config) 0,
      read_only_memtables = ro, gc_updated_entries = [], gc_tables = [active], gc_table = 0, gc_log = vlog,
      flush_stream = [], ds_tasks = []\<rparr>"

definition handle_empty_vlog ::
  "environment \<Rightarrow> platform \<Rightarrow> filesys \<Rightarrow> nat \<Rightarrow> CreateOrRecoverStoreParams \<Rightarrow> DataStore res" where
  "handle_empty_vlog env P fs n params =
     (let config = p_config params
      in and_then (with_specified_capacity_and_rate P (clock env n) (clock env (n + 1)) (p_size_unit params)
             (write_buffer_size config) (db_false_positive_rate config)) (\<lambda>active.
         let created_at = clock env (n + 2)
         in and_then (vlog_append fs (p_vlog params) TAIL_ENTRY_KEY TAIL_ENTRY_VALUE created_at False)
              (\<lambda>(fs1, vlog1, tail).
            let tail_entry = Entry_new TAIL_ENTRY_KEY tail created_at False
            in and_then (vlog_append fs1 vlog1 HEAD_ENTRY_KEY HEAD_ENTRY_VALUE created_at False) (\<lambda>(fs2, vlog2, head).
               let head_entry = Entry_new HEAD_ENTRY_KEY head created_at False;
                   vlog3 = vlog_set_tail (vlog_set_head vlog2 head) tail
               in and_then (mt_insert P active tail_entry) (\<lambda>active1.
                  and_then (mt_insert P active1 head_entry) (\<lambda>active2.
                  let (fs3, bm) = bucket_map_new fs2 (p_buckets_path params)
                  in Ok (new_data_store (p_dir params) config
                       \<lparr>ts_fs = fs3, ts_reads = n + 3, ts_buckets = bm, ts_key_range = p_key_range params\<rparr>
                       active2 [] vlog3 (p_meta params))))))))"

definition recover ::
  "environment \<Rightarrow> platform \<Rightarrow> os_view \<Rightarrow> filesys \<Rightarrow> nat \<Rightarrow> CreateOrRecoverStoreParams \<Rightarrow> DataStore res" where
  "recover env P os fs n params =
     (let buckets_path = p_buckets_path params; config = p_config params
      in and_then (open_dir_stream os fs buckets_path) (\<lambda>names.
         and_then (fold_res (recover_bucket os P buckets_path) names (fs, p_key_range params, []))
           (\<lambda>(fs1, key_range, recovered_buckets).
         let (fs2, bm) = bucket_map_new fs1 buckets_path;
             bm' = bm\<lparr>buckets := fold (\<lambda>(bucket_id, b). im_insert bucket_id b) recovered_buckets (buckets bm)\<rparr>
         in and_then (file_size fs2 (meta_path (p_meta params))) (\<lambda>meta_size.
            and_then (if 0 < meta_size
                      then and_then (meta_recover P fs2 (p_meta params)) (\<lambda>meta.
                             Ok (meta, vlog_set_tail (vlog_set_head (p_vlog params) (v_log_head meta)) (v_log_tail meta)))
                      else Ok (p_meta params, vlog_set_tail (vlog_set_head (p_vlog params)
                             (SIZE_OF_U32 + SIZE_OF_U32 + SIZE_OF_U64 + SIZE_OF_U8 + length TAIL_ENTRY_KEY
                                + length TAIL_ENTRY_VALUE)) 0)) (\<lambda>(meta, vlog).
            and_then (map_err MemTableRecovery (recover_memtable env P fs2 n (p_size_unit params)
                        (write_buffer_size config) (db_false_positive_rate config) (dir_val_log (p_dir params))
                        (head_offset vlog))) (\<lambda>(fs3, n', active, ro).
              Ok (new_data_store (p_dir params) config
                    \<lparr>ts_fs = fs3, ts_reads = n', ts_buckets = bm', ts_key_range = key_range\<rparr> active ro vlog meta)))))))"

text \<open>The length is the one of the directory that holds the log file.\<close>

definition create_or_recover ::
  "environment \<Rightarrow> platform \<Rightarrow> os_view \<Rightarrow> filesys \<Rightarrow> nat \<Rightarrow> DirPath \<Rightarrow> SizeUnit \<Rightarrow> DbConfig \<Rightarrow> DataStore res" where
  "create_or_recover env P os fs n dir size_unit config =
     (let vlog_path = dir_val_log dir;
          vlog_exist = (dirs fs vlog_path \<or> files fs vlog_path \<noteq> None)
      in and_then (meta_new fs (dir_meta dir) (clock env n) (clock env (n + 1))) (\<lambda>(fs1, meta).
         and_then (vlog_new fs1 vlog_path) (\<lambda>(fs2, vlog).
         let params = \<lparr>p_dir = dir, p_buckets_path = dir_buckets dir, p_vlog = vlog, p_key_range = key_range_new,
                       p_config = config, p_size_unit = size_unit, p_meta = meta\<rparr>
         in if \<not> vlog_exist \<or> metadata_len os vlog_path = 0
            then handle_empty_vlog env P fs2 (n + 2) params
            else recover env P os fs2 (n + 2) params)))"

definition open_without_background ::
  "environment \<Rightarrow> platform \<Rightarrow> os_view \<Rightarrow> filesys \<Rightarrow> nat \<Rightarrow> string \<Rightarrow> path \<Rightarrow> DataStore res" where
  "open_without_background env P os fs n ks dir =
     (if \<not> is_valid_keyspace_name ks then Panic
      else and_then (create_or_recover env P os fs n (dir_path_build dir) Bytes config_default) (\<lambda>store.
             Ok (store\<lparr>keyspace := ks\<rparr>)))"

text \<open>The two tasks of the compactor wait for the first time.\<close>

definition start_background_tasks :: "DataStore \<Rightarrow> comp_system" where
  "start_background_tasks s = comp_start (ds_compactor s) (ds_tables s)"

definition store_open ::
  "environment \<Rightarrow> platform \<Rightarrow> os_view \<Rightarrow> filesys \<Rightarrow> nat \<Rightarrow> string \<Rightarrow> path \<Rightarrow> (DataStore \<times> comp_system) res" where
  "store_open env P os fs n ks dir =
     (if \<not> is_valid_keyspace_name ks then Panic
      else and_then (create_or_recover env P os fs n (dir_path_build dir) Bytes config_default) (\<lambda>store.
             Ok (store\<lparr>keyspace := ks\<rparr>, start_background_tasks (store\<lparr>keyspace := ks\<rparr>))))"

section \<open>The id of a bucket in the path of its tables\<close>

lemma rfind_last:
  assumes "take (length pat) (drop n s) = pat" and "n \<le> length s"
    and "\<And>m. n < m \<Longrightarrow> take (length pat) (drop m s) \<noteq> pat"
  shows "rfind pat s = Some n"
proof -
  let ?P = "\<lambda>i. take (length pat) (drop i s) = pat"
  have "[0..<Suc (length s)] = [0..<n] @ n # [Suc n..<Suc (length s)]"
    using assms(2) by (metis le_imp_less_Suc upt_add_eq_append upt_conv_Cons le0 add.commute le_add_diff_inverse2 less_imp_le)
  moreover have "filter ?P [Suc n..<Suc (length s)] = []"
    unfolding filter_empty_conv
  proof
    fix m assume "m \<in> set [Suc n..<Suc (length s)]"
    then have "n < m" by auto
    then show "take (length pat) (drop m s) \<noteq> pat" by (rule assms(3))
  qed
  ultimately have eq: "filter ?P [0..<Suc (length s)] = filter ?P [0..<n] @ [n]"
    using assms(1) by simp
  show ?thesis
    unfolding rfind_def eq by (cases "filter ?P [0..<n]") simp_all
qed

lemma rfind_bucket:
  assumes "CHR ''k'' \<notin> set post"
  shows "rfind ''bucket'' (pre @ ''bucket'' @ post) = Some (length pre)"
proof (rule rfind_last)
  define s where "s = pre @ ''bucket'' @ post"
  have s: "s = (pre @ ''buck'') @ (''et'' @ post)" by (simp add: s_def)
  fix m assume m: "length pre < m"
  show "take (length ''bucket'') (drop m (pre @ ''bucket'' @ post)) \<noteq> ''bucket''"
    unfolding s_def [symmetric]
  proof
    assume eq: "take (length ''bucket'') (drop m s) = ''bucket''"
    then have len: "m + 6 \<le> length s"
      by (auto dest: arg_cong [of _ _ length])
    then have "s ! (m + 3) = take (length ''bucket'') (drop m s) ! 3"
      by simp
    then have "s ! (m + 3) = CHR ''k''" unfolding eq by simp
    moreover have "s ! (m + 3) = (''et'' @ post) ! (m + 3 - length (pre @ ''buck''))"
      using m unfolding s by (subst nth_append) simp
    moreover have "m + 3 - length (pre @ ''buck'') < length (''et'' @ post)"
      using m len unfolding s by simp
    ultimately have "CHR ''k'' \<in> set (''et'' @ post)" by (metis nth_mem)
    with assms show False by simp
  qed
qed simp_all

lemma decimal_digits_set: "c \<in> set (decimal_digits n) \<Longrightarrow> of_char c \<in> {48..57 :: nat}"
proof (induction n rule: decimal_digits.induct)
  case (1 n)
  have "of_char (char_of (48 + n mod 10) :: char) = 48 + n mod 10"
    by (simp add: of_char_mod_256)
  with 1 show ?case
    by (subst (asm) decimal_digits.simps) (auto split: if_splits)
qed

lemma path_string_append: "path_string (p @ q) = path_string p @ path_string q"
  by (simp add: path_string_def)

text \<open>What \<^verbatim>\<open>Uuid\<close> prints consists of hexadecimal digits and dashes.\<close>

definition uuid_text :: "string \<Rightarrow> bool" where
  "uuid_text i \<longleftrightarrow> set i \<subseteq> set ''0123456789abcdef-''"

lemma bucket_id_of_path:
  assumes "uuid_text i"
  shows "get_bucket_id_from_full_bucket_path (dir @ [BUCKET_DIRECTORY_PREFIX @ i, sst_dir_name t]) = i"
proof -
  have k: "of_char (CHR ''k'') = (107 :: nat)" by simp
  have "CHR ''k'' \<notin> set (sst_dir_name t)"
    using decimal_digits_set [of "CHR ''k''"] by (auto simp: sst_dir_name_def k)
  moreover have "CHR ''k'' \<notin> set i" "CHR ''/'' \<notin> set i"
    using assms by (auto simp: uuid_text_def)
  ultimately have "rfind ''bucket'' ((path_string dir @ ''/'') @ ''bucket'' @ (i @ ''/'' @ sst_dir_name t))
      = Some (length (path_string dir @ ''/''))"
    by (intro rfind_bucket) simp
  moreover have "path_string (dir @ [BUCKET_DIRECTORY_PREFIX @ i, sst_dir_name t])
      = (path_string dir @ ''/'') @ ''bucket'' @ (i @ ''/'' @ sst_dir_name t)"
    by (simp add: path_string_append path_string_def BUCKET_DIRECTORY_PREFIX_def)
  moreover have "takeWhile (\<lambda>c. c \<noteq> CHR ''/'') (i @ CHR ''/'' # sst_dir_name t) = i"
    using \<open>CHR ''/'' \<notin> set i\<close> by (subst takeWhile_append2) auto
  ultimately show ?thesis
    by (simp add: get_bucket_id_from_full_bucket_path_def Let_def)
qed

text \<open>C26. The id of a bucket is recovered from the path of each of its tables: the directory name that a new bucket gets,
  followed by the directory name of a table, gives the id back, whatever the directory of the store is called.\<close>

theorem bucket_id_recovered:
  assumes "uuid_text i"
  shows "get_bucket_id_from_full_bucket_path (b_dir (snd (bucket_new fs dir i)) @ [sst_dir_name t]) = i"
  using bucket_id_of_path [OF assms] by (simp add: bucket_new_def Let_def)

theorem bucket_id_recovered_witness:
  "uuid_text ''0a1b-2c''
    \<and> get_bucket_id_from_full_bucket_path (b_dir (snd (bucket_new sample_fs [''bucket1'', ''buckets''] ''0a1b-2c'')) @ [sst_dir_name 7000000])
        = ''0a1b-2c''"
proof -
  have "uuid_text ''0a1b-2c''" by (simp add: uuid_text_def)
  with bucket_id_recovered [OF this, of sample_fs "[''bucket1'', ''buckets'']" 7000000] show ?thesis by simp
qed

end
