(* ===== verification/Store_Opening.thy ===== *)
theory Store_Opening
  imports Store_Runs Recovery
begin

text \<open>
  What opening a store establishes: the invariant of the store, in a new directory and after a crash
  that left the value log on disk and no table.
\<close>

section \<open>A store that nothing has been done to\<close>

definition memtable_config :: "DbConfig \<Rightarrow> Config" where
  "memtable_config config = \<lparr>false_pos_rate = db_false_positive_rate config, cfg_capacity = write_buffer_size config,
     cfg_size_unit = Bytes\<rparr>"

lemma new_config_memtable:
  assumes "config_ok P (memtable_config config)"
  obtains m where "with_specified_capacity_and_rate P now now' Bytes (write_buffer_size config) (db_false_positive_rate config) = Ok m"
    and "fits P 0 m" and "mt_entries m = []" and "mt_config m = memtable_config config" and "mt_size m = 0"
    and "get_most_recent_offset m = 0"
  using new_memtable [OF assms, of now now'] that by (auto simp: memtable_config_def)

lemma tables_ok_empty:
  assumes "length bdir = dp + 1" and "\<And>p. under bdir p \<Longrightarrow> files fs p = None"
    and "dirs fs bdir" and "\<And>p. under bdir p \<Longrightarrow> dirs fs p \<Longrightarrow> p = bdir"
  shows "tables_ok env P C dp \<lparr>ts_fs = fs, ts_reads = n, ts_buckets = \<lparr>bm_dir = bdir, buckets = []\<rparr>, ts_key_range = key_range_new\<rparr>"
  using assms unfolding tables_ok_def
  by (intro conjI disk_okI) (auto simp: ranges_ok_def buckets_ok_def kr_ok_def bm_wf_def key_range_new_def)

lemma new_store_inv:
  fixes dir config ts active ro vlog meta ks
  defines "s \<equiv> (new_data_store dir config ts active ro vlog meta)\<lparr>keyspace := ks\<rparr>"
  assumes "fits P (log_offset log) active" and "config_ok P (mt_config active)" and "recent active log"
    and "\<forall>(i, m) \<in> set ro. fits P (log_offset log + 21) m \<and> mt_entries m \<noteq> []" and "sm_sorted ro"
    and "log_ok env (ts_reads ts) log" and "vlog_inv P (ts_fs ts, vlog) log"
    and "tables_ok env P C (length (dir_root dir)) ts"
    and "paths_ok s" and "checkpoint C s log"
    and "represents [{user_map (mt_entries active)}, (\<lambda>(i, m). user_map (mt_entries m)) ` set ro,
      (\<lambda>d. user_map (C d)) ` sst_dirs (ts_key_range ts)] log"
  shows "store_inv env P C s log"
  using assms(2-) unfolding s_def
  by (simp add: store_inv_def store_core_def memtables_ok_def tasks_ok_def layers_def new_data_store_def fits_def)

section \<open>The entries that a new store writes\<close>

definition tail_vle :: "datetime \<Rightarrow> ValueLogEntry" where
  "tail_vle t = ValueLogEntry_new (length TAIL_ENTRY_KEY) (length TAIL_ENTRY_VALUE) TAIL_ENTRY_KEY TAIL_ENTRY_VALUE t False"

definition head_vle :: "datetime \<Rightarrow> ValueLogEntry" where
  "head_vle t = ValueLogEntry_new (length HEAD_ENTRY_KEY) (length HEAD_ENTRY_VALUE) HEAD_ENTRY_KEY HEAD_ENTRY_VALUE t False"

lemma vle_head_simps [simp]:
  "vle_key (tail_vle t) = TAIL_ENTRY_KEY" "vle_value (tail_vle t) = TAIL_ENTRY_VALUE" "vle_millis (tail_vle t) = timestamp_millis t"
  "vle_key (head_vle t) = HEAD_ENTRY_KEY" "vle_value (head_vle t) = HEAD_ENTRY_VALUE" "vle_millis (head_vle t) = timestamp_millis t"
  by (simp_all add: tail_vle_def head_vle_def ValueLogEntry_new_def vle_millis_def)

lemma reserved_lengths [simp]:
  "length TAIL_ENTRY_KEY = 4" "length TAIL_ENTRY_VALUE = 4" "length HEAD_ENTRY_KEY = 4" "length HEAD_ENTRY_VALUE = 4"
  by (simp_all add: constants)

lemma log_offset_heads: "log_offset [tail_vle t] = 25" "log_offset [tail_vle t, head_vle t'] = 50"
  by (simp_all add: length_vlog_bytes)

lemma heads_ok: "wf_time P t \<Longrightarrow> 8 \<le> max_read P \<Longrightarrow> vle_ok P (tail_vle t) \<and> vle_ok P (head_vle t)"
  by (simp add: vle_ok_def tail_vle_def head_vle_def ValueLogEntry_new_def field_ok_def constants)

lemma represents_nothing: "represents [{Map.empty}, {}, {}] []"
  by (simp add: represents_def layered_def)

lemma heads_log_ok:
  assumes "ticking P env N" and "m < n" and "m < N"
  shows "log_ok env n [tail_vle (clock env m), head_vle (clock env m)]"
  using assms ticking_time [OF assms(1,3)] log_offset_heads(2) [of "clock env m" "clock env m"]
  by (auto simp: log_ok_def log_ordered_def BLOCK_SIZE_def) (auto simp: constants)

section \<open>Opening in a new directory\<close>

lemma under_prefix: "under (d @ d') p \<Longrightarrow> under d p"
  unfolding under_def by (drule arg_cong [of _ _ "take (length d)"]) (simp add: min_def)

lemma under_short: "under d p \<Longrightarrow> p = d \<or> length d < length p"
  unfolding under_def by (metis length_take min.absorb1 min.cobounded2 nat_less_le order_refl take_all linorder_le_cases)

lemma create_dir_all_mono: "dirs fs p \<Longrightarrow> dirs (create_dir_all fs d) p"
  by (simp add: create_dir_all_def)

lemma create_dir_all_long: "length d < length p \<Longrightarrow> dirs (create_dir_all fs d) p = dirs fs p"
  by (auto simp: create_dir_all_def)

lemma dir_path_simps [simp]:
  "dir_root (dir_path_build root) = root" "dir_buckets (dir_path_build root) = root @ [BUCKETS_DIRECTORY_NAME]"
  "dir_val_log (dir_path_build root) = root @ [VALUE_LOG_DIRECTORY_NAME]" "dir_meta (dir_path_build root) = root @ [META_DIRECTORY_NAME]"
  by (simp_all add: dir_path_build_def)

text \<open>What \<^verbatim>\<open>Meta::new\<close> and \<^verbatim>\<open>ValueLog::new\<close> leave: two files, empty unless they existed.\<close>

lemma open_files:
  obtains fs1 fs2 where
    "meta_new fs (dir_meta (dir_path_build root)) now now' =
       Ok (fs1, \<lparr>meta_path = meta_file_path root, v_log_tail = 0, v_log_head = 0, meta_created_at = now, last_modified = now'\<rparr>)"
    "vlog_new fs1 (dir_val_log (dir_path_build root)) =
       Ok (fs2, \<lparr>vl_path = vlog_file_path root, head_offset = 0, tail_offset = 0, vl_size = length (the (files fs2 (vlog_file_path root)))\<rparr>)"
    "\<And>p. files fs2 p = (if (p = meta_file_path root \<or> p = vlog_file_path root) \<and> files fs p = None then Some [] else files fs p)"
    "dirs fs2 (dir_val_log (dir_path_build root))" "dirs fs2 (dir_meta (dir_path_build root))" "\<And>p. dirs fs p \<Longrightarrow> dirs fs2 p"
    "\<And>p. length root + 1 < length p \<Longrightarrow> dirs fs2 p = dirs fs p"
proof -
  let ?m = "meta_file_path root" and ?v = "vlog_file_path root"
  have ne: "?m \<noteq> ?v" by (simp add: META_DIRECTORY_NAME_def VALUE_LOG_DIRECTORY_NAME_def)
  define fs1 where "fs1 = (let fs' = create_dir_all fs (root @ [META_DIRECTORY_NAME])
    in if files fs ?m = None then fs'\<lparr>files := (files fs)(?m \<mapsto> [])\<rparr> else fs')"
  define fs2 where "fs2 = (let fs' = create_dir_all fs1 (root @ [VALUE_LOG_DIRECTORY_NAME])
    in if files fs1 ?v = None then fs'\<lparr>files := (files fs1)(?v \<mapsto> [])\<rparr> else fs')"
  show thesis
  proof (rule that)
    show "meta_new fs (dir_meta (dir_path_build root)) now now' =
       Ok (fs1, \<lparr>meta_path = ?m, v_log_tail = 0, v_log_head = 0, meta_created_at = now, last_modified = now'\<rparr>)"
      by (simp add: meta_new_def dir_path_build_def file_node_unwrap_def file_create_def butlast_append fs1_def Let_def)
    show "vlog_new fs1 (dir_val_log (dir_path_build root)) =
       Ok (fs2, \<lparr>vl_path = ?v, head_offset = 0, tail_offset = 0, vl_size = length (the (files fs2 ?v))\<rparr>)"
      by (auto simp: vlog_new_def dir_path_build_def file_node_unwrap_def file_create_def file_size_def butlast_append fs2_def Let_def)
    show "files fs2 p = (if (p = ?m \<or> p = ?v) \<and> files fs p = None then Some [] else files fs p)" for p
      using ne by (auto simp: fs2_def fs1_def Let_def)
    show "dirs fs2 (dir_val_log (dir_path_build root))"
      by (simp add: fs2_def dir_path_build_def Let_def)
    show "dirs fs2 (dir_meta (dir_path_build root))"
      by (simp add: fs2_def fs1_def dir_path_build_def Let_def create_dir_all_mono)
    show "dirs fs p \<Longrightarrow> dirs fs2 p" for p
      by (simp add: fs2_def fs1_def Let_def create_dir_all_mono)
    show "length root + 1 < length p \<Longrightarrow> dirs fs2 p = dirs fs p" for p
      by (simp add: fs2_def fs1_def Let_def create_dir_all_long)
  qed
qed

text \<open>A store that has no table yet and has not written its metadata.\<close>

definition untouched :: "path \<Rightarrow> DataStore \<Rightarrow> bool" where
  "untouched root s \<longleftrightarrow> ds_dir s = dir_path_build root \<and> vl_path (val_log s) = vlog_file_path root
     \<and> meta_path (ds_meta s) = meta_file_path root \<and> files (ds_fs s) (meta_file_path root) = Some []
     \<and> ds_key_range s = key_range_new \<and> (\<forall>p. under (root @ [BUCKETS_DIRECTORY_NAME]) p \<longrightarrow> files (ds_fs s) p = None)
     \<and> dirs (ds_fs s) (root @ [VALUE_LOG_DIRECTORY_NAME]) \<and> dirs (ds_fs s) (root @ [META_DIRECTORY_NAME])
     \<and> dirs (ds_fs s) (root @ [BUCKETS_DIRECTORY_NAME])
     \<and> (\<forall>p. under (root @ [BUCKETS_DIRECTORY_NAME]) p \<and> dirs (ds_fs s) p \<longrightarrow> p = root @ [BUCKETS_DIRECTORY_NAME])
     \<and> (\<forall>rs. Publish_Ranges rs \<notin> set (ds_tasks s))"

lemma insert_tail_head:
  assumes "fits P 0 m" and "mt_entries m = []" and "mt_size m = 0" and "get_most_recent_offset m = 0"
    and "wf_time P t" and "8 \<le> max_read P"
  obtains m1 m2 where "mt_insert P m (Entry_new TAIL_ENTRY_KEY 0 t False) = Ok m1"
    and "mt_insert P m1 (Entry_new HEAD_ENTRY_KEY 25 t False) = Ok m2"
    and "fits P 50 m2" and "user_map (mt_entries m2) = Map.empty" and "mt_config m2 = mt_config m"
    and "recent m2 [tail_vle t, head_vle t]"
proof -
  let ?t = "Entry_new TAIL_ENTRY_KEY 0 t False"
  have wf: "mt_wf P m" using assms(1) by (simp add: fits_def)
  obtain m1 where m1: "mt_insert P m ?t = Ok m1" using mem.ins_total [OF wf] by blast
  note e1 = mt_insert_effect [OF wf m1]
  obtain m2 where m2: "mt_insert P m1 (Entry_new HEAD_ENTRY_KEY 25 t False) = Ok m2"
    using mem.ins_total [OF e1(1)] by blast
  have "entry_ok P (e_key ?t, entry_value ?t)" "length (e_key ?t) = 4"
    using assms(5,6) by (simp_all add: entry_ok_def field_ok_def Entry_new_def TAIL_ENTRY_KEY_def entry_value_def SkipMapValue_new_def)
  then have f1: "fits P 21 m1"
    using fits_insert [OF assms(1) m1] by (simp add: BLOCK_SIZE_def)
  have f2: "fits P 42 m2" "user_map (mt_entries m2) = user_map (mt_entries m1)"
    using head_entry_fits [OF f1 m2 assms(5,6)] by simp_all
  have u: "user_map (mt_entries m1) = Map.empty"
    using e1(2) wf assms(2) by (simp add: user_map_insert mt_wf_def Entry_new_def del: sm_insert.simps)
  have "recent m []" using assms(2-4) by (simp add: recent_def)
  from recent_insert [OF this wf, of TAIL_ENTRY_KEY t False m1 "tail_vle t"] m1 have r1: "recent m1 [tail_vle t]" by simp
  from recent_insert [OF this e1(1), of HEAD_ENTRY_KEY t False m2 "head_vle t"] m2
  have "recent m2 [tail_vle t, head_vle t]" unfolding log_offset_heads(1) by simp
  with f2 u m1 m2 e1(5) mt_insert_effect(5) [OF e1(1) m2] show thesis
    by (intro that [of m1 m2]) (auto intro: fits_mono)
qed

lemma handle_empty_vlog_ok:
  assumes vl: "vlog_inv P (fs, vlog) []" "vl_path vlog = vlog_file_path root"
    and fs: "files fs (meta_file_path root) = Some []" "\<And>p. under (root @ [BUCKETS_DIRECTORY_NAME]) p \<Longrightarrow> files fs p = None"
      "dirs fs (root @ [VALUE_LOG_DIRECTORY_NAME])" "dirs fs (root @ [META_DIRECTORY_NAME])" 
      "\<And>p. under (root @ [BUCKETS_DIRECTORY_NAME]) p \<Longrightarrow> dirs fs p \<Longrightarrow> p = root @ [BUCKETS_DIRECTORY_NAME]"
    and cfg: "config_ok P (memtable_config config_default)" and tick: "ticking P env N" "n + 3 \<le> N" and rd: "8 \<le> max_read P"
    and meta: "meta_path meta = meta_file_path root" "v_log_head meta = 0"
  defines "log \<equiv> [tail_vle (clock env (n + 2)), head_vle (clock env (n + 2))]"
  shows "\<exists>s. handle_empty_vlog env P fs n \<lparr>p_dir = dir_path_build root, p_buckets_path = dir_buckets (dir_path_build root),
        p_vlog = vlog, p_key_range = key_range_new, p_config = config_default, p_size_unit = Bytes, p_meta = meta\<rparr> = Ok s
    \<and> store_inv env P C (s\<lparr>keyspace := ks\<rparr>) log \<and> ds_reads s = n + 3 \<and> untouched root s \<and> read_only_memtables s = []
    \<and> ds_meta s = meta"
proof -
  let ?t = "clock env (n + 2)"
  have t: "wf_time P ?t" using ticking_time [OF tick(1), of "n + 2"] tick(2) by simp
  note ok = heads_ok [OF t rd]
  obtain active where act: "with_specified_capacity_and_rate P (clock env n) (clock env (n + 1)) Bytes
      (write_buffer_size config_default) (db_false_positive_rate config_default) = Ok active"
    "fits P 0 active" "mt_entries active = []" "mt_size active = 0" "get_most_recent_offset active = 0"
    "mt_config active = memtable_config config_default"
    using new_config_memtable [OF cfg] by metis
  obtain fs1 vl1 where v1: "vlog_append fs vlog TAIL_ENTRY_KEY TAIL_ENTRY_VALUE ?t False = Ok (fs1, vl1, 0)"
    "vlog_inv P (fs1, vl1) [tail_vle ?t]" "vl_path vl1 = vlog_file_path root"
    "fs1 = fs\<lparr>files := (files fs)(vlog_file_path root \<mapsto> vlog_file_of [tail_vle ?t])\<rparr>"
    using vlog_append_inv [OF vl(1), of TAIL_ENTRY_KEY TAIL_ENTRY_VALUE ?t False] ok vl(2) by (auto simp: tail_vle_def)
  obtain fs2 vl2 where v2: "vlog_append fs1 vl1 HEAD_ENTRY_KEY HEAD_ENTRY_VALUE ?t False = Ok (fs2, vl2, 25)"
    "vlog_inv P (fs2, vl2) log" "vl_path vl2 = vlog_file_path root"
    "fs2 = fs1\<lparr>files := (files fs1)(vlog_file_path root \<mapsto> vlog_file_of log)\<rparr>"
    using vlog_append_inv [OF v1(2), of HEAD_ENTRY_KEY HEAD_ENTRY_VALUE ?t False] ok v1(3) log_offset_heads(1) [of ?t]
    by (auto simp: head_vle_def log_def)
  obtain m1 m2 where m: "mt_insert P active (Entry_new TAIL_ENTRY_KEY 0 ?t False) = Ok m1"
    "mt_insert P m1 (Entry_new HEAD_ENTRY_KEY 25 ?t False) = Ok m2"
    "fits P 50 m2" "user_map (mt_entries m2) = Map.empty" "mt_config m2 = memtable_config config_default" "recent m2 log"
    using insert_tail_head [OF act(2-5) t rd] act(6) unfolding log_def by metis
  define fs3 where "fs3 = create_dir_all fs2 (root @ [BUCKETS_DIRECTORY_NAME])"
  define ts where "ts = \<lparr>ts_fs = fs3, ts_reads = n + 3, ts_buckets = \<lparr>bm_dir = root @ [BUCKETS_DIRECTORY_NAME], buckets = []\<rparr>,
    ts_key_range = key_range_new\<rparr>"
  define vl3 where "vl3 = vlog_set_tail (vlog_set_head vl2 25) 0"
  have eq: "handle_empty_vlog env P fs n \<lparr>p_dir = dir_path_build root, p_buckets_path = dir_buckets (dir_path_build root),
        p_vlog = vlog, p_key_range = key_range_new, p_config = config_default, p_size_unit = Bytes, p_meta = meta\<rparr>
      = Ok (new_data_store (dir_path_build root) config_default ts m2 [] vl3 meta)"
    unfolding handle_empty_vlog_def Let_def
    by (simp only: CreateOrRecoverStoreParams.select_convs act(1) v1(1) v2(1) m(1,2) and_then.simps prod.case
        bucket_map_new_def dir_path_simps ts_def fs3_def vl3_def)
  have ne: "\<not> under (root @ [BUCKETS_DIRECTORY_NAME]) (vlog_file_path root)" "meta_file_path root \<noteq> vlog_file_path root"
    by (simp_all add: under_def BUCKETS_DIRECTORY_NAME_def VALUE_LOG_DIRECTORY_NAME_def META_DIRECTORY_NAME_def)
  have none: "files fs3 p = None" if "under (root @ [BUCKETS_DIRECTORY_NAME]) p" for p
    using fs(2) [OF that] that ne(1) by (auto simp: fs3_def v2(4) v1(4))
  have made: "dirs fs3 (root @ [VALUE_LOG_DIRECTORY_NAME])" "dirs fs3 (root @ [META_DIRECTORY_NAME])" "dirs fs3 (root @ [BUCKETS_DIRECTORY_NAME])"
    "files fs3 (meta_file_path root) = Some []"
    using fs(1,3,4) ne by (auto simp: fs3_def v2(4) v1(4) create_dir_all_mono)
  have only: "p = root @ [BUCKETS_DIRECTORY_NAME]" if "under (root @ [BUCKETS_DIRECTORY_NAME]) p" "dirs fs3 p" for p
    using fs(5) [OF that(1)] that create_dir_all_long [of "root @ [BUCKETS_DIRECTORY_NAME]" p fs2] under_short [OF that(1)]
    by (auto simp: fs3_def v2(4) v1(4))
  have "store_inv env P C ((new_data_store (dir_path_build root) config_default ts m2 [] vl3 meta)\<lparr>keyspace := ks\<rparr>) log"
  proof (rule new_store_inv)
    show "paths_ok ((new_data_store (dir_path_build root) config_default ts m2 [] vl3 meta)\<lparr>keyspace := ks\<rparr>)"
      using made v2(3) meta(1) by (simp add: paths_ok_def new_data_store_def ts_def vl3_def vlog_set_head_def vlog_set_tail_def)
    have "based (table_layer C s \<union> flush_layer s) (ro_layer s \<union> table_layer C s) ([] @ [tail_vle ?t])"
      if "ds_key_range s = key_range_new" "ds_tasks s = []" for s
      using that by (simp add: based_def layer_defs sst_dirs_def key_range_new_def)
    then show "checkpoint C ((new_data_store (dir_path_build root) config_default ts m2 [] vl3 meta)\<lparr>keyspace := ks\<rparr>) log"
      unfolding checkpoint_def log_def using meta(2)
      by (intro exI [of _ "[]"] exI [of _ "tail_vle ?t"] exI [of _ "[head_vle ?t]"]) (simp add: new_data_store_def ts_def)
    show "fits P (log_offset log) m2" unfolding log_def log_offset_heads(2) by (rule m(3))
    show "log_ok env (ts_reads ts) log" unfolding log_def using tick by (intro heads_log_ok) (auto simp: ts_def)
    show "tables_ok env P C (length (dir_root (dir_path_build root))) ts"
      unfolding ts_def using none made(3) only by (intro tables_ok_empty) (simp_all add: dir_path_build_def)
    show "represents [{user_map (mt_entries m2)}, (\<lambda>(i, m). user_map (mt_entries m)) ` set [],
        (\<lambda>d. user_map (C d)) ` sst_dirs (ts_key_range ts)] log"
      using represents_reserved [OF represents_reserved [OF represents_nothing, of "tail_vle ?t"], of "head_vle ?t"]
      by (simp add: m(4) log_def ts_def sst_dirs_def key_range_new_def)
    show "vlog_inv P (ts_fs ts, vl3) log"
      using v2(2) by (simp add: ts_def fs3_def vl3_def vlog_inv_def vlog_set_head_def vlog_set_tail_def)
  qed (use cfg m meta in \<open>simp_all add: vl3_def vlog_set_head_def vlog_set_tail_def ts_def sst_dirs_def key_range_new_def dir_path_build_def sm_sorted_def\<close>)
  moreover have "untouched root (new_data_store (dir_path_build root) config_default ts m2 [] vl3 meta)"
    using none meta(1) v2(3) made only
    by (simp add: untouched_def new_data_store_def ts_def vl3_def vlog_set_head_def vlog_set_tail_def)
  ultimately show ?thesis
    using eq by (simp add: new_data_store_def ts_def)
qed

text \<open>The directory holds nothing; it need not exist.\<close>

definition fresh_directory :: "filesys \<Rightarrow> path \<Rightarrow> bool" where
  "fresh_directory fs root \<longleftrightarrow> (\<forall>p. under root p \<longrightarrow> files fs p = None \<and> (dirs fs p \<longrightarrow> p = root))"

definition meta_ok :: "platform \<Rightarrow> Meta \<Rightarrow> bool" where
  "meta_ok P m \<longleftrightarrow> wf_time P (meta_created_at m) \<and> wf_time P (last_modified m)"

lemma create_ok:
  assumes ks: "is_valid_keyspace_name ks" and fresh: "fresh_directory fs root"
    and cfg: "config_ok P (memtable_config config_default)" and tick: "ticking P env N" "n + 5 \<le> N" and rd: "8 \<le> max_read P"
  defines "log \<equiv> [tail_vle (clock env (n + 4)), head_vle (clock env (n + 4))]"
  shows "\<exists>s. open_without_background env P os fs n ks root = Ok s \<and> store_inv env P C s log \<and> ds_reads s = n + 5 \<and> untouched root s
    \<and> read_only_memtables s = [] \<and> meta_ok P (ds_meta s)"
proof -
  obtain fs1 fs2 where o: "meta_new fs (dir_meta (dir_path_build root)) (clock env n) (clock env (n + 1)) =
       Ok (fs1, \<lparr>meta_path = meta_file_path root, v_log_tail = 0, v_log_head = 0, meta_created_at = clock env n, last_modified = clock env (n + 1)\<rparr>)"
    "vlog_new fs1 (dir_val_log (dir_path_build root)) =
       Ok (fs2, \<lparr>vl_path = vlog_file_path root, head_offset = 0, tail_offset = 0, vl_size = length (the (files fs2 (vlog_file_path root)))\<rparr>)"
    and fs2: "\<And>p. files fs2 p = (if (p = meta_file_path root \<or> p = vlog_file_path root) \<and> files fs p = None then Some [] else files fs p)"
    "dirs fs2 (dir_val_log (dir_path_build root))" "dirs fs2 (dir_meta (dir_path_build root))" "\<And>p. length root + 1 < length p \<Longrightarrow> dirs fs2 p = dirs fs p"
    by (rule open_files [of fs root "clock env n" "clock env (n + 1)"]) (rule that)
  let ?m = "\<lparr>meta_path = meta_file_path root, v_log_tail = 0, v_log_head = 0, meta_created_at = clock env n, last_modified = clock env (n + 1)\<rparr>"
    and ?v = "\<lparr>vl_path = vlog_file_path root, head_offset = 0, tail_offset = 0, vl_size = length (the (files fs2 (vlog_file_path root)))\<rparr>"
  have none: "files fs p = None" if "under root p" for p
    using fresh that by (simp add: fresh_directory_def)
  have new: "files fs (meta_file_path root) = None" "files fs (vlog_file_path root) = None" "files fs (root @ [VALUE_LOG_DIRECTORY_NAME]) = None"
    by (rule none, simp add: under_def)+
  have empty: "files fs2 p = None" if "under (root @ [BUCKETS_DIRECTORY_NAME]) p" for p
  proof -
    have "p \<noteq> meta_file_path root" "p \<noteq> vlog_file_path root"
      using that by (auto simp: under_def BUCKETS_DIRECTORY_NAME_def VALUE_LOG_DIRECTORY_NAME_def META_DIRECTORY_NAME_def)
    moreover have "under root p" using that by (rule under_prefix)
    ultimately show ?thesis by (simp add: fs2(1) none)
  qed
  have nodir: "\<not> dirs fs (root @ name # names)" for name names
    using fresh unfolding fresh_directory_def under_def by (auto dest!: spec [of _ "root @ name # names"])
  have only: "p = root @ [BUCKETS_DIRECTORY_NAME]" if "under (root @ [BUCKETS_DIRECTORY_NAME]) p" "dirs fs2 p" for p
    using under_short [OF that(1)] that(2) fs2(4) [of p] fresh under_prefix [OF that(1)] by (auto simp: fresh_directory_def)
  have "vlog_inv P (fs2, ?v) []" by (simp add: vlog_inv_def fs2(1) new)
  then obtain s where s: "handle_empty_vlog env P fs2 (n + 2) \<lparr>p_dir = dir_path_build root, p_buckets_path = dir_buckets (dir_path_build root),
        p_vlog = ?v, p_key_range = key_range_new, p_config = config_default, p_size_unit = Bytes, p_meta = ?m\<rparr> = Ok s"
    "store_inv env P C (s\<lparr>keyspace := ks\<rparr>) [tail_vle (clock env (n + 2 + 2)), head_vle (clock env (n + 2 + 2))]" "ds_reads s = n + 2 + 3" "untouched root s" "read_only_memtables s = []" "ds_meta s = ?m"
    using handle_empty_vlog_ok [of P fs2 ?v root env N "n + 2" ?m C ks] fs2(2,3) empty cfg tick rd only by (auto simp: fs2(1) new)
  have ex: "(\<not> (dirs fs (dir_val_log (dir_path_build root)) \<or> files fs (dir_val_log (dir_path_build root)) \<noteq> None)
      \<or> metadata_len os (dir_val_log (dir_path_build root)) = 0) = True"
    using nodir [of VALUE_LOG_DIRECTORY_NAME "[]"] new(3) by simp
  have "open_without_background env P os fs n ks root = Ok (s\<lparr>keyspace := ks\<rparr>)"
    unfolding open_without_background_def create_or_recover_def Let_def
    by (simp only: ks o and_then.simps prod.case s(1) ex simp_thms if_True if_False)
  moreover have "meta_ok P ?m"
    using ticking_time [OF tick(1)] tick(2) by (simp add: meta_ok_def)
  ultimately show ?thesis
    using s(2-6) by (simp add: log_def untouched_def numeral_eq_Suc)
qed

section \<open>The parts of a write\<close>

lemma put_parts:
  fixes k v env s
  defines "t \<equiv> clock env (ds_reads s)" and "d \<equiv> v = TOMB_STONE_MARKER"
  assumes inv: "store_inv env P C s log" and put: "put env P s k v = Ok (s', b)"
  obtains fs' vl' off s3 s4 active where "vlog_append (ds_fs s) (val_log s) k v t d = Ok (fs', vl', off)"
    "s3 = s\<lparr>val_log := vl', ds_tables := (ds_tables s)\<lparr>ts_key_range := update_key_range (ds_key_range s), ts_fs := fs', ts_reads := ds_reads s + 1\<rparr>\<rparr>"
    "(if is_full (active_memtable s3) HEAD_KEY_SIZE then migrate_memtable_to_read_only env P s3 else Ok s3) = Ok s4"
    "mt_insert P (active_memtable s4) (Entry_new k off t d) = Ok active"
    "s' = s4\<lparr>active_memtable := active, ds_tasks := ds_tasks s4 @ [Gc_Table_Insert (gc_table s4) (Entry_new k off t d)]\<rparr>"
    "memtables_ok P s3 log"
proof -
  have gc: "gc_updated_entries s = []" and mts: "memtables_ok P s log"
    using inv by (auto simp: store_inv_def store_core_def)
  define s2 where "s2 = s\<lparr>ds_tables := (ds_tables s)\<lparr>ts_key_range := update_key_range (ds_key_range s)\<rparr>\<rparr>"
  obtain fs' vl' off where app: "vlog_append (ds_fs s2) (val_log s2) k v (clock env (ds_reads s2)) d = Ok (fs', vl', off)"
    using put gc by (auto simp: put_def s2_def d_def Let_def split: if_splits)
  define s3 where "s3 = s2\<lparr>val_log := vl', ds_tables := (ds_tables s2)\<lparr>ts_fs := fs', ts_reads := ds_reads s2 + 1\<rparr>\<rparr>"
  have v: "validate_size k (Some v) = Ok ()" "utf8_valid v"
    using put by (auto simp: put_def Let_def split: if_splits)
  let ?e = "Entry_new k off (clock env (ds_reads s2)) d"
  have "and_then (if is_full (active_memtable s3) HEAD_KEY_SIZE then migrate_memtable_to_read_only env P s3 else Ok s3) (\<lambda>s4.
      and_then (mt_insert P (active_memtable s4) ?e) (\<lambda>active.
        Ok (s4\<lparr>active_memtable := active, ds_tasks := ds_tasks s4 @ [Gc_Table_Insert (gc_table s4) ?e]\<rparr>, True))) = Ok (s', b)"
    using put unfolding put_def Let_def d_def [symmetric]
    by (simp only: v gc and_then.simps simp_thms if_False s2_def [symmetric] app prod.case s3_def [symmetric])
  then obtain s4 active where s4: "(if is_full (active_memtable s3) HEAD_KEY_SIZE then migrate_memtable_to_read_only env P s3 else Ok s3) = Ok s4"
    "mt_insert P (active_memtable s4) ?e = Ok active"
    "s' = s4\<lparr>active_memtable := active, ds_tasks := ds_tasks s4 @ [Gc_Table_Insert (gc_table s4) ?e]\<rparr>"
    unfolding and_then_eq_Ok by auto
  have s2: "ds_fs s2 = ds_fs s" "val_log s2 = val_log s" "ds_reads s2 = ds_reads s" by (simp_all add: s2_def)
  have "memtables_ok P s3 log" using mts by (simp add: memtables_ok_def s3_def s2_def)
  with app s4 show thesis by (intro that [of fs' vl' off s3 s4 active]) (simp_all add: s2 t_def s3_def, simp add: s2_def)
qed

section \<open>Steps that leave the directory untouched\<close>

lemma update_key_range_new [simp]: "update_key_range key_range_new = key_range_new"
  by (simp add: update_key_range_def key_range_new_def)

lemma untouched_tasks:
  assumes "untouched root s" and "vl_path (val_log s') = vl_path (val_log s)" and "meta_path (ds_meta s') = meta_path (ds_meta s)"
    and "ds_dir s' = ds_dir s" and "ds_key_range s' = ds_key_range s" and "ds_fs s' = ds_fs s" and "ds_tasks s' = ds_tasks s @ ts"
    and "\<forall>rs. Publish_Ranges rs \<notin> set ts"
  shows "untouched root s'"
  using assms by (simp add: untouched_def)

lemma migrate_untouched:
  assumes "untouched root s" and "memtables_ok P s log" and "migrate_memtable_to_read_only env P s = Ok s'"
  shows "untouched root s'"
proof -
  obtain h m full active gc ts fl i where mig: "s' = migrated s h m ts fl i full active gc"
    and m: "meta_path m = meta_path (ds_meta s)" and ts: "\<forall>t \<in> set ts. \<exists>i m. t = Flush_Task i m"
    by (rule migrate_eq [OF assms(2), of env])
      (use assms(3) in \<open>fastforce simp: scheduled_def update_last_modified_def meta_set_head_def\<close>)
  show ?thesis
    using ts m unfolding mig
    by (intro untouched_tasks [OF assms(1), of _ "[Gc_Log_Head h, Meta_Write m] @ ts"])
      (auto simp: migrated_def vlog_set_head_def)
qed

lemma append_untouched:
  assumes "untouched root s" and "vlog_append (ds_fs s) (val_log s) k v t d = Ok (fs', vl', off)"
  shows "untouched root (s\<lparr>val_log := vl', ds_tables := (ds_tables s)\<lparr>ts_fs := fs', ts_reads := n\<rparr>\<rparr>)"
proof -
  have w: "file_write_all (ds_fs s) (vlog_file_path root) (vle_serialize (ValueLogEntry_new (length k) (length v) k v t d)) = Ok fs'"
    "vl_path vl' = vlog_file_path root"
    using assms by (auto simp: vlog_append_def untouched_def Let_def)
  have "\<not> under (root @ [BUCKETS_DIRECTORY_NAME]) (vlog_file_path root)" "meta_file_path root \<noteq> vlog_file_path root"
    by (simp_all add: under_def BUCKETS_DIRECTORY_NAME_def VALUE_LOG_DIRECTORY_NAME_def META_DIRECTORY_NAME_def)
  with assms(1) w(2) file_write_all_dirs [OF w(1)] file_write_all_files [OF w(1)] show ?thesis
    by (auto simp: untouched_def)
qed

lemma put_untouched:
  assumes inv: "store_inv env P C s log" and put: "put env P s k v = Ok (s', b)" and u: "untouched root s"
  shows "untouched root s'"
proof -
  let ?d = "v = TOMB_STONE_MARKER"
  obtain fs' vl' off s3 s4 active where app: "vlog_append (ds_fs s) (val_log s) k v (clock env (ds_reads s)) ?d = Ok (fs', vl', off)"
    and s3: "s3 = s\<lparr>val_log := vl', ds_tables := (ds_tables s)\<lparr>ts_key_range := update_key_range (ds_key_range s), ts_fs := fs', ts_reads := ds_reads s + 1\<rparr>\<rparr>"
    and s4: "(if is_full (active_memtable s3) HEAD_KEY_SIZE then migrate_memtable_to_read_only env P s3 else Ok s3) = Ok s4"
    and s': "s' = s4\<lparr>active_memtable := active, ds_tasks := ds_tasks s4 @ [Gc_Table_Insert (gc_table s4) (Entry_new k off (clock env (ds_reads s)) ?d)]\<rparr>"
    and m: "memtables_ok P s3 log"
    using put_parts [OF inv put] by metis
  have "untouched root s3"
    using append_untouched [OF u app, of "ds_reads s + 1"] u by (simp add: s3 untouched_def)
  with s4 m have "untouched root s4" by (auto split: if_splits intro: migrate_untouched)
  then show ?thesis unfolding s' by (rule untouched_tasks) auto
qed

lemma get_untouched:
  assumes "get P s k = Ok (s', r)" and "untouched root s"
  shows "s' = s"
proof -
  obtain m where m: "lookup P s k = Ok (r, m)" "s' = (if m \<noteq> [] then s\<lparr>ds_tasks := ds_tasks s @ [Publish_Ranges m]\<rparr> else s)"
    using assms(1) by (auto simp: get_def)
  have "filter_sstables_by_key_range P (ds_fs s) (ds_key_range s) k = Ok ([], [])"
    using assms(2) by (simp add: untouched_def key_range_new_def filter_sstables_by_key_range_def check_restored_key_ranges_def)
  with lookup_restored [OF m(1)] m(2) show ?thesis by auto
qed

text \<open>Neither the metadata nor a table reaches the disk.\<close>

fun quiet :: "event \<Rightarrow> bool" where
  "quiet (Task_Event (Meta_Write _)) = False"
| "quiet (Task_Event (Flush_Task _ _)) = False"
| "quiet _ = True"

lemma task_untouched:
  assumes "untouched root s" and "ds_tasks s = pre @ t # post" and "quiet (Task_Event t)"
    and "run_task env P t (s\<lparr>ds_tasks := pre @ post\<rparr>) = Ok s'"
  shows "untouched root s'"
  using assms by (cases t) (auto simp: untouched_def run_task_def)

lemma step_untouched:
  assumes inv: "store_inv env P C s log" and step: "store_step env P N s ev s'" and u: "untouched root s" and q: "quiet ev"
  shows "untouched root s'"
  using step
proof (cases rule: store_step.cases)
  case (put_step k v b)
  then show ?thesis by (intro put_untouched [OF inv _ u]) simp
next
  case (update_step k v b)
  then obtain s1 r where g: "get P s k = Ok (s1, r)" "put env P s1 k v = Ok (s', b)"
    by (auto simp: update_def)
  with get_untouched [OF g(1) u] show ?thesis by (intro put_untouched [OF inv _ u]) simp
next
  case (delete_step k b)
  then obtain s1 r where g: "get P s k = Ok (s1, r)" "put env P s1 k TOMB_STONE_MARKER = Ok (s', b)"
    by (auto simp: delete_def)
  with get_untouched [OF g(1) u] show ?thesis by (intro put_untouched [OF inv _ u]) simp
next
  case (get_step k r)
  with get_untouched [OF _ u] u show ?thesis by metis
next
  case (task_step pre t post)
  with task_untouched [OF u, of pre t post env P s'] q show ?thesis by simp
qed

lemma run_untouched:
  assumes "store_run env P N s evs s'" and "store_inv env P C s log" and "ticking P env N" and "untouched root s"
    and "\<forall>ev \<in> set evs. quiet ev"
  shows "untouched root s'"
  using assms
proof (induction rule: store_run.induct)
  case (run_step s evs s' ev s'')
  then obtain C' log' where "store_inv env P C' s' log'"
    using store_run_refines [OF run_step.hyps(1) run_step.prems(1,2)] by blast
  with run_step show ?case by (auto intro: step_untouched)
qed

end
