(* ===== verification/Crash_Recovery.thy ===== *)
theory Crash_Recovery
  imports Store_Opening
begin

text \<open>
  Replaying the value log: the memtables that recovery builds represent the log from the head on, on top of
  the tables that represent what is before it.
\<close>

section \<open>Replaying the log\<close>

definition ids_distinct :: "environment \<Rightarrow> nat \<Rightarrow> nat \<Rightarrow> bool" where
  "ids_distinct env n N \<longleftrightarrow> inj_on (\<lambda>j. generate_table_id (alphanumeric env j)) {n..<N}"

definition replayed ::
  "environment \<Rightarrow> platform \<Rightarrow> Config \<Rightarrow> nat \<Rightarrow> layer \<Rightarrow> ValueLogEntry list \<Rightarrow> recovered_memtables \<Rightarrow> bool" where
  "replayed env P c n0 T log = (\<lambda>(off, active, ro, n). off = log_offset log \<and> n0 \<le> n
     \<and> fits P (log_offset log) active \<and> mt_config active = c \<and> recent active log
     \<and> sm_sorted ro \<and> (\<forall>(i, m) \<in> set ro. fits P (log_offset log + 21) m \<and> mt_entries m \<noteq> []
         \<and> (\<exists>j. n0 \<le> j \<and> j < n \<and> i = generate_table_id (alphanumeric env j)))
     \<and> represents [{user_map (mt_entries active)}, (\<lambda>(i, m). user_map (mt_entries m)) ` set ro, T] log)"

lemma log_offset_snoc: "log_offset (log @ [e]) = log_offset log + 17 + length (vle_key e) + length (vle_value e)"
  by (simp add: length_vlog_bytes)

text \<open>A memtable that is full becomes read-only, under an id that is not in use.\<close>

lemma replay_push:
  assumes st: "replayed env P (memtable_config config) n0 T log (off, active, ro, n)"
    and cfg: "config_ok P (memtable_config config)" and cap: "BLOCK_SIZE \<le> write_buffer_size config"
    and ids: "ids_distinct env n0 N" "n < N" and key: "klen + 17 \<le> BLOCK_SIZE" and full: "is_full active klen"
  obtains active' where
    "with_specified_capacity_and_rate P (clock env (n + 1)) (clock env (n + 2)) Bytes (write_buffer_size config) (db_false_positive_rate config) = Ok active'"
    "replayed env P (memtable_config config) n0 T log
       (off, active', sm_insert (generate_table_id (alphanumeric env n)) (active\<lparr>read_only := True\<rparr>) ro, n + 3)"
proof -
  let ?i = "generate_table_id (alphanumeric env n)" and ?m = "active\<lparr>read_only := True\<rparr>"
  obtain active' where a: "with_specified_capacity_and_rate P (clock env (n + 1)) (clock env (n + 2)) Bytes (write_buffer_size config) (db_false_positive_rate config) = Ok active'"
    "fits P 0 active'" "mt_entries active' = []" "mt_config active' = memtable_config config" "mt_size active' = 0" "get_most_recent_offset active' = 0"
    using new_config_memtable [OF cfg] by metis
  have ne: "mt_entries active \<noteq> []"
    using st full key cap by (auto simp: replayed_def recent_def is_full_def mt_capacity_def memtable_config_def constants)
  have fresh: "?i \<notin> fst ` set ro"
  proof
    assume "?i \<in> fst ` set ro"
    then obtain j where "n0 \<le> j" "j < n" "?i = generate_table_id (alphanumeric env j)"
      using st by (fastforce simp: replayed_def)
    with ids st show False by (auto simp: ids_distinct_def replayed_def dest!: inj_onD)
  qed
  have ro: "set (sm_insert ?i ?m ro) = insert (?i, ?m) (set ro)"
    using fresh by (rule sm_insert_fresh_set)
  have m: "fits P (log_offset log + 21) ?m" "fits P (log_offset log) active'" "recent active' log"
    using st a fits_mono [OF a(2)] by (auto simp: replayed_def fits_def mt_wf_def entries_ok_def savable_def recent_def)
  have old: "\<exists>j. n0 \<le> j \<and> j < n + 3 \<and> i = generate_table_id (alphanumeric env j)" if "(i, m) \<in> set ro" for i m
  proof -
    from that st obtain j where "n0 \<le> j" "j < n" "i = generate_table_id (alphanumeric env j)" by (fastforce simp: replayed_def)
    then show ?thesis by (intro exI [of _ j]) simp
  qed
  have "represents [{Map.empty}, insert (user_map (mt_entries active)) ((\<lambda>(i, m). user_map (mt_entries m)) ` set ro), T] log"
    using st by (intro represents_push) (simp add: replayed_def)
  moreover have "\<exists>j. n0 \<le> j \<and> j < n + 3 \<and> ?i = generate_table_id (alphanumeric env j)"
    using st by (intro exI [of _ n]) (simp add: replayed_def)
  ultimately have "replayed env P (memtable_config config) n0 T log (off, active', sm_insert ?i ?m ro, n + 3)"
    using st a m ne old unfolding replayed_def prod.case ro by (auto simp: sm_insert_sorted)
  with a(1) show thesis by (rule that)
qed

lemma wf_time_truncate: "wf_time P t \<Longrightarrow> wf_time P (truncate_millis t)"
  using truncate_le [of t] zdiv_mono1 [of "truncate_millis t" t 1000000000]
  by (auto simp: wf_time_def truncate_millis_def timestamp_millis_def)

lemma stored_vle_simps [simp]:
  "vle_key (stored_vle e) = vle_key e" "vle_value (stored_vle e) = vle_value e" "vle_is_tombstone (stored_vle e) = vle_is_tombstone e"
  "vle_created_at (stored_vle e) = truncate_millis (vle_created_at e)"
  by (simp_all add: stored_vle_def)

lemma replay_insert:
  assumes st: "replayed env P c n0 T log (off, active, ro, n)" and e: "vle_ok P e" "length (vle_key e) + 17 \<le> BLOCK_SIZE"
    and lg: "log_ordered (log @ [e])" "log_offset (log @ [e]) < 2 ^ 32"
  obtains active' where "mt_insert P active (Entry_new (vle_key e) off (truncate_millis (vle_created_at e)) (vle_is_tombstone e)) = Ok active'"
    and "replayed env P c n0 T (log @ [e]) (log_offset (log @ [e]), active', ro, n)"
proof -
  let ?t = "truncate_millis (vle_created_at e)"
  have fit: "fits P (log_offset log) active" and wf: "mt_wf P active" and off: "off = log_offset log"
    and rep: "represents ({user_map (mt_entries active)} # [(\<lambda>(i, m). user_map (mt_entries m)) ` set ro, T]) log"
    using st by (auto simp: replayed_def fits_def)
  obtain active' where ins: "mt_insert P active (Entry_new (vle_key e) off ?t (vle_is_tombstone e)) = Ok active'"
    using mem.ins_total [OF wf] by blast
  have "timestamp_millis ?t = vle_millis e" "wf_time P ?t"
    using e(1) by (simp_all add: vle_millis_def vle_ok_def wf_time_truncate)
  moreover have "\<forall>e' \<in> set log. vle_key e' = vle_key e \<longrightarrow> vle_millis e' \<le> vle_millis e"
    using lg(1) by (auto simp: log_ordered_def sorted_wrt_append intro: less_imp_le)
  moreover have "log_offset log + 1 < 2 ^ 32"
    using lg(2) unfolding log_offset_snoc by simp
  ultimately have new: "fits P (log_offset (log @ [e])) active'"
    "represents ({user_map (mt_entries active')} # [(\<lambda>(i, m). user_map (mt_entries m)) ` set ro, T]) (log @ [e])"
    using insert_entry [OF fit ins [unfolded off] _ refl e(1) _ e(2) rep] by blast+
  have "recent active log" using st by (simp add: replayed_def)
  note rc = recent_insert [OF this wf ins [unfolded off], of e]
  have "fits P (log_offset (log @ [e]) + 21) m" if "fits P (log_offset log + 21) m" for m
    using that by (rule fits_mono) simp
  then have "replayed env P c n0 T (log @ [e]) (log_offset (log @ [e]), active', ro, n)"
    using st new rc mt_insert_effect(5) [OF wf ins] unfolding replayed_def by auto
  with ins show thesis by (rule that)
qed

lemma replay_entry_ok:
  assumes st: "replayed env P (memtable_config config) n0 T log (off, active, ro, n)" and head: "log_offset log \<noteq> head"
    and cfg: "config_ok P (memtable_config config)" and cap: "BLOCK_SIZE \<le> write_buffer_size config"
    and ids: "ids_distinct env n0 N" "n < N" and e: "vle_ok P e" "length (vle_key e) + 17 \<le> BLOCK_SIZE"
    and lg: "log_ordered (log @ [e])" "log_offset (log @ [e]) < 2 ^ 32"
  obtains active' ro' n' where
    "replay_entry env P Bytes (write_buffer_size config) (db_false_positive_rate config) head (stored_vle e) (off, active, ro, n)
       = Ok (log_offset (log @ [e]), active', ro', n')"
    "replayed env P (memtable_config config) n0 T (log @ [e]) (log_offset (log @ [e]), active', ro', n')" "n' \<le> n + 3"
proof -
  let ?next = "off + SIZE_OF_U32 + SIZE_OF_U32 + SIZE_OF_U64 + SIZE_OF_U8 + length (vle_key e) + length (vle_value e)"
  have off: "off \<noteq> head" "?next = log_offset (log @ [e])"
    using st head log_offset_snoc [of log e] by (simp_all add: replayed_def constants)
  define fix_full where "fix_full = (if is_full active (length (vle_key e))
      then and_then (with_specified_capacity_and_rate P (clock env (n + 1)) (clock env (n + 2)) Bytes (write_buffer_size config)
            (db_false_positive_rate config)) (\<lambda>active'.
          Ok (active', sm_insert (generate_table_id (alphanumeric env n)) (active\<lparr>read_only := True\<rparr>) ro, n + 3))
      else Ok (active, ro, n))"
  obtain active1 ro1 n1 where 1: "fix_full = Ok (active1, ro1, n1)" "n1 \<le> n + 3"
    "replayed env P (memtable_config config) n0 T log (off, active1, ro1, n1)"
  proof (cases "is_full active (length (vle_key e))")
    case True
    from replay_push [OF st cfg cap ids e(2) True] that True show thesis by (fastforce simp: fix_full_def)
  qed (use st that in \<open>simp add: fix_full_def\<close>)
  obtain active2 where 2: "mt_insert P active1 (Entry_new (vle_key e) off (truncate_millis (vle_created_at e)) (vle_is_tombstone e)) = Ok active2"
    "replayed env P (memtable_config config) n0 T (log @ [e]) (log_offset (log @ [e]), active2, ro1, n1)"
    using replay_insert [OF 1(3) e lg] by blast
  have "replay_entry env P Bytes (write_buffer_size config) (db_false_positive_rate config) head (stored_vle e) (off, active, ro, n)
      = Ok (log_offset (log @ [e]), active2, ro1, n1)"
    unfolding replay_entry_def Let_def prod.case stored_vle_simps fix_full_def [symmetric] 1(1)
    by (simp only: off not_False_eq_True if_True and_then.simps prod.case 2(1))
  then show thesis using 2(2) 1(2) by (rule that)
qed

text \<open>The entry at the head is in the tables already: the code passes over it.\<close>

lemma replay_ok:
  fixes config env P
  defines "replay \<equiv> \<lambda>head. replay_entry env P Bytes (write_buffer_size config) (db_false_positive_rate config) head"
  assumes rep: "represents [{Map.empty}, {}, T] (xs @ [e])"
    and new: "fits P 0 active" "mt_entries active = []" "mt_config active = memtable_config config" "mt_size active = 0" "get_most_recent_offset active = 0"
    and cfg: "config_ok P (memtable_config config)" and cap: "BLOCK_SIZE \<le> write_buffer_size config"
    and ids: "ids_distinct env n N" "n + 3 * length ys \<le> N"
    and ok: "\<forall>e' \<in> set ys. vle_ok P e' \<and> length (vle_key e') + 17 \<le> BLOCK_SIZE" and lg: "log_ordered (xs @ e # ys)" "log_offset (xs @ e # ys) < 2 ^ 32"
  shows "\<exists>active' ro n'. fold_res (replay (log_offset xs)) (map stored_vle (e # ys)) (log_offset xs, active, [], n)
      = Ok (log_offset (xs @ e # ys), active', ro, n')
    \<and> replayed env P (memtable_config config) n T (xs @ e # ys) (log_offset (xs @ e # ys), active', ro, n')
    \<and> n' \<le> n + 3 * length ys"
  using ids(2) ok lg
proof (induction ys rule: rev_induct)
  case Nil
  have "replay (log_offset xs) (stored_vle e) (log_offset xs, active, [], n) = Ok (log_offset (xs @ [e]), active, [], n)"
    using log_offset_snoc [of xs e] by (simp add: replay_def replay_entry_def constants)
  moreover have "replayed env P (memtable_config config) n T (xs @ [e]) (log_offset (xs @ [e]), active, [], n)"
    using new rep fits_mono [OF new(1)] by (simp add: replayed_def recent_def sm_sorted_def)
  ultimately show ?case by simp
next
  case (snoc e' ys)
  let ?log = "xs @ e # ys"
  have "log_ordered ?log" "log_offset ?log < 2 ^ 32"
    using snoc.prems(3,4) by (simp_all add: log_ordered_def sorted_wrt_append)
  then obtain active1 ro1 n1 where 1: "fold_res (replay (log_offset xs)) (map stored_vle (e # ys)) (log_offset xs, active, [], n)
      = Ok (log_offset ?log, active1, ro1, n1)"
    "replayed env P (memtable_config config) n T ?log (log_offset ?log, active1, ro1, n1)" "n1 \<le> n + 3 * length ys"
    using snoc.IH snoc.prems(1,2) by (auto simp del: vlog_file_of_append)
  have "log_offset ?log \<noteq> log_offset xs" by (simp add: length_vlog_bytes)
  moreover have "n1 < N" "vle_ok P e'" "length (vle_key e') + 17 \<le> BLOCK_SIZE" "log_ordered (?log @ [e'])" "log_offset (?log @ [e']) < 2 ^ 32"
    using 1(3) snoc.prems by (auto simp del: vlog_file_of_append)
  ultimately obtain active2 ro2 n2 where
    2: "replay (log_offset xs) (stored_vle e') (log_offset ?log, active1, ro1, n1) = Ok (log_offset (?log @ [e']), active2, ro2, n2)"
    "replayed env P (memtable_config config) n T (?log @ [e']) (log_offset (?log @ [e']), active2, ro2, n2)" "n2 \<le> n1 + 3"
    using replay_entry_ok [OF 1(2) _ cfg cap ids(1)] unfolding replay_def by metis
  have "fold_res (replay (log_offset xs)) (map stored_vle (e # ys @ [e'])) (log_offset xs, active, [], n)
      = Ok (log_offset (?log @ [e']), active2, ro2, n2)"
    using 1(1) 2(1) fold_res_append [of "replay (log_offset xs)" "map stored_vle (e # ys)" "[stored_vle e']"]
    by (simp del: fold_res.simps(2) vlog_file_of_append) simp
  with 2(2,3) 1(3) show ?case
    by (intro exI [of _ active2] exI [of _ ro2] exI [of _ n2]) (simp del: vlog_file_of_append)
qed

lemma recover_memtable_ok:
  assumes file_at: "files fs (vlog_file_path root) = Some (vlog_file_of (xs @ e # ys))"
    and rep: "represents [{Map.empty}, {}, T] (xs @ [e])"
    and cfg: "config_ok P (memtable_config config)" and cap: "BLOCK_SIZE \<le> write_buffer_size config"
    and ids: "ids_distinct env (n + 2) N" "n + 2 + 3 * length ys \<le> N"
    and lg: "log_ok env m (xs @ e # ys)" "\<forall>e' \<in> set (xs @ e # ys). vle_ok P e'"
  obtains n' active ro where
    "recover_memtable env P fs n Bytes (write_buffer_size config) (db_false_positive_rate config) (root @ [VALUE_LOG_DIRECTORY_NAME]) (log_offset xs)
       = Ok (create_dir_all fs (root @ [VALUE_LOG_DIRECTORY_NAME]), n', active, ro)"
    "replayed env P (memtable_config config) (n + 2) T (xs @ e # ys) (log_offset (xs @ e # ys), active, ro, n')"
    "n' \<le> n + 2 + 3 * length ys"
proof -
  let ?v = "root @ [VALUE_LOG_DIRECTORY_NAME]" and ?log = "xs @ e # ys"
  obtain active where a: "with_specified_capacity_and_rate P (clock env n) (clock env (n + 1)) Bytes (write_buffer_size config) (db_false_positive_rate config) = Ok active"
    "fits P 0 active" "mt_entries active = []" "mt_config active = memtable_config config" "mt_size active = 0" "get_most_recent_offset active = 0"
    using new_config_memtable [OF cfg] by metis
  define vl where "vl = \<lparr>vl_path = vlog_file_path root, head_offset = 0, tail_offset = 0, vl_size = log_offset ?log\<rparr>"
  have new: "vlog_new fs ?v = Ok (create_dir_all fs ?v, vl)"
    using file_at by (simp add: vlog_new_def vl_def file_node_unwrap_def file_create_def file_size_def butlast_append Let_def)
  have "vlog_inv P (create_dir_all fs ?v, vl) (xs @ (e # ys))"
    using file_at lg(2) by (simp add: vlog_inv_def vl_def)
  note rec = vlog_recover_inv [OF this]
  have "\<forall>e' \<in> set ys. vle_ok P e' \<and> length (vle_key e') + 17 \<le> BLOCK_SIZE" "log_ordered ?log" "log_offset ?log < 2 ^ 32"
    using lg by (auto simp: log_ok_def)
  then obtain active' ro n' where fold: "fold_res (replay_entry env P Bytes (write_buffer_size config) (db_false_positive_rate config) (log_offset xs))
        (map stored_vle (e # ys)) (log_offset xs, active, [], n + 2) = Ok (log_offset ?log, active', ro, n')"
    "replayed env P (memtable_config config) (n + 2) T ?log (log_offset ?log, active', ro, n')" "n' \<le> n + 2 + 3 * length ys"
    using replay_ok [OF rep a(2-6) cfg cap ids] by blast
  have "recover_memtable env P fs n Bytes (write_buffer_size config) (db_false_positive_rate config) ?v (log_offset xs)
      = Ok (create_dir_all fs ?v, n', active', ro)"
    unfolding recover_memtable_def
    by (simp only: a(1) new rec fold(1) and_then.simps prod.case)
  then show thesis using fold(2,3) by (rule that)
qed

text \<open>The invariant after the recovery, from what it made of the tables and of the metadata.\<close>

lemma recover_inv:
  fixes root config
  defines "b \<equiv> root @ [BUCKETS_DIRECTORY_NAME]"
  assumes dir: "dirs fs b"
    and tabs: "fold_res (recover_bucket os P b) (read_dir os b) (fs, key_range_new, []) = Ok (fsr, kr, rb)"
    and ts: "\<And>n'. n \<le> n' \<Longrightarrow> tables_ok env P C (length root) \<lparr>ts_fs = fsn, ts_reads = n', ts_buckets = bm, ts_key_range = kr\<rparr>"
    and bm: "create_dir_all fsr b = fsn" "bm = \<lparr>bm_dir = b, buckets = fold (\<lambda>(bucket_id, b). im_insert bucket_id b) rb []\<rparr>"
    and vdir: "dirs fsn (root @ [VALUE_LOG_DIRECTORY_NAME])" "dirs fsn (root @ [META_DIRECTORY_NAME])"
      "files fsn (meta_file_path root) \<noteq> None"
    and meta: "file_size fsn (meta_path meta) = Ok meta_size"
      "(if 0 < meta_size
        then and_then (meta_recover P fsn meta) (\<lambda>meta.
               Ok (meta, vlog_set_tail (vlog_set_head vlog (v_log_head meta)) (v_log_tail meta)))
        else Ok (meta, vlog_set_tail (vlog_set_head vlog
               (SIZE_OF_U32 + SIZE_OF_U32 + SIZE_OF_U64 + SIZE_OF_U8 + length TAIL_ENTRY_KEY + length TAIL_ENTRY_VALUE)) 0)) = Ok (meta', vlog')"
      "meta_path meta' = meta_file_path root" "vl_path vlog' = vlog_file_path root" "vl_size vlog' = log_offset (xs @ e # ys)"
      "head_offset vlog' = log_offset xs"
    and cp: "xs @ e # ys = zs @ e' # zs'" "v_log_head meta' = log_offset zs"
      "based ((\<lambda>d. user_map (C d)) ` sst_dirs kr) ((\<lambda>d. user_map (C d)) ` sst_dirs kr) (zs @ [e'])"
    and file_at: "files fsn (vlog_file_path root) = Some (vlog_file_of (xs @ e # ys))"
    and rep: "represents [{Map.empty}, {}, (\<lambda>d. user_map (C d)) ` sst_dirs kr] (xs @ [e])"
    and cfg: "config_ok P (memtable_config config)" and cap: "BLOCK_SIZE \<le> write_buffer_size config"
    and ids: "ids_distinct env (n + 2) N" "n + 2 + 3 * length ys \<le> N"
    and lg: "log_ok env n (xs @ e # ys)" "\<forall>e' \<in> set (xs @ e # ys). vle_ok P e'"
  shows "\<exists>n' active ro. recover env P os fs n \<lparr>p_dir = dir_path_build root, p_buckets_path = dir_buckets (dir_path_build root), p_vlog = vlog,
        p_key_range = key_range_new, p_config = config, p_size_unit = Bytes, p_meta = meta\<rparr>
      = Ok (new_data_store (dir_path_build root) config \<lparr>ts_fs = fsn, ts_reads = n', ts_buckets = bm, ts_key_range = kr\<rparr> active ro vlog' meta')
    \<and> store_inv env P C ((new_data_store (dir_path_build root) config \<lparr>ts_fs = fsn, ts_reads = n', ts_buckets = bm, ts_key_range = kr\<rparr>
        active ro vlog' meta')\<lparr>keyspace := ks\<rparr>) (xs @ e # ys) \<and> n \<le> n' \<and> n' \<le> n + 2 + 3 * length ys"
proof -
  let ?log = "xs @ e # ys"
  have same: "create_dir_all fsn (root @ [VALUE_LOG_DIRECTORY_NAME]) = fsn"
    using vdir(1) by (simp add: create_dir_all_def)
  obtain n' active ro where mem: "recover_memtable env P fsn n Bytes (write_buffer_size config) (db_false_positive_rate config)
        (root @ [VALUE_LOG_DIRECTORY_NAME]) (log_offset xs) = Ok (fsn, n', active, ro)"
    "replayed env P (memtable_config config) (n + 2) ((\<lambda>d. user_map (C d)) ` sst_dirs kr) ?log (log_offset ?log, active, ro, n')"
    "n' \<le> n + 2 + 3 * length ys"
    using recover_memtable_ok [OF file_at rep cfg cap ids lg] unfolding same by blast
  define ts' where "ts' = \<lparr>ts_fs = fsn, ts_reads = n', ts_buckets = bm, ts_key_range = kr\<rparr>"
  have n': "n \<le> n'" using mem(2) by (simp add: replayed_def)
  have "recover env P os fs n \<lparr>p_dir = dir_path_build root, p_buckets_path = dir_buckets (dir_path_build root), p_vlog = vlog,
        p_key_range = key_range_new, p_config = config, p_size_unit = Bytes, p_meta = meta\<rparr>
      = Ok (new_data_store (dir_path_build root) config ts' active ro vlog' meta')"
    unfolding recover_def Let_def open_dir_stream_def
    by (simp only: CreateOrRecoverStoreParams.select_convs dir_path_simps b_def [symmetric] dir if_True and_then.simps tabs prod.case
        bucket_map_new_def BucketMap.select_convs BucketMap.update_convs bm meta(1,2,6) mem(1) map_err.simps ts'_def)
  moreover have "store_inv env P C ((new_data_store (dir_path_build root) config ts' active ro vlog' meta')\<lparr>keyspace := ks\<rparr>) ?log"
  proof (rule new_store_inv)
    show "tables_ok env P C (length (dir_root (dir_path_build root))) ts'"
      using ts [OF n'] by (simp add: ts'_def)
    show "log_ok env (ts_reads ts') ?log"
      using log_ok_mono [OF lg(1) n'] by (simp add: ts'_def)
    show "vlog_inv P (ts_fs ts', vlog') ?log"
      using file_at lg(2) meta(4,5) by (simp add: vlog_inv_def ts'_def)
    show "paths_ok ((new_data_store (dir_path_build root) config ts' active ro vlog' meta')\<lparr>keyspace := ks\<rparr>)"
      using meta(3,4) vdir by (simp add: paths_ok_def new_data_store_def ts'_def bm(2) b_def)
    have "based (table_layer C s \<union> flush_layer s) (ro_layer s \<union> table_layer C s) (zs @ [e'])"
      if "ds_key_range s = kr" "ds_tasks s = []" for s
      using that based_mono [OF cp(3), of "table_layer C s \<union> flush_layer s" "ro_layer s \<union> table_layer C s"] by (auto simp: layer_defs)
    then show "checkpoint C ((new_data_store (dir_path_build root) config ts' active ro vlog' meta')\<lparr>keyspace := ks\<rparr>) ?log"
      unfolding checkpoint_def using cp(1,2)
      by (intro exI [of _ zs] exI [of _ e'] exI [of _ zs']) (simp add: new_data_store_def ts'_def)
  qed (use mem(2) cfg in \<open>auto simp: replayed_def ts'_def\<close>)
  ultimately show ?thesis using mem(3) n' unfolding ts'_def by blast
qed

section \<open>Opening a directory again\<close>

text \<open>A directory stream lists what is in the directory, for the directories below one.\<close>

definition lists_directories :: "os_view \<Rightarrow> filesys \<Rightarrow> path \<Rightarrow> bool" where
  "lists_directories os fs d \<longleftrightarrow> (\<forall>p. under d p \<and> dirs fs p \<longrightarrow> distinct (read_dir os p)
     \<and> set (read_dir os p) = {name. dirs fs (p @ [name]) \<or> files fs (p @ [name]) \<noteq> None})"

lemma default_capacity: "BLOCK_SIZE \<le> write_buffer_size config_default"
  by (simp add: config_default_def constants)

lemma filesys_same:
  assumes "\<And>p. files fs' p = files fs p" and "\<And>p. dirs fs' p = dirs fs p"
  shows "fs' = (fs :: filesys)"
  using assms by (cases fs; cases fs') (auto simp: fun_eq_iff)

text \<open>Opening does not change a directory that has the files.\<close>

lemma open_existing:
  assumes "dirs fs (root @ [VALUE_LOG_DIRECTORY_NAME])" and "dirs fs (root @ [META_DIRECTORY_NAME])"
    and "files fs (meta_file_path root) \<noteq> None" and "files fs (vlog_file_path root) = Some bs"
  shows "meta_new fs (dir_meta (dir_path_build root)) now now' =
       Ok (fs, \<lparr>meta_path = meta_file_path root, v_log_tail = 0, v_log_head = 0, meta_created_at = now, last_modified = now'\<rparr>)"
    and "vlog_new fs (dir_val_log (dir_path_build root)) =
       Ok (fs, \<lparr>vl_path = vlog_file_path root, head_offset = 0, tail_offset = 0, vl_size = length bs\<rparr>)"
  using assms
  by (auto simp: meta_new_def vlog_new_def create_dir_all_def file_node_unwrap_def file_create_def file_size_def butlast_append Let_def)

lemma reopen_untouched:
  fixes env P os root s
  defines "fs \<equiv> ds_fs s"
  assumes inv: "store_inv env P C s (tail_vle t # head_vle t' # rest)" and u: "untouched root s"
    and os: "lists_directories os fs (root @ [BUCKETS_DIRECTORY_NAME])" "metadata_len os (root @ [VALUE_LOG_DIRECTORY_NAME]) \<noteq> 0" and ks: "is_valid_keyspace_name ks"
    and cfg: "config_ok P (memtable_config config_default)" and n: "ds_reads s \<le> n"
    and ids: "ids_distinct env (n + 4) N" "n + 4 + 3 * length rest \<le> N"
  shows "\<exists>s'. open_without_background env P os fs n ks root = Ok s' \<and> store_inv env P C s' (tail_vle t # head_vle t' # rest)
    \<and> untouched root s' \<and> ds_reads s' \<le> n + 4 + 3 * length rest"
proof -
  let ?log = "tail_vle t # head_vle t' # rest" and ?b = "root @ [BUCKETS_DIRECTORY_NAME]"
  define meta where "meta = \<lparr>meta_path = meta_file_path root, v_log_tail = 0, v_log_head = 0, meta_created_at = clock env n, last_modified = clock env (n + 1)\<rparr>"
  define vlog where "vlog = \<lparr>vl_path = vlog_file_path root, head_offset = 0, tail_offset = 0, vl_size = log_offset ?log\<rparr>"
  define bm where "bm = \<lparr>bm_dir = ?b, buckets = []\<rparr>"
  note un = u [unfolded untouched_def, folded fs_def]
  have file_at: "files fs (vlog_file_path root) = Some (vlog_file_of ?log)" and oks: "\<forall>e \<in> set ?log. vle_ok P e"
    using inv u by (simp_all add: store_inv_def vlog_inv_def untouched_def fs_def)
  have lg: "log_ok env (n + 2) ?log"
    using inv log_ok_mono [of env "ds_reads s" ?log "n + 2"] n by (simp add: store_inv_def store_core_def)
  have none: "read_dir os ?b = []"
  proof -
    have "files fs (root @ [BUCKETS_DIRECTORY_NAME, name]) = None" for name
      using un by (simp add: under_def)
    moreover have "\<not> dirs fs (root @ [BUCKETS_DIRECTORY_NAME, name])" for name
      using un by (auto simp: under_def dest!: spec [of _ "root @ [BUCKETS_DIRECTORY_NAME, name]"])
    moreover have "set (read_dir os ?b) = {name. dirs fs (?b @ [name]) \<or> files fs (?b @ [name]) \<noteq> None}"
      using os(1) un unfolding lists_directories_def by (auto simp: under_def)
    ultimately have "set (read_dir os ?b) = {}" by simp
    then show ?thesis by simp
  qed
  have open_new: "meta_new fs (dir_meta (dir_path_build root)) (clock env n) (clock env (n + 1)) = Ok (fs, meta)"
    "vlog_new fs (dir_val_log (dir_path_build root)) = Ok (fs, vlog)"
    unfolding meta_def vlog_def using un file_at by (intro open_existing; simp)+
  have rep: "represents [{Map.empty}, {}, (\<lambda>d. user_map (C d)) ` sst_dirs key_range_new] ([tail_vle t] @ [head_vle t'])"
    using represents_reserved [OF represents_reserved [OF represents_nothing, of "tail_vle t"], of "head_vle t'"]
    by (simp add: sst_dirs_def key_range_new_def)
  have "\<exists>n' active ro. recover env P os fs (n + 2) \<lparr>p_dir = dir_path_build root, p_buckets_path = dir_buckets (dir_path_build root), p_vlog = vlog,
        p_key_range = key_range_new, p_config = config_default, p_size_unit = Bytes, p_meta = meta\<rparr>
      = Ok (new_data_store (dir_path_build root) config_default \<lparr>ts_fs = fs, ts_reads = n', ts_buckets = bm, ts_key_range = key_range_new\<rparr> active ro
          (vlog\<lparr>head_offset := 25\<rparr>) meta)
    \<and> store_inv env P C ((new_data_store (dir_path_build root) config_default \<lparr>ts_fs = fs, ts_reads = n', ts_buckets = bm, ts_key_range = key_range_new\<rparr>
        active ro (vlog\<lparr>head_offset := 25\<rparr>) meta)\<lparr>keyspace := ks\<rparr>) ([tail_vle t] @ head_vle t' # rest)
    \<and> n + 2 \<le> n' \<and> n' \<le> n + 2 + 2 + 3 * length rest"
  proof (rule recover_inv [where fsr = fs and rb = "[]" and meta_size = 0 and N = N and zs = "[]" and e' = "tail_vle t"
        and zs' = "head_vle t' # rest"])
    show "based ((\<lambda>d. user_map (C d)) ` sst_dirs key_range_new) ((\<lambda>d. user_map (C d)) ` sst_dirs key_range_new) ([] @ [tail_vle t])"
      by (simp add: based_def sst_dirs_def key_range_new_def)
    show "fold_res (recover_bucket os P ?b) (read_dir os ?b) (fs, key_range_new, []) = Ok (fs, key_range_new, [])"
      by (simp add: none)
    show "tables_ok env P C (length root) \<lparr>ts_fs = fs, ts_reads = m, ts_buckets = bm, ts_key_range = key_range_new\<rparr>" for m
      unfolding bm_def using un by (intro tables_ok_empty) simp_all
    show "(if (0 :: nat) < 0
        then and_then (meta_recover P fs meta) (\<lambda>meta.
               Ok (meta, vlog_set_tail (vlog_set_head vlog (v_log_head meta)) (v_log_tail meta)))
        else Ok (meta, vlog_set_tail (vlog_set_head vlog
               (SIZE_OF_U32 + SIZE_OF_U32 + SIZE_OF_U64 + SIZE_OF_U8 + length TAIL_ENTRY_KEY + length TAIL_ENTRY_VALUE)) 0))
      = Ok (meta, vlog\<lparr>head_offset := 25\<rparr>)"
      by (simp add: vlog_set_head_def vlog_set_tail_def vlog_def constants)
    show "head_offset (vlog\<lparr>head_offset := 25\<rparr>) = log_offset [tail_vle t]"
      unfolding log_offset_heads(1) by simp
    show "v_log_head meta = log_offset []" by (simp add: meta_def)
    show "ids_distinct env (n + 2 + 2) N" using ids(1) by (simp add: numeral_eq_Suc)
  qed (use un file_at oks lg cfg default_capacity ids rep in
      \<open>simp_all add: create_dir_all_def bm_def meta_def vlog_def file_size_def del: vlog_file_of_simps\<close>)
  then obtain n' active ro where r: "recover env P os fs (n + 2) \<lparr>p_dir = dir_path_build root, p_buckets_path = dir_buckets (dir_path_build root), p_vlog = vlog,
        p_key_range = key_range_new, p_config = config_default, p_size_unit = Bytes, p_meta = meta\<rparr>
      = Ok (new_data_store (dir_path_build root) config_default \<lparr>ts_fs = fs, ts_reads = n', ts_buckets = bm, ts_key_range = key_range_new\<rparr> active ro
          (vlog\<lparr>head_offset := 25\<rparr>) meta)"
    and i: "store_inv env P C ((new_data_store (dir_path_build root) config_default \<lparr>ts_fs = fs, ts_reads = n', ts_buckets = bm, ts_key_range = key_range_new\<rparr>
        active ro (vlog\<lparr>head_offset := 25\<rparr>) meta)\<lparr>keyspace := ks\<rparr>) ?log" and n': "n' \<le> n + 2 + 2 + 3 * length rest"
    by auto
  define s' where "s' = (new_data_store (dir_path_build root) config_default \<lparr>ts_fs = fs, ts_reads = n', ts_buckets = bm, ts_key_range = key_range_new\<rparr>
        active ro (vlog\<lparr>head_offset := 25\<rparr>) meta)\<lparr>keyspace := ks\<rparr>"
  have ex: "(\<not> (dirs fs (dir_val_log (dir_path_build root)) \<or> files fs (dir_val_log (dir_path_build root)) \<noteq> None)
      \<or> metadata_len os (dir_val_log (dir_path_build root)) = 0) = False"
    using os(2) un by simp
  have "open_without_background env P os fs n ks root = Ok s'"
    unfolding open_without_background_def create_or_recover_def Let_def
    by (simp only: ks open_new and_then.simps prod.case r ex simp_thms if_True if_False s'_def)
  moreover have "untouched root s'"
    using un by (simp add: s'_def untouched_def new_data_store_def meta_def vlog_def)
  ultimately show ?thesis
    using i n' by (intro exI [of _ s']) (simp add: s'_def new_data_store_def)
qed

end
