(* ===== verification/Range_Iterator.thy ===== *)
theory Range_Iterator
  imports Data_Store
begin

text \<open>
  The range iterator of \<^verbatim>\<open>src/range/range_iterator.rs\<close>, which is a stub: the iterator that \<open>seek\<close> returns does
  not depend on the bounds the client asked for and has no keys.
\<close>

record FetchedEntry =
  fe_key :: Key
  fe_val :: Value

record RangeIterator =
  ri_start :: Key
  ri_current :: nat
  ri_end :: Key
  ri_allow_prefetch :: bool
  prefetch_entries_size :: nat
  prefetch_entries :: "FetchedEntry list"
  ri_keys :: "Entry list"
  ri_v_log :: ValueLog

definition range_iterator_new :: "Key \<Rightarrow> Key \<Rightarrow> bool \<Rightarrow> nat \<Rightarrow> Entry list \<Rightarrow> ValueLog \<Rightarrow> RangeIterator" where
  "range_iterator_new start_key end_key allow prefetch entry_keys vlog =
     \<lparr>ri_start = start_key, ri_current = 0, ri_end = end_key, ri_allow_prefetch = allow,
      prefetch_entries_size = prefetch, prefetch_entries = [], ri_keys = entry_keys, ri_v_log = vlog\<rparr>"

definition merger_new :: "Entry list" where
  "merger_new = []"

definition seek :: "DataStore \<Rightarrow> Key \<Rightarrow> Key \<Rightarrow> RangeIterator res" where
  "seek s start_key end_key =
     Ok (range_iterator_new [1] [2] (allow_prefetch (ds_config s)) (prefetch_size (ds_config s)) merger_new (val_log s))"

lemma seek_ignores_bounds: "seek s a b = seek s c d" "\<exists>it. seek s a b = Ok it \<and> ri_keys it = []"
  by (simp_all add: seek_def range_iterator_new_def merger_new_def)

end
