(* ===== verification/Spec2Isabelle.thy ===== *)
theory Spec2Isabelle
  imports Crash_Recovery Range_Iterator
begin

text \<open>
  A verification of velarixdb, a key-value store for one process that keeps keys in a log-structured merge tree and
  values in an append-only log (the WiscKey layout). File names below are relative to \<^verbatim>\<open>src/src/\<close>.

  \<^bold>\<open>The program.\<close> A write (\<^verbatim>\<open>DataStore::put\<close>, \<^verbatim>\<open>db/store.rs\<close>) appends key and value to the value log
  (\<^verbatim>\<open>vlog/v_log.rs\<close>) and inserts the key with the offset into the active memtable (\<^verbatim>\<open>memtable/mem.rs\<close>), a skip
  map behind a bloom filter (\<^verbatim>\<open>filter/bf.rs\<close>). A full memtable becomes read-only, the head of the log moves in the
  metadata (\<^verbatim>\<open>meta/meta_manager.rs\<close>), and once enough memtables wait, tasks flush them (\<^verbatim>\<open>flush/flusher.rs\<close>): a
  sorted string table (\<^verbatim>\<open>sst/table.rs\<close>, with blocks, \<^verbatim>\<open>block/block_manager.rs\<close>, and an index of blocks,
  \<^verbatim>\<open>index/indexer.rs\<close>) is written into a bucket of tables of about the same size
  (\<^verbatim>\<open>bucket/bucket_manager.rs\<close>) and registered with its key range (\<^verbatim>\<open>key_range/range.rs\<close>). A read goes through the
  active memtable, the read-only memtables and the tables whose key range and filter admit the key, and fetches the
  value from the log. Two background tasks merge the tables of a bucket (\<^verbatim>\<open>compactors/\<close>), a third collects
  garbage at the tail of the log (\<^verbatim>\<open>gc/garbage_collector.rs\<close>). Opening a directory (\<^verbatim>\<open>db/recovery.rs\<close>) creates a
  store or rebuilds one from its files and the part of the log after the head.

  \<^bold>\<open>The theories.\<close> Each models the file of the source it names, with the operations in the order of the source.

  \<^item> \<open>Velarix_Prelude\<close>: results with errors and panics as values (\<open>Ok\<close>, \<open>Err\<close>, \<open>Panic\<close>, composed by \<open>and_then\<close> and
    \<open>fold_res\<close>), the file system as two maps, little-endian numbers (locale \<open>fixed_codec\<close>), and the maps of the
    source: skip maps as sorted association lists (\<open>sm_\<close>, locale \<open>ordered_map\<close>), hash maps (\<open>hm_\<close>), index maps (\<open>im_\<close>).
  \<^item> \<open>Velarix_Base\<close>: \<^verbatim>\<open>consts/\<close>, \<^verbatim>\<open>err/\<close>, \<^verbatim>\<open>types/\<close>, \<^verbatim>\<open>util/\<close>, \<^verbatim>\<open>macro/\<close>; the record \<open>platform\<close> holds what the
    source takes from its libraries: hashing, floating point, how much one read of a file returns, the last date.
  \<^item> \<open>File_Nodes\<close>: \<^verbatim>\<open>fs/mod.rs\<close>, the readers of all file formats over the bytes of a file. The locale \<open>record_stream\<close>
    says once that the loop of a format reads back what was written in it.
  \<^item> \<open>Bloom_Filter\<close> (locale \<open>membership_filter\<close>), \<open>Mem_Table\<close> (locale \<open>write_buffer\<close>), \<open>Value_Log\<close> (locale
    \<open>value_store\<close>), \<open>Meta_Manager\<close>, \<open>Block_Index\<close>, \<open>SS_Table\<close>, \<open>Key_Range\<close>, \<open>Bucket_Manager\<close>: one component each.
    They show the round trips of the files, that a lookup in a written table returns exactly its entries, that the
    filter of the key ranges never leaves out a table that has the key, and that buckets stay well formed.
  \<^item> \<open>Table_Merge\<close> and \<open>Compaction\<close>: \<^verbatim>\<open>compactors/\<close>, first the merge of the tables of a bucket, against a
    specification by the newest entry of each key, then the compaction loop, which terminates, and the two background
    tasks as a transition system (\<open>comp_step\<close>) in which they exclude each other.
  \<^item> \<open>Flush\<close>, \<open>Garbage_Collector\<close>, \<open>Data_Store\<close>: a flush, cut at the points where a reader can see it; the collection
    of a chunk of the log and the freeing of its space; the store and its operations. Tasks that the source spawns are
    values (\<open>ds_tasks\<close>) that \<open>run_task\<close> performs, at any later time and in any order.
  \<^item> \<open>Store_Config\<close>, \<open>Recovery\<close>, \<open>Range_Iterator\<close>: \<^verbatim>\<open>cfg/config.rs\<close> and \<^verbatim>\<open>db/keyspace.rs\<close>; \<^verbatim>\<open>db/recovery.rs\<close> with the
    opening of a store from \<^verbatim>\<open>db/store.rs\<close>; the stub of \<^verbatim>\<open>range/range_iterator.rs\<close>.
  \<^item> \<open>Store_Layers\<close>, \<open>Store_Reads\<close>, \<open>Table_State\<close>, \<open>Store_Refinement\<close>, \<open>Store_Runs\<close>: the proof that a running store
    implements a map. \<open>represents\<close> relates the layers that a read searches to the value log; \<open>store_inv\<close> is the
    invariant; each operation and each task keeps it and returns what the log says; \<open>store_run\<close> is the relation of
    runs, the events of clients and tasks in any order.
  \<^item> \<open>Store_Opening\<close>, \<open>Crash_Recovery\<close>: creating a store establishes the invariant, and so does recovering one.

  This theory puts them together: a store created in an empty directory, run and reopened.

  \<^bold>\<open>Hypotheses.\<close> Time and random numbers come from an \<open>environment\<close>, three streams that the model reads by a counter
  (\<open>ds_reads\<close>). \<open>ticking P env N\<close> says that its first \<open>N\<close> readings are in different milliseconds and its uuids
  differ; \<open>ids_distinct\<close> says it of the random ids of memtables. Without these the program loses data: directories of
  tables are named by the millisecond, entries of one key are ordered by it, and memtables with the same id replace each
  other. \<open>writable\<close> bounds a write: the value is UTF-8 text, the key has at most 4079 bytes, the log stays below 4 GiB,
  and the key is not one of the two that the store uses itself (\<open>reserved\<close>). \<open>config_ok\<close> says that the false positive
  rate gives a filter with at least one bit. \<open>8 \<le> max_read P\<close> lets a read of a file return eight bytes at once. A
  directory stream (\<open>os_view\<close>) lists the files and directories that exist (\<open>lists_directories\<close>). Flushes of a run
  take the oldest memtable first: the source starts them in this order but does not wait for one before the next.

  \<^bold>\<open>Bounds.\<close> No definition uses fuel. The compaction loop, which the source writes as \<^verbatim>\<open>loop\<close>, is a
  \<open>partial_function\<close>, and \<open>Compaction\<close> proves that it returns. Numbers that the source keeps
  in \<^verbatim>\<open>usize\<close> are naturals; where it narrows them to 32 bits for a file, the model does. The averages of bucket sizes,
  \<^verbatim>\<open>f64\<close> in two comparisons of the source, are naturals.

  \<^bold>\<open>Not modelled.\<close> The crate root, the module declarations, tests and examples have no code of the store.
  \<^verbatim>\<open>force_flush\<close> is compiled for tests only, \<^verbatim>\<open>sync_to_disk\<close> has no effect on the bytes of a file, and
  \<^verbatim>\<open>tombstone_compaction_condition_background_checker\<close> only sleeps. A task runs to its end as one step, except for the
  flush and for the two compaction tasks, which are cut where they release their locks; locks themselves and the
  scheduler are not modelled. An operation on the file system either succeeds or fails without an effect, so what a
  failed flush or compaction leaves on disk is not described, nor is a crash in the middle of a write. Runs of the
  store do not include compactions and garbage collections: the theorems on those show that they lose entries, so
  that the store refines a map only between them.
\<close>

section \<open>An environment for examples\<close>

definition store_env :: environment where
  "store_env = \<lparr>clock = (\<lambda>i. 1000000 * (int i + 1)), uuid = (\<lambda>i. replicate i CHR ''a''),
     alphanumeric = (\<lambda>i. [word_of_nat (i div 256), word_of_nat i])\<rparr>"

definition store_os :: os_view where
  "store_os = \<lparr>read_dir = (\<lambda>_. []), mtime = (\<lambda>_. 0), metadata_len = (\<lambda>_. 4096), parse_str = Ok\<rparr>"

lemma store_env_ticking: "ticking sample_platform store_env 4000"
proof -
  have "inj_on (\<lambda>i. replicate i CHR ''a'') {..<4000}"
    by (rule inj_onI) (metis length_replicate)
  then show ?thesis
    by (auto simp: ticking_def store_env_def timestamp_millis_def wf_time_def sample_platform_def)
qed

lemma store_env_ids: "ids_distinct store_env n 4000"
  unfolding ids_distinct_def
proof (rule inj_onI)
  fix i j assume ij: "i \<in> {n..<4000}" "j \<in> {n..<4000}"
    and "generate_table_id (alphanumeric store_env i) = generate_table_id (alphanumeric store_env j)"
  then have eq: "(word_of_nat (i div 256) :: byte) = word_of_nat (j div 256)" "(word_of_nat i :: byte) = word_of_nat j"
    by (simp_all add: generate_table_id_def store_env_def)
  have b: "unat (word_of_nat m :: byte) = m mod 256" for m by (simp add: unat_of_nat)
  have "i mod 256 = j mod 256" using arg_cong [OF eq(2), of unat] by (simp only: b)
  moreover have "i div 256 mod 256 = j div 256 mod 256" using arg_cong [OF eq(1), of unat] by (simp only: b)
  moreover have "i div 256 < 256" "j div 256 < 256" using ij by auto
  ultimately have "i div 256 * 256 + i mod 256 = j div 256 * 256 + j mod 256" by simp
  then show "i = j" unfolding div_mult_mod_eq .
qed

lemma sample_config_ok: "config_ok sample_platform (memtable_config config_default)"
proof -
  have "calculate_no_of_bits sample_platform 512 DEFAULT_FALSE_POSITIVE_RATE \<noteq> 0"
    unfolding calculate_no_of_bits_def sample_platform_def DEFAULT_FALSE_POSITIVE_RATE_def by simp
  then show ?thesis
    by (simp add: config_ok_def memtable_config_def config_default_def sample_platform_def WRITE_BUFFER_SIZE_def KB_def HEAD_KEY_SIZE_def)
qed

lemma sample_directory: "fresh_directory sample_fs [''t'']" "8 \<le> max_read sample_platform"
  by (auto simp: fresh_directory_def sample_fs_def under_def sample_platform_def)

lemma sample_keyspace: "is_valid_keyspace_name ''sample''"
  by (simp add: is_valid_keyspace_name_def VALID_CHARACTERS_def constants)

section \<open>The store as a map\<close>

text \<open>Writes touch one key, so the specification of a key depends on what it held at the start.\<close>

lemma spec_event_pointwise: "m k = m' k \<Longrightarrow> spec_event ev m k = spec_event ev m' k"
  by (cases ev) simp_all

lemma spec_events_pointwise: "m k = m' k \<Longrightarrow> fold spec_event evs m k = fold spec_event evs m' k"
proof (induction evs arbitrary: m m')
  case (Cons ev evs)
  have "spec_event ev m k = spec_event ev m' k" using Cons.prems by (rule spec_event_pointwise)
  then show ?case using Cons.IH [of "spec_event ev m" "spec_event ev m'"] by simp
qed simp

lemma heads_value: "k \<notin> reserved \<Longrightarrow> log_value [tail_vle t, head_vle t'] k = None"
  by (auto simp: log_value_def reserved_def)

text \<open>What every run from a newly created store maintains.\<close>

lemma created_run:
  assumes "fresh_directory fs root" and "is_valid_keyspace_name ks" and "config_ok P (memtable_config config_default)" and "8 \<le> max_read P"
    and "ticking P env N" and "n + 5 \<le> N" and "open_without_background env P os fs n ks root = Ok s0" and "store_run env P N s0 evs s"
  obtains C t es where "store_inv env P C s (tail_vle t # head_vle t # es)" and "length es \<le> length evs"
    and "\<And>k. k \<notin> reserved \<Longrightarrow> log_value (tail_vle t # head_vle t # es) k = fold spec_event evs Map.empty k"
    and "\<forall>ev \<in> set evs. quiet ev \<Longrightarrow> untouched root s"
proof -
  let ?log = "[tail_vle (clock env (n + 4)), head_vle (clock env (n + 4))]"
  have s0: "store_inv env P (\<lambda>_. []) s0 ?log" "untouched root s0"
    using create_ok [OF assms(2,1,3,5,6,4), of os "\<lambda>_. []"] assms(7) by auto
  obtain C es where 1: "store_inv env P C s (?log @ es)" "length es \<le> length evs"
    "log_value (?log @ es) = fold spec_event evs (log_value ?log)"
    using store_run_refines [OF assms(8) s0(1) assms(5)] by blast
  have "fold spec_event evs (log_value ?log) k = fold spec_event evs Map.empty k" if "k \<notin> reserved" for k
    by (rule spec_events_pointwise) (simp add: heads_value [OF that])
  with 1 run_untouched [OF assms(8) s0(1) assms(5) s0(2)] show thesis
    by (intro that [of C "clock env (n + 4)" es]) auto
qed

text \<open>The store of the examples, and one write to it.\<close>

abbreviation sample_opened :: "DataStore \<Rightarrow> bool" where
  "sample_opened s \<equiv> open_without_background store_env sample_platform store_os sample_fs 0 ''sample'' [''t''] = Ok s"

lemma sample_created:
  obtains s0 where "sample_opened s0" "store_inv store_env sample_platform (\<lambda>_. []) s0 [tail_vle 5000000, head_vle 5000000]"
    "ds_reads s0 = 5" "untouched [''t''] s0" "read_only_memtables s0 = []"
proof -
  have "clock store_env (0 + 4) = 5000000" by (simp add: store_env_def)
  with create_ok [OF sample_keyspace sample_directory(1) sample_config_ok store_env_ticking _ sample_directory(2), of 0 store_os "\<lambda>_. []"]
  show thesis by (auto intro: that)
qed

lemma sample_writable:
  assumes "store_inv store_env sample_platform C s log" and "log_offset log < 1000000" and "ds_reads s \<le> 3000" and "read_only_memtables s = []"
    and "field_ok sample_platform k" and "length k + 17 \<le> BLOCK_SIZE" and "k \<notin> reserved"
    and "field_ok sample_platform v" and "utf8_valid v"
  shows "writable store_env sample_platform 4000 s k v"
proof -
  have "vl_size (val_log s) < 1000000" using assms(1,2) by (simp add: store_inv_def vlog_inv_def)
  moreover have "length k < 65536 + 1" "length v < 65536 + 1"
    using assms(5,8) by (simp_all add: field_ok_def sample_platform_def)
  ultimately show ?thesis using assms(3-9) store_env_ticking by (simp add: writable_def)
qed

lemma sample_put:
  obtains s0 s1 where "sample_opened s0" "store_run store_env sample_platform 4000 s0 [Put_Event [1] [65]] s1" "ds_reads s1 \<le> 13"
    "writable store_env sample_platform 4000 s0 [1] [65]" "untouched [''t''] s1"
    "store_inv store_env sample_platform (\<lambda>_. []) s1 ([tail_vle 5000000, head_vle 5000000] @ [entry_for store_env s0 [1] [65]])"
proof -
  obtain s0 where s0: "sample_opened s0" "store_inv store_env sample_platform (\<lambda>_. []) s0 [tail_vle 5000000, head_vle 5000000]"
    "ds_reads s0 = 5" "untouched [''t''] s0" "read_only_memtables s0 = []"
    by (rule sample_created)
  have w: "writable store_env sample_platform 4000 s0 [1] [65]"
    using s0(3,5) by (intro sample_writable [OF s0(2)], unfold log_offset_heads)
      (simp_all add: field_ok_def sample_platform_def BLOCK_SIZE_def reserved_def HEAD_ENTRY_KEY_def TAIL_ENTRY_KEY_def)
  obtain s1 where s1: "put store_env sample_platform s0 [1] [65] = Ok (s1, True)" "ds_reads s1 \<le> 13"
    "store_inv store_env sample_platform (\<lambda>_. []) s1 ([tail_vle 5000000, head_vle 5000000] @ [entry_for store_env s0 [1] [65]])"
    using put_ok [OF s0(2) w] s0(3) by auto
  have "store_run store_env sample_platform 4000 s0 ([] @ [Put_Event [1] [65]]) s1"
    by (rule run_step [OF run_none put_step [OF w s1(1)]])
  with s0(1) s1(2,3) w put_untouched [OF s0(2) s1(1) s0(4)] show thesis by (intro that [of s0 s1]) simp_all
qed





section \<open>A crash before the first flush\<close>

text \<open>C3. If the process stops at any moment before a metadata write or a flush has run, opening the directory again succeeds
  and every key then reads as the client left it: recovery rebuilds the memtables from the value log alone, however many of
  them had become read-only.\<close>

theorem crash_before_flush_recovers:
  assumes "fresh_directory fs root" and "is_valid_keyspace_name ks" and "config_ok P (memtable_config config_default)" and "8 \<le> max_read P"
    and "ticking P env N" and "n + 5 \<le> N" and "open_without_background env P os fs n ks root = Ok s0" and "store_run env P N s0 evs s"
    and "\<forall>ev \<in> set evs. quiet ev" and "lists_directories os' (ds_fs s) (root @ [BUCKETS_DIRECTORY_NAME])" and "metadata_len os' (root @ [VALUE_LOG_DIRECTORY_NAME]) \<noteq> 0"
    and "ds_reads s \<le> n'" and "ids_distinct env (n' + 4) N'" and "n' + 4 + 3 * length evs \<le> N'"
  shows "\<exists>s'. open_without_background env P os' (ds_fs s) n' ks root = Ok s'
    \<and> (\<forall>k. k \<notin> reserved \<and> validate_size k None = Ok () \<longrightarrow>
         (\<exists>s'' r. get P s' k = Ok (s'', r) \<and> map_option ue_val r = fold spec_event evs Map.empty k))"
proof -
  obtain C t es where inv: "store_inv env P C s (tail_vle t # head_vle t # es)" "length es \<le> length evs"
    and log: "\<And>k. k \<notin> reserved \<Longrightarrow> log_value (tail_vle t # head_vle t # es) k = fold spec_event evs Map.empty k"
    and u: "untouched root s"
    using created_run [OF assms(1-8)] assms(9) by metis
  have "n' + 4 + 3 * length es \<le> N'" using assms(14) inv(2) by simp
  then obtain s' where s': "open_without_background env P os' (ds_fs s) n' ks root = Ok s'" "store_inv env P C s' (tail_vle t # head_vle t # es)"
    using reopen_untouched [OF inv(1) u assms(10,11,2,3,12,13)] by blast
  then show ?thesis using get_ok [OF s'(2)] log by metis
qed

theorem crash_before_flush_recovers_witness:
  "\<exists>s0 s1 s2. sample_opened s0 \<and> store_run store_env sample_platform 4000 s0 [Put_Event [1] [65]] s1
    \<and> open_without_background store_env sample_platform store_os (ds_fs s1) 20 ''sample'' [''t''] = Ok s2
    \<and> (\<exists>s3 r. get sample_platform s2 [1] = Ok (s3, r) \<and> map_option ue_val r = Some [65])"
proof -
  obtain s0 s1 where s: "sample_opened s0" "store_run store_env sample_platform 4000 s0 [Put_Event [1] [65]] s1" "ds_reads s1 \<le> 13"
    "untouched [''t''] s1"
    by (rule sample_put)
  have os: "lists_directories store_os (ds_fs s1) ([''t''] @ [BUCKETS_DIRECTORY_NAME])"
    unfolding lists_directories_def
  proof (intro allI impI)
    fix p assume p: "under ([''t''] @ [BUCKETS_DIRECTORY_NAME]) p \<and> dirs (ds_fs s1) p"
    then have pb: "p = [''t'', BUCKETS_DIRECTORY_NAME]" using s(4) by (auto simp: untouched_def)
    have "files (ds_fs s1) (p @ [name]) = None" "\<not> dirs (ds_fs s1) (p @ [name])" for name
      using s(4) unfolding untouched_def pb by (auto simp: under_def dest!: spec [of _ "[''t'', BUCKETS_DIRECTORY_NAME, name]"])
    then show "distinct (read_dir store_os p) \<and>
        set (read_dir store_os p) = {name. dirs (ds_fs s1) (p @ [name]) \<or> files (ds_fs s1) (p @ [name]) \<noteq> None}"
      by (simp add: store_os_def)
  qed
  have k: "[1] \<notin> reserved" "validate_size [1] None = Ok ()"
    by (simp_all add: reserved_def validate_size_def constants)
  obtain s2 where "open_without_background store_env sample_platform store_os (ds_fs s1) 20 ''sample'' [''t''] = Ok s2"
    "\<exists>s3 r. get sample_platform s2 [1] = Ok (s3, r) \<and> map_option ue_val r = fold spec_event [Put_Event [1] [65]] Map.empty [1]"
    using crash_before_flush_recovers [OF sample_directory(1) sample_keyspace sample_config_ok sample_directory(2) store_env_ticking _ s(1,2) _ os _ _
        store_env_ids [of "20 + 4"]] s(3) k
    by (auto simp: store_os_def)
  with s(1,2) show ?thesis by (auto simp: TOMB_STONE_MARKER_def)
qed

end
